(* ===== verification/Skynet_Prelude.thy ===== *)
theory Skynet_Prelude
  imports Main "HOL-Library.Word" "HOL-Library.Monad_Syntax"
begin

text \<open>
  Shared vocabulary of the development: the machine types of the C sources, the
  collections of simplification rules the component proofs draw on, and the generic
  facts on lists, options and words that more than one component needs.

  Conventions used by every component.
  \<^item> \<open>uint8_t\<close>, \<open>uint32_t\<close> and \<open>uint64_t\<close>/\<open>size_t\<close> are words of 8, 32 and 64 bits.
    A C \<open>int\<close> that may become negative or wrap is a 32-bit word read by \<open>sint\<close>;
    a C \<open>int\<close> that only ever holds an index, a count or a capacity is a \<open>nat\<close>.
  \<^item> A computation that the C code would end in a failed \<open>assert\<close>, a null or dangling
    dereference, an out-of-range access or a read of uninitialised memory has the value
    \<^term>\<open>None\<close>; a computation that succeeds has the value \<open>Some r\<close>. A theorem that an
    operation returns \<open>Some\<close> is therefore a memory-safety and assertion-freedom theorem.
  \<^item> A null pointer is the \<^term>\<open>None\<close> of an inner option.
\<close>

unbundle bit_operations_syntax

type_synonym byte = "8 word"
type_synonym u16 = "16 word"
type_synonym u32 = "32 word"
type_synonym u64 = "64 word"

subsection \<open>Message types\<close>

text \<open>The types and type flags of \<open>skynet.h\<close>.\<close>

definition PTYPE_TEXT :: int where "PTYPE_TEXT = 0"
definition PTYPE_CLIENT :: int where "PTYPE_CLIENT = 3"
definition PTYPE_SOCKET :: int where "PTYPE_SOCKET = 6"
definition PTYPE_TAG_DONTCOPY :: int where "PTYPE_TAG_DONTCOPY = 0x10000"
definition PTYPE_TAG_ALLOCSESSION :: int where "PTYPE_TAG_ALLOCSESSION = 0x20000"
definition PTYPE_SYSTEM :: int where "PTYPE_SYSTEM = 4"
definition PTYPE_HARBOR :: int where "PTYPE_HARBOR = 5"
definition PTYPE_ERROR :: int where "PTYPE_ERROR = 7"

named_theorems mq_simps \<open>equations of the message queue operations\<close>
named_theorems step_intros \<open>introduction rules of the step relations\<close>
named_theorems byte_simps \<open>round trips between words and byte sequences\<close>

subsection \<open>Options\<close>

definition assert_opt :: "bool \<Rightarrow> unit option" where
  "assert_opt b = (if b then Some () else None)"

lemma assert_opt_simps [simp]:
  "assert_opt True = Some ()"
  "assert_opt False = None"
  by (simp_all add: assert_opt_def)

lemma assert_opt_eq_Some [simp]: "assert_opt b = Some u \<longleftrightarrow> b"
  by (cases b) auto

lemma bind_assert_opt_Some [simp]:
  "Option.bind (assert_opt b) f = Some r \<longleftrightarrow> b \<and> f () = Some r"
  by (cases b) auto

text \<open>Reading an array cell: out of range and uninitialised cells are faults.\<close>

definition read_cell :: "'a option list \<Rightarrow> nat \<Rightarrow> 'a option" where
  "read_cell xs i = (if i < length xs then xs ! i else None)"

text \<open>Writing an array cell: out of range is a fault.\<close>

definition write_cell :: "'a option list \<Rightarrow> nat \<Rightarrow> 'a \<Rightarrow> 'a option list option" where
  "write_cell xs i v = (if i < length xs then Some (xs[i := Some v]) else None)"

lemma read_cell_in [simp]: "i < length xs \<Longrightarrow> read_cell xs i = xs ! i"
  by (simp add: read_cell_def)

lemma write_cell_in [simp]: "i < length xs \<Longrightarrow> write_cell xs i v = Some (xs[i := Some v])"
  by (simp add: write_cell_def)

subsection \<open>Those\<close>

text \<open>
  \<open>those\<close> turns a list of cells into a list of values when every cell is initialised.
\<close>

lemma those_map_Some [simp]: "those (map Some xs) = Some xs"
  by (induction xs) auto

lemma those_eq_Some_iff: "those xs = Some ys \<longleftrightarrow> xs = map Some ys"
proof (induction xs arbitrary: ys)
  case Nil
  then show ?case by auto
next
  case (Cons x xs)
  then show ?case by (cases x; cases ys) auto
qed

lemma Some_in_set_update:
  "i < length xs \<Longrightarrow> xs ! i = None \<Longrightarrow> Some d \<in> set (xs[i := Some c]) \<longleftrightarrow> d = c \<or> Some d \<in> set xs"
  by (induction xs arbitrary: i) (auto split: nat.splits)

lemma nth_update_None:
  "j < length xs \<Longrightarrow> xs[i := None] ! j = Some d \<longleftrightarrow> i \<noteq> j \<and> xs ! j = Some d"
  by (cases "i = j") simp_all

lemma pow2_less_iff: "(2 :: nat) ^ a < 2 ^ b \<longleftrightarrow> a < b"
  by simp

subsection \<open>Low bits of words\<close>

lemma and_of_nat_mask: "(h AND (of_nat (2 ^ k) - 1) :: 'a::len word) = take_bit k h"
  by (simp add: take_bit_eq_mask mask_eq_exp_minus_1)

lemma unat_take_bit_mod: "unat (take_bit k h :: 'a::len word) = unat h mod 2 ^ k"
  unfolding unsigned_take_bit_eq by (rule take_bit_eq_mod)

lemma unat_drop_bit_div: "unat (drop_bit k w :: 'a::len word) = unat w div 2 ^ k"
  unfolding unat_drop_bit_eq by (rule drop_bit_eq_div)

lemma unat_and_of_nat_mask:
  "unat (h AND (of_nat (2 ^ k) - 1) :: 'a::len word) = unat h mod 2 ^ k"
  by (simp only: and_of_nat_mask unat_take_bit_mod)

lemma unat_of_nat_plus: "unat (of_nat i + (x :: 'a::len word)) = (i + unat x) mod 2 ^ LENGTH('a)"
  by (simp add: unat_word_ariths unat_of_nat mod_simps)

lemma mod_mod_pow2: "k \<le> n \<Longrightarrow> (x mod 2 ^ n) mod 2 ^ k = x mod (2 ^ k :: nat)"
  by (intro mod_mod_cancel le_imp_power_dvd)

lemma map_eqI: "(\<And>k v. f k = Some v \<longleftrightarrow> g k = Some v) \<Longrightarrow> f = g"
  by (rule ext) (metis not_Some_eq)

lemma all_less_2: "(\<forall>i < (2 :: nat). P i) \<longleftrightarrow> P 0 \<and> P 1"
  by (auto simp: less_2_cases_iff)

lemma all_less_4: "(\<forall>i < (4 :: nat). P i) \<longleftrightarrow> P 0 \<and> P 1 \<and> P 2 \<and> P 3"
  by (auto simp: numeral_eq_Suc less_Suc_eq)

lemma mod_shift_surj: "j < n \<Longrightarrow> \<exists>i < n. (i + a) mod n = (j :: nat)"
proof -
  assume j: "j < n"
  have "((j + (n - a mod n)) mod n + a) mod n = (j + (n - a mod n) + a mod n) mod n"
    by (simp add: mod_simps)
  also have "j + (n - a mod n) + a mod n = j + n"
    using j mod_less_divisor[of n a] by linarith
  finally have "((j + (n - a mod n)) mod n + a) mod n = j" using j by simp
  then show ?thesis using j by (intro exI[of _ "(j + (n - a mod n)) mod n"]) simp
qed

end
