(* ===== verification/Fifo.thy ===== *)
theory Fifo
  imports Skynet_Prelude
begin

text \<open>
  The interface of a first-in first-out queue whose operations may fault. The ring
  buffers of \<open>skynet_mq.c\<close> provide it; what a client may
  conclude about any sequence of its calls is proved here once.
\<close>

datatype 'a fifo_op = Put 'a | Take

text \<open>
  A client's run: the values taken, oldest first, and the final queue; a fault of one
  operation is a fault of the run.
\<close>

fun fifo_run ::
    "('q \<Rightarrow> 'a \<Rightarrow> 'q option) \<Rightarrow> ('q \<Rightarrow> ('a option \<times> 'q) option) \<Rightarrow>
     'a fifo_op list \<Rightarrow> 'q \<Rightarrow> ('a list \<times> 'q) option" where
  "fifo_run put tk [] q = Some ([], q)"
| "fifo_run put tk (Put x # ops) q = do {
     q' \<leftarrow> put q x;
     fifo_run put tk ops q'
   }"
| "fifo_run put tk (Take # ops) q = do {
     r \<leftarrow> tk q;
     rest \<leftarrow> fifo_run put tk ops (snd r);
     Some (case fst r of None \<Rightarrow> fst rest | Some x \<Rightarrow> x # fst rest, snd rest)
   }"

fun puts :: "'a fifo_op list \<Rightarrow> 'a list" where
  "puts [] = []"
| "puts (Put x # ops) = x # puts ops"
| "puts (Take # ops) = puts ops"

locale fifo_queue =
  fixes put :: "'q \<Rightarrow> 'a \<Rightarrow> 'q option"
    and tk :: "'q \<Rightarrow> ('a option \<times> 'q) option"
    and contents :: "'q \<Rightarrow> 'a list"
    and invar :: "'q \<Rightarrow> bool"
  assumes put_ok: "invar q \<Longrightarrow>
      \<exists>q'. put q x = Some q' \<and> invar q' \<and> contents q' = contents q @ [x]"
    and tk_ok: "invar q \<Longrightarrow>
      \<exists>q'. invar q' \<and>
        (case contents q of
           [] \<Rightarrow> tk q = Some (None, q') \<and> contents q' = []
         | x # xs \<Rightarrow> tk q = Some (Some x, q') \<and> contents q' = xs)"
begin

text \<open>No run faults, and nothing is lost, duplicated or reordered.\<close>

lemma run_ok:
  "invar q \<Longrightarrow>
     \<exists>out q'. fifo_run put tk ops q = Some (out, q') \<and> invar q' \<and>
              out @ contents q' = contents q @ puts ops"
proof (induction ops arbitrary: q)
  case Nil
  then show ?case by simp
next
  case (Cons op ops)
  show ?case
  proof (cases op)
    case (Put x)
    obtain q1 where q1: "put q x = Some q1" "invar q1" "contents q1 = contents q @ [x]"
      using put_ok[OF Cons.prems] by blast
    with Cons.IH[OF q1(2)] Put show ?thesis by auto
  next
    case Take
    obtain q1 where q1: "invar q1" "case contents q of
           [] \<Rightarrow> tk q = Some (None, q1) \<and> contents q1 = []
         | x # xs \<Rightarrow> tk q = Some (Some x, q1) \<and> contents q1 = xs"
      using tk_ok[OF Cons.prems] by blast
    from Cons.IH[OF q1(1)] obtain out q2 where
      "fifo_run put tk ops q1 = Some (out, q2)" "invar q2"
      "out @ contents q2 = contents q1 @ puts ops" by blast
    with q1(2) Take show ?thesis by (cases "contents q") auto
  qed
qed

text \<open>Taking as often as there are elements empties the queue, in order.\<close>

lemma drain_ok:
  "invar q \<Longrightarrow>
     \<exists>q'. fifo_run put tk (replicate (length (contents q)) Take) q = Some (contents q, q') \<and>
          invar q' \<and> contents q' = []"
proof (induction "contents q" arbitrary: q)
  case Nil
  then show ?case by auto
next
  case (Cons x xs)
  obtain q1 where "invar q1" "tk q = Some (Some x, q1)" "contents q1 = xs"
    using tk_ok[OF Cons.prems] Cons.hyps(2)[symmetric] by auto
  with Cons.hyps(1)[of q1] Cons.hyps(2)[symmetric] show ?case by auto
qed

end

end
