(* ===== verification/Message_Queue.thy ===== *)
theory Message_Queue
  imports Fifo
begin

text \<open>
  The message queues of the skynet runtime, \<open>skynet-src/skynet_mq.c\<close>.

  Each service owns a ring buffer of messages (\<open>struct message_queue\<close>), and the queues
  that have work are linked into one global queue (\<open>struct global_queue\<close>) by their
  \<open>next\<close> field. The queues live in a store from addresses to records, so that the
  linking, and the aliasing it makes possible, are visible in the model. A cell of the
  ring buffer is an option: \<open>malloc\<close> leaves it uninitialised (\<^term>\<open>None\<close>).

  The operations run under the queue's spin lock, and the global queue's inside it; each
  is one atomic step here.
\<close>

section \<open>Data\<close>

record skynet_message =
  m_source :: u32
  m_session :: u32
  m_data :: "nat option"
  m_sz :: u64

record message_queue =
  q_handle :: u32
  q_cap :: nat
  q_head :: nat
  q_tail :: nat
  q_release :: bool
  q_in_global :: bool
  q_overload :: nat
  q_overload_threshold :: nat
  q_queue :: "skynet_message option list"
  q_next :: "nat option"

text \<open>
  The global state of the file: the allocated queues, and the global queue \<open>Q\<close>.
  The record is extensible; the node's state adds its fields to it.
\<close>

record mq_globals =
  mq_heap :: "nat \<Rightarrow> message_queue option"
  g_head :: "nat option"
  g_tail :: "nat option"

definition DEFAULT_QUEUE_SIZE :: nat where "DEFAULT_QUEUE_SIZE = 64"
definition MQ_OVERLOAD :: nat where "MQ_OVERLOAD = 1024"

section \<open>One queue\<close>

definition skynet_mq_create :: "u32 \<Rightarrow> message_queue" where
  "skynet_mq_create handle =
     \<lparr>q_handle = handle, q_cap = DEFAULT_QUEUE_SIZE, q_head = 0, q_tail = 0,
      q_release = False, q_in_global = True, q_overload = 0,
      q_overload_threshold = MQ_OVERLOAD,
      q_queue = replicate DEFAULT_QUEUE_SIZE None, q_next = None\<rparr>"

definition skynet_mq_handle :: "message_queue \<Rightarrow> u32" where
  "skynet_mq_handle q = q_handle q"

definition skynet_mq_length :: "message_queue \<Rightarrow> nat" where
  "skynet_mq_length q =
     (if q_head q \<le> q_tail q then q_tail q - q_head q
      else q_tail q + q_cap q - q_head q)"

definition skynet_mq_overload :: "message_queue \<Rightarrow> nat \<times> message_queue" where
  "skynet_mq_overload q =
     (if q_overload q \<noteq> 0 then (q_overload q, q\<lparr>q_overload := 0\<rparr>) else (0, q))"

text \<open>
  The loop \<open>while (length > q->overload_threshold)\<close>. It would not end for a zero
  threshold, which \<^term>\<open>None\<close> stands for.
\<close>

partial_function (option) overload_loop ::
    "nat \<Rightarrow> message_queue \<Rightarrow> message_queue option" where
  "overload_loop len q =
     (if q_overload_threshold q < len
      then overload_loop len
             (q\<lparr>q_overload := len, q_overload_threshold := q_overload_threshold q * 2\<rparr>)
      else Some q)"

declare overload_loop.simps [code]

text \<open>
  \<open>skynet_mq_pop\<close>: the inner option is the C return value (\<open>Some m\<close> for 0 with the
  message stored, \<^term>\<open>None\<close> for 1).
\<close>

definition skynet_mq_pop ::
    "message_queue \<Rightarrow> (skynet_message option \<times> message_queue) option" where
  "skynet_mq_pop q =
     (if q_head q \<noteq> q_tail q then do {
        m \<leftarrow> read_cell (q_queue q) (q_head q);
        let head = q_head q + 1;
        let head = (if q_cap q \<le> head then 0 else head);
        let len = (if q_tail q < head then q_tail q + q_cap q - head else q_tail q - head);
        q' \<leftarrow> overload_loop len (q\<lparr>q_head := head\<rparr>);
        Some (Some m, q')
      }
      else Some (None, q\<lparr>q_overload_threshold := MQ_OVERLOAD, q_in_global := False\<rparr>))"

text \<open>
  \<open>expand_queue\<close>: the loop copies cell \<open>(head + i) % cap\<close> to cell \<open>i\<close>. A struct copy
  of an uninitialised cell leaves the target uninitialised.
\<close>

definition expand_queue :: "message_queue \<Rightarrow> message_queue" where
  "expand_queue q =
     q\<lparr>q_head := 0, q_tail := q_cap q, q_cap := q_cap q * 2,
       q_queue := map (\<lambda>i. q_queue q ! ((q_head q + i) mod q_cap q)) [0..<q_cap q]
                  @ replicate (q_cap q) None\<rparr>"

text \<open>The part of \<open>skynet_mq_push\<close> that stores the message (lines 194 to 201).\<close>

definition mq_store :: "message_queue \<Rightarrow> skynet_message \<Rightarrow> message_queue option" where
  "mq_store q m = do {
     cells \<leftarrow> write_cell (q_queue q) (q_tail q) m;
     let tail = (if q_cap q \<le> q_tail q + 1 then 0 else q_tail q + 1);
     let q' = q\<lparr>q_queue := cells, q_tail := tail\<rparr>;
     Some (if q_head q' = q_tail q' then expand_queue q' else q')
   }"

section \<open>The global queue\<close>

definition mq_set :: "nat \<Rightarrow> message_queue \<Rightarrow> 'z mq_globals_scheme \<Rightarrow> 'z mq_globals_scheme" where
  "mq_set a q s = s\<lparr>mq_heap := (mq_heap s)(a \<mapsto> q)\<rparr>"

definition skynet_mq_init :: "'z mq_globals_scheme \<Rightarrow> 'z mq_globals_scheme" where
  "skynet_mq_init s = s\<lparr>g_head := None, g_tail := None\<rparr>"

definition skynet_globalmq_push ::
    "nat \<Rightarrow> 'z mq_globals_scheme \<Rightarrow> 'z mq_globals_scheme option" where
  "skynet_globalmq_push a s = do {
     q \<leftarrow> mq_heap s a;
     _ \<leftarrow> assert_opt (q_next q = None);
     case g_tail s of
       Some t \<Rightarrow> do {
         tq \<leftarrow> mq_heap s t;
         Some ((mq_set t (tq\<lparr>q_next := Some a\<rparr>) s)\<lparr>g_tail := Some a\<rparr>)
       }
     | None \<Rightarrow> Some (s\<lparr>g_head := Some a, g_tail := Some a\<rparr>)
   }"

definition skynet_globalmq_pop ::
    "'z mq_globals_scheme \<Rightarrow> (nat option \<times> 'z mq_globals_scheme) option" where
  "skynet_globalmq_pop s =
     (case g_head s of
        None \<Rightarrow> Some (None, s)
      | Some a \<Rightarrow> do {
          q \<leftarrow> mq_heap s a;
          s' \<leftarrow> (if q_next q = None
                then do {
                  _ \<leftarrow> assert_opt (g_tail s = Some a);
                  Some (s\<lparr>g_head := None, g_tail := None\<rparr>)
                }
                else Some (s\<lparr>g_head := q_next q\<rparr>));
          Some (Some a, mq_set a (q\<lparr>q_next := None\<rparr>) s')
        })"

section \<open>Operations that join a queue to the global queue\<close>

definition skynet_mq_push ::
    "nat \<Rightarrow> skynet_message \<Rightarrow> 'z mq_globals_scheme \<Rightarrow> 'z mq_globals_scheme option" where
  "skynet_mq_push a m s = do {
     q \<leftarrow> mq_heap s a;
     q1 \<leftarrow> mq_store q m;
     if q_in_global q1 then Some (mq_set a q1 s)
     else skynet_globalmq_push a (mq_set a (q1\<lparr>q_in_global := True\<rparr>) s)
   }"

definition skynet_mq_mark_release ::
    "nat \<Rightarrow> 'z mq_globals_scheme \<Rightarrow> 'z mq_globals_scheme option" where
  "skynet_mq_mark_release a s = do {
     q \<leftarrow> mq_heap s a;
     _ \<leftarrow> assert_opt (\<not> q_release q);
     let s' = mq_set a (q\<lparr>q_release := True\<rparr>) s;
     if q_in_global q then Some s' else skynet_globalmq_push a s'
   }"

definition mq_release_node ::
    "nat \<Rightarrow> 'z mq_globals_scheme \<Rightarrow> 'z mq_globals_scheme option" where
  "mq_release_node a s = do {
     q \<leftarrow> mq_heap s a;
     _ \<leftarrow> assert_opt (q_next q = None);
     Some (s\<lparr>mq_heap := (mq_heap s)(a := None)\<rparr>)
   }"

text \<open>
  \<open>_drop_queue\<close>: the drop callback may change the whole state, which is why it is a
  function on the extended record.
\<close>

partial_function (option) drop_queue ::
    "(skynet_message \<Rightarrow> 'z mq_globals_scheme \<Rightarrow> 'z mq_globals_scheme option) \<Rightarrow>
     nat \<Rightarrow> 'z mq_globals_scheme \<Rightarrow> 'z mq_globals_scheme option" where
  "drop_queue drop_func a s = do {
     q \<leftarrow> mq_heap s a;
     r \<leftarrow> skynet_mq_pop q;
     let s1 = mq_set a (snd r) s;
     (case fst r of
        None \<Rightarrow> mq_release_node a s1
      | Some m \<Rightarrow> do {
          s2 \<leftarrow> drop_func m s1;
          drop_queue drop_func a s2
        })
   }"

declare drop_queue.simps [code]

definition skynet_mq_release ::
    "(skynet_message \<Rightarrow> 'z mq_globals_scheme \<Rightarrow> 'z mq_globals_scheme option) \<Rightarrow>
     nat \<Rightarrow> 'z mq_globals_scheme \<Rightarrow> 'z mq_globals_scheme option" where
  "skynet_mq_release drop_func a s = do {
     q \<leftarrow> mq_heap s a;
     if q_release q then drop_queue drop_func a s else skynet_globalmq_push a s
   }"

section \<open>The ring buffer is a FIFO list\<close>

text \<open>The messages of a queue, oldest first, and the invariant of the ring buffer.\<close>

definition mq_list :: "message_queue \<Rightarrow> skynet_message list" where
  "mq_list q = map (\<lambda>i. the (q_queue q ! ((q_head q + i) mod q_cap q)))
                   [0..<skynet_mq_length q]"

definition mq_wf :: "message_queue \<Rightarrow> bool" where
  "mq_wf q \<longleftrightarrow>
     0 < q_cap q \<and> q_head q < q_cap q \<and> q_tail q < q_cap q \<and>
     length (q_queue q) = q_cap q \<and> 0 < q_overload_threshold q \<and>
     (\<forall>i < skynet_mq_length q. q_queue q ! ((q_head q + i) mod q_cap q) \<noteq> None)"

lemma length_mq_list [simp]: "length (mq_list q) = skynet_mq_length q"
  by (simp add: mq_list_def)

lemma mq_list_nth:
  "i < skynet_mq_length q \<Longrightarrow> mq_list q ! i = the (q_queue q ! ((q_head q + i) mod q_cap q))"
  by (simp add: mq_list_def)

lemma mq_length_less_cap: "mq_wf q \<Longrightarrow> skynet_mq_length q < q_cap q"
  by (auto simp: mq_wf_def skynet_mq_length_def)

lemma mq_length_0_iff: "mq_wf q \<Longrightarrow> skynet_mq_length q = 0 \<longleftrightarrow> q_head q = q_tail q"
  by (auto simp: mq_wf_def skynet_mq_length_def)

lemma mq_tail_mod: "mq_wf q \<Longrightarrow> q_tail q = (q_head q + skynet_mq_length q) mod q_cap q"
  by (auto simp: mq_wf_def skynet_mq_length_def mod_if)

lemma mq_list_Nil_iff: "mq_wf q \<Longrightarrow> mq_list q = [] \<longleftrightarrow> q_head q = q_tail q"
  using mq_length_0_iff[of q] by (metis length_0_conv length_mq_list)

lemma mq_wf_create [simp]: "mq_wf (skynet_mq_create h)"
  by (simp add: mq_wf_def skynet_mq_create_def skynet_mq_length_def
      DEFAULT_QUEUE_SIZE_def MQ_OVERLOAD_def)

lemma mq_list_create [simp]: "mq_list (skynet_mq_create h) = []"
  by (simp add: mq_list_def skynet_mq_create_def skynet_mq_length_def)

lemma mq_create_fields [simp]:
  "q_handle (skynet_mq_create h) = h" "q_in_global (skynet_mq_create h)"
  "\<not> q_release (skynet_mq_create h)" "q_next (skynet_mq_create h) = None"
  by (simp_all add: skynet_mq_create_def)

text \<open>Fields that neither the invariant nor the contents depend on.\<close>

lemma mq_frame [simp]:
  "mq_list (q\<lparr>q_next := n\<rparr>) = mq_list q" "mq_wf (q\<lparr>q_next := n\<rparr>) = mq_wf q"
  "mq_list (q\<lparr>q_release := r\<rparr>) = mq_list q" "mq_wf (q\<lparr>q_release := r\<rparr>) = mq_wf q"
  "mq_list (q\<lparr>q_in_global := g\<rparr>) = mq_list q" "mq_wf (q\<lparr>q_in_global := g\<rparr>) = mq_wf q"
  "mq_list (q\<lparr>q_overload := ov\<rparr>) = mq_list q" "mq_wf (q\<lparr>q_overload := ov\<rparr>) = mq_wf q"
  "mq_list (q\<lparr>q_overload_threshold := th\<rparr>) = mq_list q"
  "mq_list (q\<lparr>q_overload_threshold := th, q_in_global := g\<rparr>) = mq_list q"
  "skynet_mq_length (q\<lparr>q_overload_threshold := th\<rparr>) = skynet_mq_length q"
  by (simp_all add: mq_list_def mq_wf_def skynet_mq_length_def)

lemma mq_wf_threshold [simp]:
  "mq_wf q \<Longrightarrow> 0 < th \<Longrightarrow> mq_wf (q\<lparr>q_overload_threshold := th\<rparr>)"
  by (simp add: mq_wf_def skynet_mq_length_def)

subsection \<open>The overload loop\<close>

text \<open>
  For a positive threshold the loop ends; it doubles the threshold until it covers the
  length, and records the length in \<open>overload\<close> exactly when it ran.
\<close>

lemma overload_loop_ends:
  assumes "0 < q_overload_threshold q"
  shows "\<exists>k. overload_loop len q =
               Some (q\<lparr>q_overload := (if k = 0 then q_overload q else len),
                       q_overload_threshold := q_overload_threshold q * 2 ^ k\<rparr>) \<and>
             len \<le> q_overload_threshold q * 2 ^ k \<and>
             (k > 0 \<longrightarrow> q_overload_threshold q * 2 ^ (k - 1) < len)"
  using assms
proof (induction "len - q_overload_threshold q" arbitrary: q rule: less_induct)
  case less
  show ?case
  proof (cases "q_overload_threshold q < len")
    case False
    then show ?thesis by (intro exI[of _ 0]) (simp add: overload_loop.simps)
  next
    case True
    let ?q = "q\<lparr>q_overload := len, q_overload_threshold := q_overload_threshold q * 2\<rparr>"
    have "len - q_overload_threshold ?q < len - q_overload_threshold q"
      using True less.prems by simp
    from less.hyps[OF this] less.prems obtain k where k:
      "overload_loop len ?q = Some (?q\<lparr>q_overload := (if k = 0 then q_overload ?q else len),
          q_overload_threshold := q_overload_threshold ?q * 2 ^ k\<rparr>)"
      "len \<le> q_overload_threshold ?q * 2 ^ k"
      "k > 0 \<longrightarrow> q_overload_threshold ?q * 2 ^ (k - 1) < len"
      by auto
    have "overload_loop len q = overload_loop len ?q"
      using True by (simp add: overload_loop.simps)
    with k True show ?thesis
      by (intro exI[of _ "Suc k"]) (cases k, auto simp: mult.assoc)
  qed
qed

lemma overload_loop_frame:
  assumes "mq_wf q"
  obtains q' where "overload_loop len q = Some q'" "mq_wf q'" "mq_list q' = mq_list q"
    "q_handle q' = q_handle q" "q_next q' = q_next q" "q_in_global q' = q_in_global q"
    "q_release q' = q_release q"
proof -
  from assms have th: "0 < q_overload_threshold q" by (simp add: mq_wf_def)
  from overload_loop_ends[OF th, of len] obtain k where
    "overload_loop len q = Some (q\<lparr>q_overload := (if k = 0 then q_overload q else len),
       q_overload_threshold := q_overload_threshold q * 2 ^ k\<rparr>)" by blast
  moreover have "mq_wf (q\<lparr>q_overload := (if k = 0 then q_overload q else len),
       q_overload_threshold := q_overload_threshold q * 2 ^ k\<rparr>)"
    using assms th by simp
  ultimately show thesis using that by force
qed

subsection \<open>Pop\<close>

lemma mod_Suc_shift: "(Suc h mod c + i) mod c = (h + Suc i) mod (c :: nat)"
  by (metis add_Suc_shift mod_add_left_eq)

lemma pop_head_mod:
  "h < c \<Longrightarrow> (if c \<le> Suc h then 0 else Suc h) = Suc h mod (c :: nat)"
  by (auto simp: le_Suc_eq)

lemma mq_pop_empty:
  assumes "mq_wf q" "mq_list q = []"
  shows "skynet_mq_pop q =
           Some (None, q\<lparr>q_overload_threshold := MQ_OVERLOAD, q_in_global := False\<rparr>)"
  using assms by (simp add: skynet_mq_pop_def mq_list_Nil_iff)

lemma mq_advance:
  assumes wf: "mq_wf q" and ne: "mq_list q \<noteq> []"
  defines "q1 \<equiv> q\<lparr>q_head := Suc (q_head q) mod q_cap q\<rparr>"
  shows "mq_wf q1" "mq_list q1 = tl (mq_list q)"
    "q_queue q ! q_head q = Some (hd (mq_list q))"
    "skynet_mq_length q1 = skynet_mq_length q - 1"
proof -
  have b: "q_head q < q_cap q" "q_tail q < q_cap q" "length (q_queue q) = q_cap q"
    and init: "\<And>i. i < skynet_mq_length q \<Longrightarrow>
                 q_queue q ! ((q_head q + i) mod q_cap q) \<noteq> None"
    using wf by (auto simp: mq_wf_def)
  have pos: "0 < skynet_mq_length q" and ht: "q_head q \<noteq> q_tail q"
    using ne wf by (metis length_greater_0_conv length_mq_list, metis mq_list_Nil_iff)
  show len: "skynet_mq_length q1 = skynet_mq_length q - 1"
    using b ht by (auto simp: q1_def skynet_mq_length_def mod_if)
  have "q_queue q ! ((Suc (q_head q) mod q_cap q + i) mod q_cap q) \<noteq> None"
    if "i < skynet_mq_length q - 1" for i
    unfolding mod_Suc_shift using init[of "Suc i"] that by simp
  then show "mq_wf q1"
    using wf len by (simp add: mq_wf_def q1_def)
  show "mq_list q1 = tl (mq_list q)"
    using len pos by (intro nth_equalityI) (auto simp: nth_tl mq_list_nth q1_def mod_Suc_shift)
  have "hd (mq_list q) = the (q_queue q ! q_head q)"
    using pos b ne by (simp add: hd_conv_nth mq_list_nth)
  then show "q_queue q ! q_head q = Some (hd (mq_list q))"
    using init[OF pos] b by auto
qed

lemma mq_pop_nonempty:
  assumes wf: "mq_wf q" and ne: "mq_list q \<noteq> []"
  obtains q' where "skynet_mq_pop q = Some (Some (hd (mq_list q)), q')" "mq_wf q'"
    "mq_list q' = tl (mq_list q)" "q_handle q' = q_handle q" "q_next q' = q_next q"
    "q_in_global q' = q_in_global q" "q_release q' = q_release q"
proof -
  let ?q1 = "q\<lparr>q_head := Suc (q_head q) mod q_cap q\<rparr>"
  note adv = mq_advance[OF wf ne]
  from wf have b: "q_head q < q_cap q" "length (q_queue q) = q_cap q"
    by (auto simp: mq_wf_def)
  obtain len where pop: "skynet_mq_pop q = do {
      q' \<leftarrow> overload_loop len ?q1; Some (Some (hd (mq_list q)), q')}"
  proof -
    have "q_head q \<noteq> q_tail q" using ne mq_list_Nil_iff[OF wf] by simp
    with b adv(3) show thesis
      by (intro that) (simp add: skynet_mq_pop_def Let_def pop_head_mod)
  qed
  from overload_loop_frame[OF adv(1)] obtain q' where
    "overload_loop len ?q1 = Some q'" "mq_wf q'" "mq_list q' = mq_list ?q1"
    "q_handle q' = q_handle ?q1" "q_next q' = q_next ?q1"
    "q_in_global q' = q_in_global ?q1" "q_release q' = q_release ?q1" by metis
  with pop adv(2) show thesis by (intro that[of q']) simp_all
qed

subsection \<open>Push\<close>

text \<open>The invariant and the contents together: each cell of the window holds its message.\<close>

lemma mq_repI:
  assumes "0 < q_cap q" "q_head q < q_cap q" "q_tail q < q_cap q"
    "length (q_queue q) = q_cap q" "0 < q_overload_threshold q"
    and len: "skynet_mq_length q = length ms"
    and cells: "\<And>i. i < length ms \<Longrightarrow>
                  q_queue q ! ((q_head q + i) mod q_cap q) = Some (ms ! i)"
  shows "mq_wf q \<and> mq_list q = ms"
  using assms by (auto simp: mq_wf_def mq_list_nth intro!: nth_equalityI)

lemma mq_repD:
  "mq_wf q \<Longrightarrow> i < skynet_mq_length q \<Longrightarrow>
     q_queue q ! ((q_head q + i) mod q_cap q) = Some (mq_list q ! i)"
  by (simp add: mq_wf_def mq_list_nth)

lemma mod_window_inj_le:
  "i \<le> j \<Longrightarrow> j < c \<Longrightarrow> (h + i) mod c = (h + j) mod c \<Longrightarrow> i = (j :: nat)"
  using mod_eq_dvd_iff_nat[of "h + i" "h + j" c] nat_dvd_not_less[of "j - i" c] by fastforce

lemma mod_window_inj:
  "i < c \<Longrightarrow> j < c \<Longrightarrow> (h + i) mod c = (h + j) mod c \<Longrightarrow> i = (j :: nat)"
  using mod_window_inj_le[of i j c h] mod_window_inj_le[of j i c h] by (cases "i \<le> j") auto

text \<open>Storing a message, before the queue grows: the window is one cell longer.\<close>

lemma mq_store_cells:
  assumes wf: "mq_wf q" and i: "i < Suc (skynet_mq_length q)"
  shows "(q_queue q)[q_tail q := Some m] ! ((q_head q + i) mod q_cap q)
           = Some ((mq_list q @ [m]) ! i)"
proof (cases "i = skynet_mq_length q")
  case True
  with wf show ?thesis
    using mq_tail_mod[OF wf] by (auto simp: mq_wf_def nth_append)
next
  case False
  with i have i': "i < skynet_mq_length q" by simp
  then have "(q_head q + i) mod q_cap q \<noteq> q_tail q"
    using mod_window_inj[of i "q_cap q" "skynet_mq_length q" "q_head q"]
      mq_length_less_cap[OF wf] mq_tail_mod[OF wf] by auto
  with i' show ?thesis using mq_repD[OF wf i'] by (simp add: nth_append)
qed

lemma mq_store_keeps:
  assumes wf: "mq_wf q"
  obtains q' where "mq_store q m = Some q'" "mq_wf q'" "mq_list q' = mq_list q @ [m]"
    "q_handle q' = q_handle q" "q_next q' = q_next q" "q_in_global q' = q_in_global q"
    "q_release q' = q_release q"
proof -
  let ?q1 = "q\<lparr>q_queue := (q_queue q)[q_tail q := Some m], q_tail := Suc (q_tail q) mod q_cap q\<rparr>"
  have b: "0 < q_cap q" "q_head q < q_cap q" "q_tail q < q_cap q"
    "length (q_queue q) = q_cap q" "0 < q_overload_threshold q"
    using wf by (auto simp: mq_wf_def)
  have st: "mq_store q m = Some (if q_head ?q1 = q_tail ?q1 then expand_queue ?q1 else ?q1)"
    using b by (cases "Suc (q_tail q) = q_cap q") (simp_all add: mq_store_def Let_def)
  have full: "q_head ?q1 = q_tail ?q1 \<longleftrightarrow> Suc (skynet_mq_length q) = q_cap q"
    using b by (auto simp: skynet_mq_length_def mod_if)
  show thesis
  proof (cases "q_head ?q1 = q_tail ?q1")
    case False
    have "skynet_mq_length ?q1 = Suc (skynet_mq_length q)"
      using b False by (auto simp: skynet_mq_length_def mod_if split: if_splits)
    then have "mq_wf ?q1 \<and> mq_list ?q1 = mq_list q @ [m]"
      using b mq_store_cells[OF wf, of _ m] by (intro mq_repI) auto
    with st False show thesis by (intro that[of ?q1]) simp_all
  next
    case True
    with full have len: "Suc (skynet_mq_length q) = q_cap q" by simp
    then have "mq_wf (expand_queue ?q1) \<and> mq_list (expand_queue ?q1) = mq_list q @ [m]"
      using b mq_store_cells[OF wf, of _ m]
      by (intro mq_repI) (auto simp: expand_queue_def skynet_mq_length_def nth_append)
    with st True show thesis
      by (intro that[of "expand_queue ?q1"]) (simp_all add: expand_queue_def)
  qed
qed

text \<open>The ring buffer provides the interface of a FIFO queue.\<close>

interpretation mq: fifo_queue mq_store skynet_mq_pop mq_list mq_wf
proof
  fix q m assume "mq_wf q"
  then show "\<exists>q'. mq_store q m = Some q' \<and> mq_wf q' \<and> mq_list q' = mq_list q @ [m]"
    by (metis mq_store_keeps)
next
  fix q assume wf: "mq_wf q"
  show "\<exists>q'. mq_wf q' \<and> (case mq_list q of
      [] \<Rightarrow> skynet_mq_pop q = Some (None, q') \<and> mq_list q' = []
    | m # ms \<Rightarrow> skynet_mq_pop q = Some (Some m, q') \<and> mq_list q' = ms)"
  proof (cases "mq_list q")
    case Nil
    with wf show ?thesis
      by (auto simp: mq_pop_empty MQ_OVERLOAD_def)
  next
    case (Cons m ms)
    with mq_pop_nonempty[OF wf] show ?thesis by fastforce
  qed
qed

section \<open>The global queue is a list of addresses\<close>

text \<open>The addresses met by following \<open>next\<close> from \<open>p\<close>.\<close>

fun gq_chain :: "(nat \<Rightarrow> message_queue option) \<Rightarrow> nat option \<Rightarrow> nat list \<Rightarrow> bool" where
  "gq_chain h p [] = (p = None)"
| "gq_chain h p (x # xs) =
     (p = Some x \<and> (case h x of None \<Rightarrow> False | Some q \<Rightarrow> gq_chain h (q_next q) xs))"

definition gq_rep :: "'z mq_globals_scheme \<Rightarrow> nat list \<Rightarrow> bool" where
  "gq_rep s xs \<longleftrightarrow>
     gq_chain (mq_heap s) (g_head s) xs \<and> distinct xs \<and>
     g_tail s = (if xs = [] then None else Some (last xs)) \<and>
     (\<forall>a q. mq_heap s a = Some q \<longrightarrow> a \<notin> set xs \<longrightarrow> q_next q = None)"

text \<open>Two states that agree but for the links of the global queue.\<close>

definition gq_same :: "'z mq_globals_scheme \<Rightarrow> 'z mq_globals_scheme \<Rightarrow> bool" where
  "gq_same s t \<longleftrightarrow>
     (\<forall>a. map_option (q_next_update (\<lambda>_. None)) (mq_heap t a) =
          map_option (q_next_update (\<lambda>_. None)) (mq_heap s a)) \<and>
     mq_globals.more t = mq_globals.more s"

lemma gq_chain_dom: "gq_chain h p xs \<Longrightarrow> a \<in> set xs \<Longrightarrow> h a \<noteq> None"
  by (induction xs arbitrary: p) (auto split: option.splits)

lemma gq_chain_upd_other:
  "a \<notin> set xs \<Longrightarrow> gq_chain (h(a := v)) p xs = gq_chain h p xs"
  by (induction xs arbitrary: p) (auto split: option.splits)

lemma gq_chain_upd_same_next:
  "h a = Some q \<Longrightarrow> q_next q' = q_next q \<Longrightarrow> gq_chain (h(a \<mapsto> q')) p xs = gq_chain h p xs"
  by (induction xs arbitrary: p) (auto split: option.splits)

lemma gq_chain_snoc:
  "gq_chain h p xs \<Longrightarrow> xs \<noteq> [] \<Longrightarrow> distinct xs \<Longrightarrow> a \<notin> set xs \<Longrightarrow>
   h (last xs) = Some tq \<Longrightarrow> h a = Some q \<Longrightarrow> q_next q = None \<Longrightarrow>
     gq_chain (h(last xs \<mapsto> tq\<lparr>q_next := Some a\<rparr>)) p (xs @ [a])"
proof (induction xs arbitrary: p)
  case Nil
  then show ?case by simp
next
  case (Cons x xs)
  show ?case
  proof (cases "xs = []")
    case True
    with Cons.prems show ?thesis by auto
  next
    case False
    with Cons show ?thesis by (auto split: option.splits)
  qed
qed

lemma gq_rep_dom: "gq_rep s xs \<Longrightarrow> a \<in> set xs \<Longrightarrow> \<exists>q. mq_heap s a = Some q"
  using gq_chain_dom by (fastforce simp: gq_rep_def)

lemma gq_same_refl [simp]: "gq_same s s"
  by (simp add: gq_same_def)

lemma globalmq_push_ok:
  assumes rep: "gq_rep s xs" and q: "mq_heap s a = Some q" and a: "a \<notin> set xs"
  obtains s' where "skynet_globalmq_push a s = Some s'" "gq_rep s' (xs @ [a])" "gq_same s s'"
proof (cases "xs = []")
  case True
  with assms show thesis
    by (intro that[of "s\<lparr>g_head := Some a, g_tail := Some a\<rparr>"])
       (auto simp: skynet_globalmq_push_def gq_rep_def gq_same_def)
next
  case False
  from rep a q have nq: "q_next q = None" by (auto simp: gq_rep_def)
  obtain tq where tq: "mq_heap s (last xs) = Some tq"
    using gq_rep_dom[OF rep] False by fastforce
  let ?s = "(mq_set (last xs) (tq\<lparr>q_next := Some a\<rparr>) s)\<lparr>g_tail := Some a\<rparr>"
  have "skynet_globalmq_push a s = Some ?s"
    using rep q nq tq False by (simp add: skynet_globalmq_push_def gq_rep_def)
  moreover have "gq_rep ?s (xs @ [a])"
    using rep a q nq tq False gq_chain_snoc[of "mq_heap s" "g_head s" xs a tq q]
    by (auto simp: gq_rep_def mq_set_def split: if_splits)
  moreover have "gq_same s ?s"
    using tq by (auto simp: gq_same_def mq_set_def)
  ultimately show thesis by (rule that)
qed

lemma globalmq_pop_Nil: "gq_rep s [] \<Longrightarrow> skynet_globalmq_pop s = Some (None, s)"
  by (simp add: gq_rep_def skynet_globalmq_pop_def)

lemma globalmq_pop_Cons:
  assumes rep: "gq_rep s (a # xs)"
  obtains s' where "skynet_globalmq_pop s = Some (Some a, s')" "gq_rep s' xs" "gq_same s s'"
proof -
  from rep obtain q where q: "mq_heap s a = Some q" and h: "g_head s = Some a"
    and ch: "gq_chain (mq_heap s) (q_next q) xs"
    by (auto simp: gq_rep_def split: option.splits)
  let ?s = "mq_set a (q\<lparr>q_next := None\<rparr>)
              (if xs = [] then s\<lparr>g_head := None, g_tail := None\<rparr> else s\<lparr>g_head := q_next q\<rparr>)"
  have nx: "q_next q = None \<longleftrightarrow> xs = []" using ch by (cases xs) auto
  have "skynet_globalmq_pop s = Some (Some a, ?s)"
    using rep q h nx by (auto simp: skynet_globalmq_pop_def gq_rep_def)
  moreover have "gq_rep ?s xs"
    using rep ch by (auto simp: gq_rep_def mq_set_def gq_chain_upd_other)
  moreover have "gq_same s ?s"
    using q by (auto simp: gq_same_def mq_set_def)
  ultimately show thesis by (rule that)
qed

section \<open>What each operation does to the contents and flags of the queues\<close>

text \<open>
  The view of a state: per queue its contents, \<open>in_global\<close> and \<open>release\<close>. The links of
  the global queue are not part of it.
\<close>

definition mq_view :: "'z mq_globals_scheme \<Rightarrow> nat \<Rightarrow> (skynet_message list \<times> bool \<times> bool) option" where
  "mq_view s a = map_option (\<lambda>q. (mq_list q, q_in_global q, q_release q)) (mq_heap s a)"

definition mq_ok :: "'z mq_globals_scheme \<Rightarrow> bool" where
  "mq_ok s \<longleftrightarrow> (\<forall>a q. mq_heap s a = Some q \<longrightarrow> mq_wf q)"

lemma mq_viewE:
  assumes "mq_view s a = Some (ms, g, r)"
  obtains q where "mq_heap s a = Some q" "mq_list q = ms" "q_in_global q = g" "q_release q = r"
  using assms by (auto simp: mq_view_def)

lemma mq_view_Some [simp]:
  "mq_heap s a = Some q \<Longrightarrow> mq_view s a = Some (mq_list q, q_in_global q, q_release q)"
  by (simp add: mq_view_def)

lemma gq_same_cases:
  assumes "gq_same s t"
  obtains "mq_heap s a = None" "mq_heap t a = None"
  | q q' where "mq_heap s a = Some q" "mq_heap t a = Some q'"
      "q\<lparr>q_next := None\<rparr> = q'\<lparr>q_next := None\<rparr>"
  using assms unfolding gq_same_def by (cases "mq_heap s a"; cases "mq_heap t a") (metis option.map option.distinct(1) option.inject)+

lemma next_erased_eq:
  assumes "q\<lparr>q_next := None\<rparr> = q'\<lparr>q_next := None\<rparr>"
  shows "mq_list q = mq_list q'" "mq_wf q = mq_wf q'" "q_in_global q = q_in_global q'"
    "q_release q = q_release q'" "q_handle q = q_handle q'"
  using arg_cong[OF assms, of mq_list] arg_cong[OF assms, of mq_wf]
    arg_cong[OF assms, of q_in_global] arg_cong[OF assms, of q_release]
    arg_cong[OF assms, of q_handle]
  by simp_all

lemma gq_same_view: "gq_same s t \<Longrightarrow> mq_view t = mq_view s"
proof
  fix a assume "gq_same s t"
  then show "mq_view t a = mq_view s a"
    by (rule gq_same_cases[where a = a]) (auto simp: mq_view_def dest: next_erased_eq)
qed

lemma gq_same_ok: "gq_same s t \<Longrightarrow> mq_ok s \<Longrightarrow> mq_ok t"
  unfolding mq_ok_def by (metis gq_same_cases next_erased_eq(2) option.distinct(1) option.inject)

lemma gq_rep_set:
  assumes "gq_rep s xs" "mq_heap s a = Some q" "q_next q' = q_next q"
  shows "gq_rep (mq_set a q' s) xs"
  using assms by (auto simp: gq_rep_def mq_set_def gq_chain_upd_same_next)

lemma mq_view_set [simp]:
  "mq_view (mq_set a q s) = (mq_view s)(a \<mapsto> (mq_list q, q_in_global q, q_release q))"
  by (auto simp: mq_view_def mq_set_def)

lemma mq_ok_set: "mq_ok s \<Longrightarrow> mq_wf q \<Longrightarrow> mq_ok (mq_set a q s)"
  by (simp add: mq_ok_def mq_set_def)

lemma mq_heap_set [simp]: "mq_heap (mq_set a q s) b = (if b = a then Some q else mq_heap s b)"
  by (simp add: mq_set_def)

lemma globalmq_push_view:
  assumes "gq_rep s xs" "mq_ok s" "mq_view s a = Some v" "a \<notin> set xs"
  obtains s' where "skynet_globalmq_push a s = Some s'" "gq_rep s' (xs @ [a])" "mq_ok s'"
    "mq_view s' = mq_view s"
proof -
  obtain q where "mq_heap s a = Some q" using assms(3) by (cases v) (auto elim: mq_viewE)
  with globalmq_push_ok[OF assms(1) _ assms(4)] obtain s' where
    "skynet_globalmq_push a s = Some s'" "gq_rep s' (xs @ [a])" "gq_same s s'" by metis
  with assms(2) show thesis by (intro that[of s']) (auto intro: gq_same_ok gq_same_view)
qed

lemma mq_push_view:
  assumes rep: "gq_rep s xs" and ok: "mq_ok s" and v: "mq_view s a = Some (ms, g, r)"
    and ng: "\<not> g \<Longrightarrow> a \<notin> set xs"
  obtains s' where "skynet_mq_push a m s = Some s'" "mq_ok s'"
    "gq_rep s' (if g then xs else xs @ [a])"
    "mq_view s' = (mq_view s)(a \<mapsto> (ms @ [m], True, r))"
proof -
  obtain q where q: "mq_heap s a = Some q" "mq_list q = ms" "q_in_global q = g" "q_release q = r"
    using v by (rule mq_viewE)
  from ok q(1) have "mq_wf q" by (simp add: mq_ok_def)
  then obtain q1 where q1: "mq_store q m = Some q1" "mq_wf q1" "mq_list q1 = mq_list q @ [m]"
    "q_next q1 = q_next q" "q_in_global q1 = q_in_global q" "q_release q1 = q_release q"
    by (metis mq_store_keeps)
  show thesis
  proof (cases g)
    case True
    with q q1 rep ok show thesis
      by (intro that[of "mq_set a q1 s"])
         (auto simp: skynet_mq_push_def intro: gq_rep_set mq_ok_set)
  next
    case False
    let ?s = "mq_set a (q1\<lparr>q_in_global := True\<rparr>) s"
    have "gq_rep ?s xs" "mq_ok ?s"
      using rep ok q q1 by (auto intro: gq_rep_set mq_ok_set)
    then obtain s' where "skynet_globalmq_push a ?s = Some s'" "gq_rep s' (xs @ [a])" "mq_ok s'"
      "mq_view s' = mq_view ?s"
      by (metis globalmq_push_view ng[OF False] mq_view_set fun_upd_same)
    with False q q1 show thesis
      by (intro that[of s']) (simp_all add: skynet_mq_push_def)
  qed
qed

lemma mq_mark_release_view:
  assumes rep: "gq_rep s xs" and ok: "mq_ok s" and v: "mq_view s a = Some (ms, g, False)"
    and ng: "\<not> g \<Longrightarrow> a \<notin> set xs"
  obtains s' where "skynet_mq_mark_release a s = Some s'" "mq_ok s'"
    "gq_rep s' (if g then xs else xs @ [a])"
    "mq_view s' = (mq_view s)(a \<mapsto> (ms, g, True))"
proof -
  obtain q where q: "mq_heap s a = Some q" "mq_list q = ms" "q_in_global q = g" "\<not> q_release q"
    using v by (auto elim: mq_viewE)
  let ?s = "mq_set a (q\<lparr>q_release := True\<rparr>) s"
  have s: "gq_rep ?s xs" "mq_ok ?s" "mq_view ?s = (mq_view s)(a \<mapsto> (ms, g, True))"
    using rep ok q by (auto simp: mq_ok_def intro: gq_rep_set)
  show thesis
  proof (cases g)
    case True
    with q s show thesis by (intro that[of ?s]) (auto simp: skynet_mq_mark_release_def)
  next
    case False
    then obtain s' where "skynet_globalmq_push a ?s = Some s'" "gq_rep s' (xs @ [a])" "mq_ok s'"
      "mq_view s' = mq_view ?s"
      by (metis globalmq_push_view[OF s(1,2)] ng s(3) fun_upd_same)
    with False q s show thesis by (intro that[of s']) (simp_all add: skynet_mq_mark_release_def)
  qed
qed

lemma mq_pop_view:
  assumes rep: "gq_rep s xs" and ok: "mq_ok s" and q: "mq_heap s a = Some q"
    and pop: "skynet_mq_pop q = Some (r, q')"
  shows "gq_rep (mq_set a q' s) xs" "mq_ok (mq_set a q' s)"
    "mq_view (mq_set a q' s) = (mq_view s)(a \<mapsto>
       (case mq_list q of [] \<Rightarrow> ([], False, q_release q)
                        | m # ms \<Rightarrow> (ms, q_in_global q, q_release q)))"
    "r = (case mq_list q of [] \<Rightarrow> None | m # ms \<Rightarrow> Some m)"
proof -
  from ok q have wf: "mq_wf q" by (simp add: mq_ok_def)
  have *: "mq_wf q' \<and> q_next q' = q_next q \<and> q_release q' = q_release q \<and>
      mq_list q' = tl (mq_list q) \<and> q_in_global q' = (mq_list q \<noteq> [] \<and> q_in_global q) \<and>
      r = (case mq_list q of [] \<Rightarrow> None | m # ms \<Rightarrow> Some m)"
  proof (cases "mq_list q")
    case Nil
    with pop wf show ?thesis by (auto simp: mq_pop_empty MQ_OVERLOAD_def)
  next
    case (Cons m ms)
    obtain q1 where "skynet_mq_pop q = Some (Some (hd (mq_list q)), q1)" "mq_wf q1"
      "mq_list q1 = tl (mq_list q)" "q_next q1 = q_next q"
      "q_in_global q1 = q_in_global q" "q_release q1 = q_release q"
      using Cons by (metis mq_pop_nonempty[OF wf] list.distinct(1))
    with pop Cons show ?thesis by auto
  qed
  then show "gq_rep (mq_set a q' s) xs" "mq_ok (mq_set a q' s)"
    using rep ok q by (auto intro: gq_rep_set mq_ok_set)
  from * show "r = (case mq_list q of [] \<Rightarrow> None | m # ms \<Rightarrow> Some m)" by simp
  from * show "mq_view (mq_set a q' s) = (mq_view s)(a \<mapsto>
       (case mq_list q of [] \<Rightarrow> ([], False, q_release q)
                        | m # ms \<Rightarrow> (ms, q_in_global q, q_release q)))"
    by (cases "mq_list q") simp_all
qed

section \<open>Releasing a queue\<close>

text \<open>
  \<open>_drop_queue\<close> ends: the callback sees every remaining message once, oldest first, and
  then the queue is freed. Stated for callbacks that change the rest of the state only.
\<close>

lemma drop_queue_all:
  assumes "mq_wf q" and "mq_heap s a = Some q" and "q_next q = None"
  shows "drop_queue (\<lambda>m s. Some (mq_globals.more_update (f m) s)) a s =
           Some ((mq_globals.more_update (fold f (mq_list q)) s)\<lparr>mq_heap := (mq_heap s)(a := None)\<rparr>)"
  using assms
proof (induction "mq_list q" arbitrary: q s)
  case Nil
  then have "drop_queue (\<lambda>m s. Some (mq_globals.more_update (f m) s)) a s =
      mq_release_node a (mq_set a (q\<lparr>q_overload_threshold := MQ_OVERLOAD, q_in_global := False\<rparr>) s)"
    by (simp add: drop_queue.simps mq_pop_empty)
  also have "\<dots> = Some (s\<lparr>mq_heap := (mq_heap s)(a := None)\<rparr>)"
    using Nil by (simp add: mq_release_node_def mq_set_def)
  finally show ?case using Nil(1)[symmetric] by (cases s) (simp add: fun_upd_def)
next
  case (Cons m ms)
  obtain q' where q': "skynet_mq_pop q = Some (Some m, q')" "mq_wf q'" "mq_list q' = ms"
    "q_next q' = q_next q"
    using mq_pop_nonempty[OF Cons.prems(1)] Cons.hyps(2)[symmetric]
    by (metis list.distinct(1) list.sel(1,3))
  let ?s = "mq_globals.more_update (f m) (mq_set a q' s)"
  have "drop_queue (\<lambda>m s. Some (mq_globals.more_update (f m) s)) a s =
      drop_queue (\<lambda>m s. Some (mq_globals.more_update (f m) s)) a ?s"
    using q' Cons.prems by (subst drop_queue.simps) simp
  also have "\<dots> = Some ((mq_globals.more_update (fold f ms) ?s)\<lparr>mq_heap := (mq_heap ?s)(a := None)\<rparr>)"
    using Cons.hyps(1)[of q' ?s] q' Cons.prems by (simp add: mq_set_def)
  finally show ?case using Cons.hyps(2)[symmetric] by (simp add: mq_set_def comp_def)
qed

section \<open>Properties\<close>



text \<open>Witness: two fresh queues, the first on the global queue, the second pushed.\<close>

definition two_queues :: mq_globals where
  "two_queues = \<lparr>mq_heap = [1 \<mapsto> skynet_mq_create 7, 2 \<mapsto> skynet_mq_create 8],
                 g_head = Some 1, g_tail = Some 1\<rparr>"




text \<open>
  The overload warning: a pop of a non-empty queue leaves a threshold that covers
  the remaining length, reached from the old one by doubling, and \<open>overload\<close> is set to the
  remaining length exactly when the old threshold did not cover it.
\<close>

lemma mq_pop_overload:
  assumes wf: "mq_wf q" and ne: "mq_list q \<noteq> []"
  shows "\<exists>q' k. skynet_mq_pop q = Some (Some (hd (mq_list q)), q') \<and>
           skynet_mq_length q' = skynet_mq_length q - 1 \<and>
           q_overload_threshold q' = q_overload_threshold q * 2 ^ k \<and>
           skynet_mq_length q' \<le> q_overload_threshold q' \<and>
           (k = 0 \<longleftrightarrow> skynet_mq_length q' \<le> q_overload_threshold q) \<and>
           q_overload q' = (if k = 0 then q_overload q else skynet_mq_length q')"
proof -
  define q1 where "q1 = q\<lparr>q_head := Suc (q_head q) mod q_cap q\<rparr>"
  define len where "len = skynet_mq_length q1"
  note adv = mq_advance[OF wf ne, folded q1_def]
  from wf have b: "q_head q < q_cap q" "length (q_queue q) = q_cap q" "0 < q_overload_threshold q"
    by (auto simp: mq_wf_def)
  have f: "q_overload_threshold q1 = q_overload_threshold q" "q_overload q1 = q_overload q"
    by (simp_all add: q1_def)
  have "q_head q \<noteq> q_tail q" using ne mq_list_Nil_iff[OF wf] by simp
  with b adv(3) have pop: "skynet_mq_pop q = do {
      q' \<leftarrow> overload_loop len q1; Some (Some (hd (mq_list q)), q')}"
    by (simp add: skynet_mq_pop_def skynet_mq_length_def Let_def pop_head_mod not_le q1_def len_def)
  from overload_loop_ends[of q1 len, unfolded f, OF b(3)] obtain k where k:
    "overload_loop len q1 = Some (q1\<lparr>q_overload := (if k = 0 then q_overload q else len),
                                    q_overload_threshold := q_overload_threshold q * 2 ^ k\<rparr>)"
    "len \<le> q_overload_threshold q * 2 ^ k"
    "k > 0 \<longrightarrow> q_overload_threshold q * 2 ^ (k - 1) < len" by blast
  have "q_overload_threshold q \<le> q_overload_threshold q * 2 ^ (k - 1)" by simp
  with k(3) have "k > 0 \<longrightarrow> q_overload_threshold q < len" by linarith
  with k(2) have k0: "k = 0 \<longleftrightarrow> len \<le> q_overload_threshold q" by (cases "k = 0") auto
  define q2 where "q2 = q1\<lparr>q_overload := (if k = 0 then q_overload q else len),
                           q_overload_threshold := q_overload_threshold q * 2 ^ k\<rparr>"
  have q2: "skynet_mq_length q2 = len" "q_overload_threshold q2 = q_overload_threshold q * 2 ^ k"
    "q_overload q2 = (if k = 0 then q_overload q else len)"
    by (simp_all add: q2_def len_def skynet_mq_length_def)
  have "skynet_mq_pop q = Some (Some (hd (mq_list q)), q2)"
    using pop k(1) by (simp add: q2_def)
  moreover have "len = skynet_mq_length q - 1" using adv(4) by (simp add: len_def)
  ultimately show ?thesis
    using k(2) k0 q2 by (intro exI[of _ q2] exI[of _ k]) (simp add: q2)
qed

lemma mq_pop_overload_witness:
  "\<exists>q m q' k. mq_wf q \<and> mq_list q = [m] \<and> skynet_mq_pop q = Some (Some m, q') \<and>
     skynet_mq_length q' = 0 \<and> q_overload_threshold q' = 1024 * 2 ^ k"
proof -
  define m where "m = \<lparr>m_source = 0, m_session = 0, m_data = None, m_sz = 0\<rparr>"
  obtain q where q: "mq_store (skynet_mq_create 1) m = Some q" "mq_wf q"
      "mq_list q = mq_list (skynet_mq_create 1) @ [m]"
    by (rule mq_store_keeps[OF mq_wf_create[of 1], of m]) blast
  then have l: "mq_list q = [m]" "skynet_mq_length q = 1" using length_mq_list[of q] by auto
  have "q_overload_threshold q = 1024"
    using q(1) by (auto simp: mq_store_def skynet_mq_create_def DEFAULT_QUEUE_SIZE_def
        MQ_OVERLOAD_def expand_queue_def split: if_splits)
  with l mq_pop_overload[OF q(2)] obtain q' k where
    "skynet_mq_pop q = Some (Some m, q')" "skynet_mq_length q' = 0"
    "q_overload_threshold q' = 1024 * 2 ^ k" by auto
  with q l show ?thesis by blast
qed

end
