(* ===== verification/Scheduler.thy ===== *)
theory Scheduler
  imports Message_Queue
begin

text \<open>
  How the worker threads share the message queues: the calls that
  \<open>skynet_context_new\<close>, \<open>skynet_context_push\<close>, \<open>skynet_context_message_dispatch\<close> and
  \<open>delete_context\<close> (\<open>skynet-src/skynet_server.c\<close>) make on \<open>skynet_mq.c\<close>, in any
  interleaving. A thread holds a queue from the moment it creates it or takes it off the
  global queue until it puts it back, parks it (found it empty) or drops it.
\<close>

record 'z sched =
  sc_mq :: "'z mq_globals_scheme"
  sc_hold :: "nat \<Rightarrow> nat option"

definition sched_init :: "unit sched" where
  "sched_init = \<lparr>sc_mq = \<lparr>mq_heap = (\<lambda>_. None), g_head = None, g_tail = None\<rparr>,
                 sc_hold = (\<lambda>_. None)\<rparr>"

inductive sched_step :: "'z sched \<Rightarrow> 'z sched \<Rightarrow> bool" where
  launch: "sc_hold s t = None \<Longrightarrow> mq_heap (sc_mq s) a = None \<Longrightarrow>
     sched_step s (s\<lparr>sc_mq := mq_set a (skynet_mq_create h) (sc_mq s),
                     sc_hold := (sc_hold s)(t \<mapsto> a)\<rparr>)"
| publish: "sc_hold s t = Some a \<Longrightarrow> skynet_globalmq_push a (sc_mq s) = Some m' \<Longrightarrow>
     sched_step s (s\<lparr>sc_mq := m', sc_hold := (sc_hold s)(t := None)\<rparr>)"
| send: "mq_heap (sc_mq s) a = Some q \<Longrightarrow> \<not> q_release q \<Longrightarrow>
     skynet_mq_push a msg (sc_mq s) = Some m' \<Longrightarrow>
     sched_step s (s\<lparr>sc_mq := m'\<rparr>)"
| fetch: "sc_hold s t = None \<Longrightarrow> skynet_globalmq_pop (sc_mq s) = Some (Some a, m') \<Longrightarrow>
     sched_step s (s\<lparr>sc_mq := m', sc_hold := (sc_hold s)(t \<mapsto> a)\<rparr>)"
| serve: "sc_hold s t = Some a \<Longrightarrow> mq_heap (sc_mq s) a = Some q \<Longrightarrow>
     skynet_mq_pop q = Some (Some msg, q') \<Longrightarrow>
     sched_step s (s\<lparr>sc_mq := mq_set a q' (sc_mq s)\<rparr>)"
| park: "sc_hold s t = Some a \<Longrightarrow> mq_heap (sc_mq s) a = Some q \<Longrightarrow> \<not> q_release q \<Longrightarrow>
     skynet_mq_pop q = Some (None, q') \<Longrightarrow>
     sched_step s (s\<lparr>sc_mq := mq_set a q' (sc_mq s), sc_hold := (sc_hold s)(t := None)\<rparr>)"
| mark: "skynet_mq_mark_release a (sc_mq s) = Some m' \<Longrightarrow>
     sched_step s (s\<lparr>sc_mq := m'\<rparr>)"
| drop: "sc_hold s t = Some a \<Longrightarrow> mq_heap (sc_mq s) a = Some q \<Longrightarrow> q_release q \<Longrightarrow>
     drop_queue (\<lambda>_. Some) a (sc_mq s) = Some m' \<Longrightarrow>
     sched_step s (s\<lparr>sc_mq := m', sc_hold := (sc_hold s)(t := None)\<rparr>)"

inductive sched_reachable :: "unit sched \<Rightarrow> bool" where
  start: "sched_reachable sched_init"
| step: "sched_reachable s \<Longrightarrow> sched_step s s' \<Longrightarrow> sched_reachable s'"

declare sched_step.intros [step_intros] sched_reachable.intros [step_intros]

section \<open>The invariant\<close>

text \<open>
  \<open>xs\<close> is the global queue. A queue is on it or held, and not both, exactly when its
  \<open>in_global\<close> or its \<open>release\<close> flag is set; a queue that is neither is empty; no queue is
  held twice.
\<close>

definition held_once :: "(nat \<Rightarrow> nat option) \<Rightarrow> bool" where
  "held_once hold \<longleftrightarrow> (\<forall>t u a. hold t = Some a \<longrightarrow> hold u = Some a \<longrightarrow> t = u)"

definition flags_ok ::
    "(nat \<Rightarrow> (skynet_message list \<times> bool \<times> bool) option) \<Rightarrow> nat set \<Rightarrow> bool" where
  "flags_ok v owned \<longleftrightarrow>
     (\<forall>a ms g r. v a = Some (ms, g, r) \<longrightarrow>
        (g \<or> r \<longleftrightarrow> a \<in> owned) \<and> (\<not> g \<and> \<not> r \<longrightarrow> ms = []))"

definition sched_view_inv ::
    "(nat \<Rightarrow> (skynet_message list \<times> bool \<times> bool) option) \<Rightarrow> (nat \<Rightarrow> nat option) \<Rightarrow> nat list \<Rightarrow> bool" where
  "sched_view_inv v hold xs \<longleftrightarrow>
     ran hold \<subseteq> dom v \<and> ran hold \<inter> set xs = {} \<and> held_once hold \<and>
     flags_ok v (set xs \<union> ran hold)"

definition sched_inv :: "'z sched \<Rightarrow> nat list \<Rightarrow> bool" where
  "sched_inv s xs \<longleftrightarrow>
     gq_rep (sc_mq s) xs \<and> mq_ok (sc_mq s) \<and>
     sched_view_inv (mq_view (sc_mq s)) (sc_hold s) xs"

lemma sched_inv_init: "sched_inv sched_init []"
  by (simp add: sched_inv_def sched_init_def gq_rep_def mq_ok_def sched_view_inv_def mq_view_def
      held_once_def flags_ok_def)

subsection \<open>Owners and flags\<close>

lemma held_once_upd:
  "held_once hold \<Longrightarrow> a \<notin> ran hold \<Longrightarrow> held_once (hold(t \<mapsto> a))"
  by (auto simp: held_once_def ran_def)

lemma held_once_del: "held_once hold \<Longrightarrow> held_once (hold(t := None))"
  by (simp add: held_once_def)

lemma ran_del: "held_once hold \<Longrightarrow> hold t = Some a \<Longrightarrow> ran (hold(t := None)) = ran hold - {a}"
  unfolding held_once_def ran_def by (auto split: if_splits) (metis option.inject)

lemma flags_ok_upd:
  assumes "flags_ok v owned" and "g \<or> r \<longleftrightarrow> a \<in> owned'" and "\<not> g \<and> \<not> r \<longrightarrow> ms = []"
    and "owned' - {a} = owned - {a}"
  shows "flags_ok (v(a \<mapsto> (ms, g, r))) owned'"
  using assms unfolding flags_ok_def by (auto 4 3)

subsection \<open>Each step keeps the invariant\<close>

lemmas sched_defs = sched_inv_def sched_view_inv_def

lemma gq_rep_fresh: "gq_rep s xs \<Longrightarrow> mq_heap s a = None \<Longrightarrow> a \<notin> set xs"
  using gq_rep_dom by fastforce

lemma sched_flags:
  assumes "sched_inv s xs" "mq_heap (sc_mq s) a = Some q"
  shows "q_in_global q \<or> q_release q \<longleftrightarrow> a \<in> set xs \<union> ran (sc_hold s)"
    "\<not> q_in_global q \<Longrightarrow> \<not> q_release q \<Longrightarrow> mq_list q = []"
  using assms unfolding sched_defs flags_ok_def by (auto dest!: mq_view_Some)

lemma sched_heldE:
  assumes "sched_inv s xs" "sc_hold s t = Some a"
  obtains q where "mq_heap (sc_mq s) a = Some q" "mq_wf q" "a \<notin> set xs"
    "a \<in> ran (sc_hold s)" "q_in_global q \<or> q_release q"
proof -
  have ar: "a \<in> ran (sc_hold s)" using assms(2) by (auto simp: ran_def)
  with assms(1) obtain v where "mq_view (sc_mq s) a = Some v" "a \<notin> set xs"
    unfolding sched_defs by blast
  then obtain q where q: "mq_heap (sc_mq s) a = Some q" "a \<notin> set xs"
    by (auto simp: mq_view_def)
  with assms(1) have "mq_wf q" by (simp add: sched_defs mq_ok_def)
  moreover have "q_in_global q \<or> q_release q"
    using sched_flags(1)[OF assms(1) q(1)] ar by simp
  ultimately show thesis using q ar that by blast
qed

lemma sched_parked:
  assumes "sched_inv s xs" "mq_heap (sc_mq s) a = Some q" "\<not> q_in_global q" "\<not> q_release q"
  shows "a \<notin> set xs" "a \<notin> ran (sc_hold s)" "mq_list q = []"
  using sched_flags[OF assms(1,2)] assms(3,4) by auto

lemma inv_launch:
  assumes inv: "sched_inv s xs" and t: "sc_hold s t = None" and a: "mq_heap (sc_mq s) a = None"
  shows "sched_inv (s\<lparr>sc_mq := mq_set a (skynet_mq_create h) (sc_mq s),
                      sc_hold := (sc_hold s)(t \<mapsto> a)\<rparr>) xs"
proof -
  from inv have rep: "gq_rep (sc_mq s) xs" by (simp add: sched_inv_def)
  from gq_rep_fresh[OF rep a] have nin: "a \<notin> set xs" .
  from inv a have nran: "a \<notin> ran (sc_hold s)"
    by (auto simp: sched_defs mq_view_def dom_def)
  have "gq_rep (mq_set a (skynet_mq_create h) (sc_mq s)) xs"
    using rep nin by (auto simp: gq_rep_def mq_set_def gq_chain_upd_other)
  moreover have "mq_ok (mq_set a (skynet_mq_create h) (sc_mq s))"
    using inv by (simp add: sched_inv_def mq_ok_set)
  moreover have "flags_ok ((mq_view (sc_mq s))(a \<mapsto> ([], True, False)))
      (set xs \<union> insert a (ran (sc_hold s)))"
    using inv by (intro flags_ok_upd[of _ "set xs \<union> ran (sc_hold s)"]) (auto simp: sched_defs)
  ultimately show ?thesis
    using inv t nin nran by (auto simp: sched_defs held_once_upd)
qed

lemma inv_publish:
  assumes inv: "sched_inv s xs" and t: "sc_hold s t = Some a"
    and p: "skynet_globalmq_push a (sc_mq s) = Some m'"
  shows "sched_inv (s\<lparr>sc_mq := m', sc_hold := (sc_hold s)(t := None)\<rparr>) (xs @ [a])"
proof -
  obtain q where q: "mq_heap (sc_mq s) a = Some q" "a \<notin> set xs" "a \<in> ran (sc_hold s)"
    using inv t by (rule sched_heldE)
  from inv have rep: "gq_rep (sc_mq s) xs" "mq_ok (sc_mq s)" by (simp_all add: sched_inv_def)
  have "\<exists>s1. skynet_globalmq_push a (sc_mq s) = Some s1 \<and> gq_rep s1 (xs @ [a]) \<and> mq_ok s1 \<and>
      mq_view s1 = mq_view (sc_mq s)"
    by (rule globalmq_push_view[OF rep mq_view_Some[OF q(1)] q(2)]) blast
  with p have "gq_rep m' (xs @ [a]) \<and> mq_ok m' \<and> mq_view m' = mq_view (sc_mq s)"
    by simp
  moreover have "set (xs @ [a]) \<union> (ran (sc_hold s) - {a}) = set xs \<union> ran (sc_hold s)"
    using q by auto
  ultimately show ?thesis
    using inv t by (auto simp: sched_defs ran_del held_once_del)
qed

lemma inv_send:
  assumes inv: "sched_inv s xs" and q: "mq_heap (sc_mq s) a = Some q" "\<not> q_release q"
    and p: "skynet_mq_push a msg (sc_mq s) = Some m'"
  shows "sched_inv (s\<lparr>sc_mq := m'\<rparr>) (if q_in_global q then xs else xs @ [a])"
proof -
  have ng: "\<not> q_in_global q \<Longrightarrow> a \<notin> set xs \<and> a \<notin> ran (sc_hold s)"
    using sched_parked[OF inv q(1)] q(2) by blast
  from inv have rep: "gq_rep (sc_mq s) xs" "mq_ok (sc_mq s)" by (simp_all add: sched_inv_def)
  have "\<exists>s1. skynet_mq_push a msg (sc_mq s) = Some s1 \<and> mq_ok s1 \<and>
      gq_rep s1 (if q_in_global q then xs else xs @ [a]) \<and>
      mq_view s1 = (mq_view (sc_mq s))(a \<mapsto> (mq_list q @ [msg], True, q_release q))"
    by (rule mq_push_view[OF rep mq_view_Some[OF q(1)]]) (use ng in blast)+
  with p have m': "mq_ok m'" "gq_rep m' (if q_in_global q then xs else xs @ [a])"
    "mq_view m' = (mq_view (sc_mq s))(a \<mapsto> (mq_list q @ [msg], True, q_release q))"
    by auto
  have own: "a \<in> set (if q_in_global q then xs else xs @ [a]) \<union> ran (sc_hold s)"
    using sched_flags(1)[OF inv q(1)] by auto
  have "flags_ok (mq_view m') (set (if q_in_global q then xs else xs @ [a]) \<union> ran (sc_hold s))"
    unfolding m'(3) using inv own
    by (intro flags_ok_upd[of _ "set xs \<union> ran (sc_hold s)"]) (auto simp: sched_defs)
  with inv m' ng show ?thesis by (auto simp: sched_defs)
qed

lemma inv_fetch:
  assumes inv: "sched_inv s xs" and t: "sc_hold s t = None"
    and p: "skynet_globalmq_pop (sc_mq s) = Some (Some a, m')"
  shows "sched_inv (s\<lparr>sc_mq := m', sc_hold := (sc_hold s)(t \<mapsto> a)\<rparr>) (tl xs)"
proof -
  from inv have rep: "gq_rep (sc_mq s) xs" by (simp add: sched_inv_def)
  obtain ys where xs: "xs = a # ys" and m': "gq_rep m' ys" "gq_same (sc_mq s) m'"
  proof (cases xs)
    case Nil
    with rep p globalmq_pop_Nil[of "sc_mq s"] show ?thesis by simp
  next
    case (Cons b ys)
    with rep p globalmq_pop_Cons[of "sc_mq s" b ys] that show ?thesis by force
  qed
  have a: "a \<notin> ran (sc_hold s)" "a \<in> dom (mq_view (sc_mq s))" "a \<notin> set ys"
    using inv xs gq_rep_dom[OF rep, of a] by (auto simp: sched_defs gq_rep_def)
  have "set xs \<union> ran (sc_hold s) = set ys \<union> insert a (ran (sc_hold s))" using xs by auto
  then show ?thesis
    using inv t xs m' a gq_same_view[OF m'(2)] gq_same_ok[OF m'(2)]
    by (auto simp: sched_defs held_once_upd)
qed

lemma inv_pop:
  assumes inv: "sched_inv s xs" and t: "sc_hold s t = Some a"
    and q: "mq_heap (sc_mq s) a = Some q" and p: "skynet_mq_pop q = Some (Some msg, q')"
  shows "sched_inv (s\<lparr>sc_mq := mq_set a q' (sc_mq s)\<rparr>) xs"
proof -
  from inv have "gq_rep (sc_mq s) xs" "mq_ok (sc_mq s)" by (simp_all add: sched_inv_def)
  note v = mq_pop_view[OF this q p]
  have held: "a \<in> ran (sc_hold s)" "a \<notin> set xs" "q_in_global q \<or> q_release q"
    by (rule sched_heldE[OF inv t], use q in simp)+
  from v(4) obtain ms where ms: "mq_list q = msg # ms" by (cases "mq_list q") auto
  have view: "mq_view (mq_set a q' (sc_mq s)) =
      (mq_view (sc_mq s))(a \<mapsto> (ms, q_in_global q, q_release q))"
    using v(3) ms by simp
  have "flags_ok (mq_view (mq_set a q' (sc_mq s))) (set xs \<union> ran (sc_hold s))"
    unfolding view using inv held q
    by (intro flags_ok_upd[of _ "set xs \<union> ran (sc_hold s)"]) (auto simp: sched_defs)
  with inv v(1,2) view show ?thesis by (auto simp: sched_defs)
qed

lemma inv_park:
  assumes inv: "sched_inv s xs" and t: "sc_hold s t = Some a"
    and q: "mq_heap (sc_mq s) a = Some q" "\<not> q_release q"
    and p: "skynet_mq_pop q = Some (None, q')"
  shows "sched_inv (s\<lparr>sc_mq := mq_set a q' (sc_mq s), sc_hold := (sc_hold s)(t := None)\<rparr>) xs"
proof -
  from inv have "gq_rep (sc_mq s) xs" "mq_ok (sc_mq s)" by (simp_all add: sched_inv_def)
  note v = mq_pop_view[OF this q(1) p]
  have held: "a \<in> ran (sc_hold s)" "a \<notin> set xs"
    by (rule sched_heldE[OF inv t], simp)+
  have "mq_list q = []" using v(4) by (cases "mq_list q") auto
  with v(3) q have view: "mq_view (mq_set a q' (sc_mq s)) =
      (mq_view (sc_mq s))(a \<mapsto> ([], False, False))" by simp
  have "flags_ok (mq_view (mq_set a q' (sc_mq s))) (set xs \<union> (ran (sc_hold s) - {a}))"
    unfolding view using inv held
    by (intro flags_ok_upd[of _ "set xs \<union> ran (sc_hold s)"]) (auto simp: sched_defs)
  with inv t v(1,2) view show ?thesis
    by (auto simp: sched_defs ran_del held_once_del)
qed

lemma inv_mark:
  assumes inv: "sched_inv s xs" and p: "skynet_mq_mark_release a (sc_mq s) = Some m'"
  shows "\<exists>xs'. sched_inv (s\<lparr>sc_mq := m'\<rparr>) xs'"
proof -
  from p obtain q where q: "mq_heap (sc_mq s) a = Some q" "\<not> q_release q"
    by (auto simp: skynet_mq_mark_release_def bind_eq_Some_conv)
  have ng: "\<not> q_in_global q \<Longrightarrow> a \<notin> set xs \<and> a \<notin> ran (sc_hold s)"
    using sched_parked[OF inv q(1)] q(2) by blast
  from inv have rep: "gq_rep (sc_mq s) xs" "mq_ok (sc_mq s)" by (simp_all add: sched_inv_def)
  have v: "mq_view (sc_mq s) a = Some (mq_list q, q_in_global q, False)" using q by simp
  have "\<exists>s1. skynet_mq_mark_release a (sc_mq s) = Some s1 \<and> mq_ok s1 \<and>
      gq_rep s1 (if q_in_global q then xs else xs @ [a]) \<and>
      mq_view s1 = (mq_view (sc_mq s))(a \<mapsto> (mq_list q, q_in_global q, True))"
    by (rule mq_mark_release_view[OF rep v]) (use ng in blast)+
  with p have m': "mq_ok m'" "gq_rep m' (if q_in_global q then xs else xs @ [a])"
    "mq_view m' = (mq_view (sc_mq s))(a \<mapsto> (mq_list q, q_in_global q, True))"
    by auto
  have own: "a \<in> set (if q_in_global q then xs else xs @ [a]) \<union> ran (sc_hold s)"
    using sched_flags(1)[OF inv q(1)] by auto
  have "flags_ok (mq_view m') (set (if q_in_global q then xs else xs @ [a]) \<union> ran (sc_hold s))"
    unfolding m'(3) using inv own
    by (intro flags_ok_upd[of _ "set xs \<union> ran (sc_hold s)"]) (auto simp: sched_defs)
  with inv m' ng have "sched_inv (s\<lparr>sc_mq := m'\<rparr>) (if q_in_global q then xs else xs @ [a])"
    by (auto simp: sched_defs)
  then show ?thesis by blast
qed

lemma drop_queue_plain:
  assumes "mq_wf q" "mq_heap s a = Some q" "q_next q = None"
  shows "drop_queue (\<lambda>_. Some) a s = Some (s\<lparr>mq_heap := (mq_heap s)(a := None)\<rparr>)"
proof -
  have id: "(\<lambda>_. Some) = (\<lambda>m s. Some (mq_globals.more_update (\<lambda>u. u) s))"
    by (auto simp: fun_eq_iff)
  have "fold (\<lambda>_ u. u) ms v = v" for ms :: "'b list" and v :: 'c by (induction ms) simp_all
  then show ?thesis
    using drop_queue_all[OF assms, of "\<lambda>_ u. u"] unfolding id by (cases s) simp
qed

lemma inv_drop:
  assumes inv: "sched_inv s xs" and t: "sc_hold s t = Some a"
    and p: "drop_queue (\<lambda>_. Some) a (sc_mq s) = Some m'"
  shows "sched_inv (s\<lparr>sc_mq := m', sc_hold := (sc_hold s)(t := None)\<rparr>) xs"
proof -
  obtain q where q: "mq_heap (sc_mq s) a = Some q" "mq_wf q" "a \<notin> set xs"
    using inv t by (rule sched_heldE)
  from inv have rep: "gq_rep (sc_mq s) xs" by (simp add: sched_inv_def)
  with q have "q_next q = None" by (auto simp: gq_rep_def)
  with drop_queue_plain[OF q(2,1)] p have m': "m' = (sc_mq s)\<lparr>mq_heap := (mq_heap (sc_mq s))(a := None)\<rparr>"
    by simp
  have view: "mq_view m' = (mq_view (sc_mq s))(a := None)"
    by (auto simp: m' mq_view_def)
  have "gq_rep m' xs" using rep q by (auto simp: m' gq_rep_def gq_chain_upd_other)
  moreover have "flags_ok (mq_view m') (set xs \<union> (ran (sc_hold s) - {a}))"
    using inv q unfolding view sched_defs flags_ok_def by auto
  ultimately show ?thesis
    using inv t view by (auto simp: sched_defs ran_del held_once_del m' mq_ok_def)
qed

lemma sched_step_inv:
  assumes "sched_step s s'" "sched_inv s xs"
  shows "\<exists>xs'. sched_inv s' xs'"
  using assms
  by (induction rule: sched_step.induct)
     (blast intro: inv_launch inv_publish inv_send inv_fetch inv_pop inv_park inv_mark inv_drop)+

lemma sched_reachable_inv: "sched_reachable s \<Longrightarrow> \<exists>xs. sched_inv s xs"
  by (induction rule: sched_reachable.induct) (blast intro: sched_inv_init sched_step_inv)+

section \<open>Properties\<close>

text \<open>A reachable state: one service launched by thread 0, with one message waiting.\<close>

definition demo_message :: skynet_message where
  "demo_message = \<lparr>m_source = 9, m_session = 1, m_data = None, m_sz = 0\<rparr>"

definition demo_launched :: "unit sched" where
  "demo_launched = sched_init\<lparr>sc_mq := mq_set 5 (skynet_mq_create 1) (sc_mq sched_init),
                              sc_hold := (sc_hold sched_init)(0 \<mapsto> 5)\<rparr>"

lemma demo_launched_reachable: "sched_reachable demo_launched"
  unfolding demo_launched_def
  by (rule sched_reachable.step[OF sched_reachable.start], rule sched_step.launch)
     (simp_all add: sched_init_def)

lemma demo_sent_reachable:
  "\<exists>s q. sched_reachable s \<and> sc_hold s = sc_hold demo_launched \<and> mq_heap (sc_mq s) 5 = Some q \<and>
         \<not> q_release q \<and> mq_list q = [demo_message]"
proof -
  obtain xs where inv: "sched_inv demo_launched xs"
    using sched_reachable_inv[OF demo_launched_reachable] by blast
  have q: "mq_heap (sc_mq demo_launched) 5 = Some (skynet_mq_create 1)"
    by (simp add: demo_launched_def)
  from inv have rep: "gq_rep (sc_mq demo_launched) xs" "mq_ok (sc_mq demo_launched)"
    by (simp_all add: sched_inv_def)
  obtain m' where m': "skynet_mq_push 5 demo_message (sc_mq demo_launched) = Some m'"
    "mq_view m' = (mq_view (sc_mq demo_launched))(5 \<mapsto> ([] @ [demo_message], True, False))"
    by (rule mq_push_view[OF rep, of 5 "[]" True False demo_message]) (use q in auto)
  have "sched_reachable (demo_launched\<lparr>sc_mq := m'\<rparr>)"
    by (rule sched_reachable.step[OF demo_launched_reachable], rule sched_step.send[OF q _ m'(1)]) simp
  moreover have "mq_view m' 5 = Some ([demo_message], True, False)" using m'(2) by simp
  ultimately show ?thesis
    by (intro exI[of _ "demo_launched\<lparr>sc_mq := m'\<rparr>"]) (auto elim!: mq_viewE)
qed

text \<open>
  C10. At most one thread works on a service at a time: in every interleaving of the
  runtime's queue operations no queue is held by two threads, and a held queue is not on
  the global queue, so no other thread can fetch it.
\<close>

theorem sched_exclusive:
  assumes "sched_reachable s" and "sc_hold s t = Some a"
  shows "(\<forall>u. sc_hold s u = Some a \<longrightarrow> u = t) \<and>
         (\<exists>xs. gq_rep (sc_mq s) xs \<and> distinct xs \<and> a \<notin> set xs)"
proof -
  obtain xs where inv: "sched_inv s xs" using sched_reachable_inv[OF assms(1)] by blast
  obtain q where "a \<notin> set xs" by (rule sched_heldE[OF inv assms(2)])
  with inv assms(2) show ?thesis unfolding sched_defs held_once_def gq_rep_def by blast
qed

theorem sched_exclusive_witness:
  "sched_reachable demo_launched \<and> sc_hold demo_launched 0 = Some 5 \<and>
   sc_hold demo_launched 1 \<noteq> Some 5 \<and> (\<exists>xs. gq_rep (sc_mq demo_launched) xs \<and> 5 \<notin> set xs)"
proof -
  have t: "sc_hold demo_launched 0 = Some 5" by (simp add: demo_launched_def)
  note ex = sched_exclusive[OF demo_launched_reachable t]
  from ex have "sc_hold demo_launched 1 = Some 5 \<longrightarrow> (1 :: nat) = 0" by (rule conjunct1[THEN spec])
  moreover from ex have "\<exists>xs. gq_rep (sc_mq demo_launched) xs \<and> distinct xs \<and> 5 \<notin> set xs"
    by (rule conjunct2)
  ultimately show ?thesis using demo_launched_reachable t by auto
qed

text \<open>
  C11. No message is stranded: in every reachable state a queue that has messages is on
  the global queue or held by a thread, so some thread will look at it.
\<close>

theorem sched_no_lost_wakeup:
  assumes "sched_reachable s" and "mq_heap (sc_mq s) a = Some q" and "mq_list q \<noteq> []"
  shows "(\<exists>xs. gq_rep (sc_mq s) xs \<and> a \<in> set xs) \<or> (\<exists>t. sc_hold s t = Some a)"
proof -
  obtain xs where inv: "sched_inv s xs" using sched_reachable_inv[OF assms(1)] by blast
  from sched_flags[OF inv assms(2)] assms(3) have "a \<in> set xs \<union> ran (sc_hold s)" by blast
  with inv show ?thesis unfolding sched_inv_def ran_def by auto
qed

theorem sched_no_lost_wakeup_witness:
  "\<exists>s q. sched_reachable s \<and> mq_heap (sc_mq s) 5 = Some q \<and> mq_list q = [demo_message] \<and>
         ((\<exists>xs. gq_rep (sc_mq s) xs \<and> 5 \<in> set xs) \<or> (\<exists>t. sc_hold s t = Some 5))"
proof -
  obtain s q where s: "sched_reachable s" "mq_heap (sc_mq s) 5 = Some q" "mq_list q = [demo_message]"
    using demo_sent_reachable by blast
  with sched_no_lost_wakeup[OF s(1,2)] show ?thesis by auto
qed

text \<open>
  The queue operations never trip an assertion: in every reachable state a message
  can be pushed to any service that is not being released, the global queue can be
  popped, and a thread can put the queue it holds back.
\<close>

lemma sched_operations_safe:
  assumes "sched_reachable s"
  shows "(mq_heap (sc_mq s) a = Some q \<longrightarrow> \<not> q_release q \<longrightarrow>
            (\<exists>m'. skynet_mq_push a msg (sc_mq s) = Some m')) \<and>
         (\<exists>r m'. skynet_globalmq_pop (sc_mq s) = Some (r, m')) \<and>
         (sc_hold s t = Some b \<longrightarrow> (\<exists>m'. skynet_globalmq_push b (sc_mq s) = Some m'))"
proof -
  obtain xs where inv: "sched_inv s xs" using sched_reachable_inv[OF assms] by blast
  then have rep: "gq_rep (sc_mq s) xs" "mq_ok (sc_mq s)" by (simp_all add: sched_inv_def)
  have "\<exists>m'. skynet_mq_push a msg (sc_mq s) = Some m'"
    if "mq_heap (sc_mq s) a = Some q" "\<not> q_release q"
  proof -
    from sched_parked(1)[OF inv that(1)] that(2) have "\<not> q_in_global q \<Longrightarrow> a \<notin> set xs" by simp
    then show ?thesis by (rule mq_push_view[OF rep mq_view_Some[OF that(1)], of msg]) blast+
  qed
  moreover have "\<exists>r m'. skynet_globalmq_pop (sc_mq s) = Some (r, m')"
  proof (cases xs)
    case Nil
    with globalmq_pop_Nil[of "sc_mq s"] rep(1) show ?thesis by auto
  next
    case (Cons b ys)
    with rep(1) have "gq_rep (sc_mq s) (b # ys)" by simp
    then show ?thesis by (rule globalmq_pop_Cons) blast
  qed
  moreover have "\<exists>m'. skynet_globalmq_push b (sc_mq s) = Some m'" if t: "sc_hold s t = Some b"
  proof -
    obtain qb where qb: "mq_heap (sc_mq s) b = Some qb" "b \<notin> set xs"
      by (rule sched_heldE[OF inv t])
    show ?thesis by (rule globalmq_push_ok[OF rep(1) qb]) blast
  qed
  ultimately show ?thesis by blast
qed

lemma sched_operations_safe_witness:
  "sched_reachable demo_launched \<and>
   (\<exists>m'. skynet_mq_push 5 demo_message (sc_mq demo_launched) = Some m') \<and>
   (\<exists>m'. skynet_globalmq_push 5 (sc_mq demo_launched) = Some m')"
proof -
  have q: "mq_heap (sc_mq demo_launched) 5 = Some (skynet_mq_create 1)"
    and t: "sc_hold demo_launched 0 = Some 5"
    by (simp_all add: demo_launched_def)
  show ?thesis
    using sched_operations_safe[OF demo_launched_reachable, of 5 "skynet_mq_create 1" demo_message 0 5]
      q t demo_launched_reachable by simp
qed

end
