(* ===== verification/Registry.thy ===== *)
theory Registry
  imports Skynet_Prelude
begin

text \<open>
  The interface of a registry that issues keys itself: \<open>add\<close> picks a key for a value,
  \<open>del\<close> withdraws a key. The handle table (\<open>skynet_handle.c\<close>) and the connection id table of
  the gate (\<open>hashid.h\<close>) provide it. What a client may conclude about any sequence of calls is
  proved here once.
\<close>

datatype ('k, 'v) reg_op = Reg_Add 'v | Reg_Del 'k
datatype ('k, 'v) reg_event = Added 'k 'v | Removed 'k "'v option"

text \<open>A client's run, with what each call returned.\<close>

fun reg_run ::
    "('v \<Rightarrow> 's \<Rightarrow> ('k \<times> 's) option) \<Rightarrow> ('k \<Rightarrow> 's \<Rightarrow> ('v option \<times> 's) option) \<Rightarrow>
     ('k, 'v) reg_op list \<Rightarrow> 's \<Rightarrow> (('k, 'v) reg_event list \<times> 's) option" where
  "reg_run add del [] s = Some ([], s)"
| "reg_run add del (Reg_Add v # ops) s = do {
     r \<leftarrow> add v s;
     rest \<leftarrow> reg_run add del ops (snd r);
     Some (Added (fst r) v # fst rest, snd rest)
   }"
| "reg_run add del (Reg_Del k # ops) s = do {
     r \<leftarrow> del k s;
     rest \<leftarrow> reg_run add del ops (snd r);
     Some (Removed k (fst r) # fst rest, snd rest)
   }"

fun reg_added :: "('k, 'v) reg_op list \<Rightarrow> 'v list" where
  "reg_added [] = []"
| "reg_added (Reg_Add v # ops) = v # reg_added ops"
| "reg_added (Reg_Del k # ops) = reg_added ops"

text \<open>
  The map a trace leaves behind, and the traces a registry may produce: a new key is one
  that is not in use, and a withdrawal returns what the key stood for.
\<close>

fun reg_after :: "('k \<Rightarrow> 'v option) \<Rightarrow> ('k, 'v) reg_event list \<Rightarrow> 'k \<Rightarrow> 'v option" where
  "reg_after m [] = m"
| "reg_after m (Added k v # tr) = reg_after (m(k \<mapsto> v)) tr"
| "reg_after m (Removed k r # tr) = reg_after (m(k := None)) tr"

fun reg_legal :: "('k \<Rightarrow> 'v option) \<Rightarrow> ('k, 'v) reg_event list \<Rightarrow> bool" where
  "reg_legal m [] \<longleftrightarrow> True"
| "reg_legal m (Added k v # tr) \<longleftrightarrow> m k = None \<and> reg_legal (m(k \<mapsto> v)) tr"
| "reg_legal m (Removed k r # tr) \<longleftrightarrow> r = m k \<and> reg_legal (m(k := None)) tr"

locale registry =
  fixes find :: "'s \<Rightarrow> 'k \<Rightarrow> 'v option"
    and add :: "'v \<Rightarrow> 's \<Rightarrow> ('k \<times> 's) option"
    and del :: "'k \<Rightarrow> 's \<Rightarrow> ('v option \<times> 's) option"
    and invar :: "'s \<Rightarrow> bool"
    and room :: "'s \<Rightarrow> nat"
  assumes add_ok: "invar s \<Longrightarrow> v \<notin> ran (find s) \<Longrightarrow> 0 < room s \<Longrightarrow>
      \<exists>k s'. add v s = Some (k, s') \<and> invar s' \<and> find s k = None \<and>
             find s' = (find s)(k \<mapsto> v) \<and> room s \<le> Suc (room s')"
    and del_ok: "invar s \<Longrightarrow>
      \<exists>s'. del k s = Some (find s k, s') \<and> invar s' \<and>
           find s' = (find s)(k := None) \<and> room s \<le> room s'"
begin

text \<open>
  Adding distinct new values within the room never faults; every key issued is free at that
  moment, and the lookup is the map the trace describes.
\<close>

lemma reg_run_ok:
  "invar s \<Longrightarrow> distinct (reg_added ops) \<Longrightarrow> set (reg_added ops) \<inter> ran (find s) = {} \<Longrightarrow>
   length (reg_added ops) \<le> room s \<Longrightarrow>
     \<exists>tr s'. reg_run add del ops s = Some (tr, s') \<and> invar s' \<and>
             reg_legal (find s) tr \<and> find s' = reg_after (find s) tr"
proof (induction ops arbitrary: s)
  case Nil
  then show ?case by simp
next
  case (Cons op ops)
  show ?case
  proof (cases op)
    case (Reg_Add v)
    obtain k s1 where s1: "add v s = Some (k, s1)" "invar s1" "find s k = None"
      "find s1 = (find s)(k \<mapsto> v)" "room s \<le> Suc (room s1)"
      using add_ok[OF Cons.prems(1), of v] Cons.prems Reg_Add by auto
    have "ran (find s1) = insert v (ran (find s))" using s1(3,4) by (simp add: ran_map_upd)
    then have "set (reg_added ops) \<inter> ran (find s1) = {}" "length (reg_added ops) \<le> room s1"
      "distinct (reg_added ops)" using Cons.prems Reg_Add s1(5) by auto
    then obtain tr s2 where "reg_run add del ops s1 = Some (tr, s2)" "invar s2"
      "reg_legal (find s1) tr" "find s2 = reg_after (find s1) tr"
      using Cons.IH[OF s1(2)] by blast
    with s1 Reg_Add show ?thesis by (intro exI[of _ "Added k v # tr"] exI[of _ s2]) simp
  next
    case (Reg_Del k)
    obtain s1 where s1: "del k s = Some (find s k, s1)" "invar s1"
      "find s1 = (find s)(k := None)" "room s \<le> room s1"
      using del_ok[OF Cons.prems(1)] by blast
    have "ran (find s1) \<subseteq> ran (find s)" unfolding s1(3) by (auto simp: ran_def)
    then have "set (reg_added ops) \<inter> ran (find s1) = {}" "length (reg_added ops) \<le> room s1"
      "distinct (reg_added ops)" using Cons.prems Reg_Del s1(4) by auto
    then obtain tr s2 where "reg_run add del ops s1 = Some (tr, s2)" "invar s2"
      "reg_legal (find s1) tr" "find s2 = reg_after (find s1) tr"
      using Cons.IH[OF s1(2)] by blast
    with s1 Reg_Del show ?thesis by (intro exI[of _ "Removed k (find s k) # tr"] exI[of _ s2]) simp
  qed
qed

end

section \<open>Slot maps\<close>

text \<open>
  The interface of a table that gives each client-chosen id a slot of its own: \<open>ins\<close> picks the
  slot, \<open>rem\<close> frees it.
\<close>

datatype 'i slot_op = Slot_Open 'i | Slot_Close 'i

fun slot_run :: "('i \<Rightarrow> 's \<Rightarrow> ('k \<times> 's) option) \<Rightarrow> ('i \<Rightarrow> 's \<Rightarrow> ('k option \<times> 's) option) \<Rightarrow>
    'i slot_op list \<Rightarrow> 's \<Rightarrow> 's option" where
  "slot_run ins rem [] s = Some s"
| "slot_run ins rem (Slot_Open i # ops) s = do {
     r \<leftarrow> ins i s;
     slot_run ins rem ops (snd r)
   }"
| "slot_run ins rem (Slot_Close i # ops) s = do {
     r \<leftarrow> rem i s;
     slot_run ins rem ops (snd r)
   }"

fun slot_opened :: "'i slot_op list \<Rightarrow> 'i list" where
  "slot_opened [] = []"
| "slot_opened (Slot_Open i # ops) = i # slot_opened ops"
| "slot_opened (Slot_Close i # ops) = slot_opened ops"

fun slot_after :: "'i set \<Rightarrow> 'i slot_op list \<Rightarrow> 'i set" where
  "slot_after A [] = A"
| "slot_after A (Slot_Open i # ops) = slot_after (insert i A) ops"
| "slot_after A (Slot_Close i # ops) = slot_after (A - {i}) ops"

locale slot_map =
  fixes slot :: "'s \<Rightarrow> 'i \<Rightarrow> 'k option"
    and ins :: "'i \<Rightarrow> 's \<Rightarrow> ('k \<times> 's) option"
    and rem :: "'i \<Rightarrow> 's \<Rightarrow> ('k option \<times> 's) option"
    and invar :: "'s \<Rightarrow> bool"
    and legal :: "'s \<Rightarrow> 'i \<Rightarrow> bool"
    and room :: "'s \<Rightarrow> nat"
  assumes ins_ok: "invar s \<Longrightarrow> legal s i \<Longrightarrow> slot s i = None \<Longrightarrow> 0 < room s \<Longrightarrow>
      \<exists>k s'. ins i s = Some (k, s') \<and> invar s' \<and> k \<notin> ran (slot s) \<and> slot s' = (slot s)(i \<mapsto> k) \<and>
             legal s' = legal s \<and> room s \<le> Suc (room s')"
    and rem_ok: "invar s \<Longrightarrow>
      \<exists>s'. rem i s = Some (slot s i, s') \<and> invar s' \<and> slot s' = (slot s)(i := None) \<and>
           legal s' = legal s \<and> room s \<le> room s'"
begin

text \<open>No two open ids ever share a slot, and exactly the ids opened and not closed have one.\<close>

lemma slot_run_ok:
  "invar s \<Longrightarrow> inj_on (slot s) (dom (slot s)) \<Longrightarrow> distinct (slot_opened ops) \<Longrightarrow>
   set (slot_opened ops) \<inter> dom (slot s) = {} \<Longrightarrow> (\<And>i. i \<in> set (slot_opened ops) \<Longrightarrow> legal s i) \<Longrightarrow>
   length (slot_opened ops) \<le> room s \<Longrightarrow>
     \<exists>s'. slot_run ins rem ops s = Some s' \<and> invar s' \<and>
          dom (slot s') = slot_after (dom (slot s)) ops \<and> inj_on (slot s') (dom (slot s'))"
proof (induction ops arbitrary: s)
  case Nil
  then show ?case by simp
next
  case (Cons op ops)
  show ?case
  proof (cases op)
    case (Slot_Open i)
    obtain k s1 where s1: "ins i s = Some (k, s1)" "invar s1" "k \<notin> ran (slot s)" "slot s1 = (slot s)(i \<mapsto> k)"
      "legal s1 = legal s" "room s \<le> Suc (room s1)"
      using ins_ok[of s i] Cons.prems Slot_Open by auto
    have "inj_on (slot s1) (dom (slot s1))"
      using Cons.prems(2) s1(3) unfolding s1(4) by (auto simp: inj_on_def ran_def dom_def)
    moreover have dom: "dom (slot s1) = insert i (dom (slot s))" unfolding s1(4) by simp
    moreover have "distinct (slot_opened ops)" "set (slot_opened ops) \<inter> dom (slot s1) = {}"
      "length (slot_opened ops) \<le> room s1" using Cons.prems Slot_Open s1(6) unfolding dom by auto
    moreover have "legal s1 j" if "j \<in> set (slot_opened ops)" for j
      using Cons.prems(5)[of j] that Slot_Open s1(5) by simp
    ultimately obtain s2 where "slot_run ins rem ops s1 = Some s2" "invar s2"
      "dom (slot s2) = slot_after (dom (slot s1)) ops" "inj_on (slot s2) (dom (slot s2))"
      using Cons.IH[OF s1(2)] by blast
    with s1(1) dom Slot_Open show ?thesis by simp
  next
    case (Slot_Close i)
    obtain s1 where s1: "rem i s = Some (slot s i, s1)" "invar s1" "slot s1 = (slot s)(i := None)"
      "legal s1 = legal s" "room s \<le> room s1"
      using rem_ok[OF Cons.prems(1)] by blast
    have "inj_on (slot s1) (dom (slot s1))"
      using Cons.prems(2) unfolding s1(3) by (auto simp: inj_on_def dom_def)
    moreover have "set (slot_opened ops) \<inter> dom (slot s1) = {}" using Cons.prems(4) Slot_Close s1(3) by auto
    moreover have dom: "dom (slot s1) = dom (slot s) - {i}" unfolding s1(3) by auto
    moreover have "distinct (slot_opened ops)" "length (slot_opened ops) \<le> room s1"
      using Cons.prems Slot_Close s1(5) by auto
    moreover have "legal s1 j" if "j \<in> set (slot_opened ops)" for j
      using Cons.prems(5)[of j] that Slot_Close s1(4) by simp
    ultimately obtain s2 where "slot_run ins rem ops s1 = Some s2" "invar s2"
      "dom (slot s2) = slot_after (dom (slot s1)) ops" "inj_on (slot s2) (dom (slot s2))"
      using Cons.IH[OF s1(2)] by blast
    with s1(1) dom Slot_Close show ?thesis by simp
  qed
qed

end

end
