(* ===== verification/Handle.thy ===== *)
theory Handle
  imports Registry "HOL-Library.List_Lexorder" "HOL-Library.Char_ord"
begin

text \<open>
  The handle table of a node, \<open>skynet-src/skynet_handle.c\<close>: an open-addressed table from
  32-bit handles to services, whose slot is the handle's low bits, and a sorted array of
  local names.

  A slot holds the address of a \<open>struct skynet_context\<close>; the table reads the context's
  handle through \<open>skynet_context_handle\<close>, which is the parameter \<open>ch\<close> of the definitions.
  The reference counting of the contexts that \<open>skynet_handle_grab\<close> and
  \<open>skynet_handle_retire\<close> do is in the node's model; the table's part of both is here.
  C strings are compared as \<open>strcmp\<close> does, byte by byte, which is the lexicographic order
  of \<^typ>\<open>string\<close>.
\<close>

section \<open>Data\<close>

record handle_name =
  hn_name :: string
  hn_handle :: u32

record handle_storage =
  hs_harbor :: u32
  hs_handle_index :: u32
  hs_slot_size :: nat
  hs_slot :: "nat option list"
  hs_name_cap :: nat
  hs_name_count :: nat
  hs_name :: "handle_name option list"

definition DEFAULT_SLOT_SIZE :: nat where "DEFAULT_SLOT_SIZE = 4"
definition MAX_SLOT_SIZE :: nat where "MAX_SLOT_SIZE = 0x40000000"
definition HANDLE_MASK :: u32 where "HANDLE_MASK = 0xffffff"
definition HANDLE_REMOTE_SHIFT :: nat where "HANDLE_REMOTE_SHIFT = 24"

definition skynet_handle_init :: "u32 \<Rightarrow> handle_storage" where
  "skynet_handle_init harbor =
     \<lparr>hs_harbor = push_bit HANDLE_REMOTE_SHIFT (harbor AND 0xff), hs_handle_index = 1,
      hs_slot_size = DEFAULT_SLOT_SIZE, hs_slot = replicate DEFAULT_SLOT_SIZE None,
      hs_name_cap = 2, hs_name_count = 0, hs_name = replicate 2 None\<rparr>"

section \<open>The slots\<close>

text \<open>\<open>handle & (slot_size-1)\<close>\<close>

definition slot_hash :: "nat \<Rightarrow> u32 \<Rightarrow> nat" where
  "slot_hash n h = unat (h AND (of_nat n - 1))"

text \<open>The handle tried in round \<open>i\<close> of the inner loop of \<open>skynet_handle_register\<close>.\<close>

definition probe :: "handle_storage \<Rightarrow> nat \<Rightarrow> u32" where
  "probe s i = (of_nat i + hs_handle_index s) AND HANDLE_MASK"

definition free_round :: "handle_storage \<Rightarrow> nat option" where
  "free_round s =
     find (\<lambda>i. hs_slot s ! slot_hash (hs_slot_size s) (probe s i) = None) [0..<hs_slot_size s]"

text \<open>
  The rehash of a full table into one of twice the size: a null slot would be
  dereferenced, and the assertion wants the new slot free.
\<close>

fun rehash :: "(nat \<Rightarrow> u32) \<Rightarrow> nat \<Rightarrow> nat option list \<Rightarrow> nat option list \<Rightarrow> nat option list option" where
  "rehash ch size2 [] new_slot = Some new_slot"
| "rehash ch size2 (x # xs) new_slot = do {
     c \<leftarrow> x;
     let hash = slot_hash size2 (ch c);
     _ \<leftarrow> assert_opt (new_slot ! hash = None);
     rehash ch size2 xs (new_slot[hash := Some c])
   }"

definition expand_slots :: "(nat \<Rightarrow> u32) \<Rightarrow> handle_storage \<Rightarrow> handle_storage option" where
  "expand_slots ch s = do {
     _ \<leftarrow> assert_opt (hs_slot_size s * 2 - 1 \<le> unat HANDLE_MASK);
     new_slot \<leftarrow> rehash ch (hs_slot_size s * 2) (hs_slot s) (replicate (hs_slot_size s * 2) None);
     Some (s\<lparr>hs_slot := new_slot, hs_slot_size := hs_slot_size s * 2\<rparr>)
   }"

partial_function (option) skynet_handle_register ::
    "(nat \<Rightarrow> u32) \<Rightarrow> nat \<Rightarrow> handle_storage \<Rightarrow> (u32 \<times> handle_storage) option" where
  "skynet_handle_register ch ctx s =
     (case free_round s of
        Some i \<Rightarrow>
          Some (probe s i OR hs_harbor s,
                s\<lparr>hs_slot := (hs_slot s)[slot_hash (hs_slot_size s) (probe s i) := Some ctx],
                  hs_handle_index := probe s i + 1\<rparr>)
      | None \<Rightarrow> do {
          s' \<leftarrow> expand_slots ch s;
          skynet_handle_register ch ctx s'
        })"

declare skynet_handle_register.simps [code]

text \<open>
  The lookup that \<open>skynet_handle_grab\<close> and \<open>skynet_handle_retire\<close> share: the context in
  the handle's slot, if its handle is the one asked for.
\<close>

definition handle_find :: "(nat \<Rightarrow> u32) \<Rightarrow> handle_storage \<Rightarrow> u32 \<Rightarrow> nat option" where
  "handle_find ch s h =
     (case hs_slot s ! slot_hash (hs_slot_size s) h of
        Some c \<Rightarrow> if ch c = h then Some c else None
      | None \<Rightarrow> None)"

section \<open>The names\<close>

text \<open>
  The binary search of \<open>skynet_handle_findname\<close> and of \<open>_insert_name\<close>: the entry found,
  or the index \<open>begin\<close> where the loop ended.
\<close>

function name_search ::
    "handle_name option list \<Rightarrow> string \<Rightarrow> int \<Rightarrow> int \<Rightarrow> (handle_name + nat) option" where
  "name_search names name bg en =
     (if bg \<le> en then
        (let mid = (bg + en) div 2 in
         case read_cell names (nat mid) of
           None \<Rightarrow> None
         | Some n \<Rightarrow>
             if hn_name n = name then Some (Inl n)
             else if hn_name n < name then name_search names name (mid + 1) en
             else name_search names name bg (mid - 1))
      else Some (Inr (nat bg)))"
  by pat_completeness auto
termination
  by (relation "measure (\<lambda>(names, name, bg, en). nat (en + 1 - bg))") auto

declare name_search.simps [simp del]

definition skynet_handle_findname :: "handle_storage \<Rightarrow> string \<Rightarrow> u32 option" where
  "skynet_handle_findname s name = do {
     r \<leftarrow> name_search (hs_name s) name 0 (int (hs_name_count s) - 1);
     Some (case r of Inl n \<Rightarrow> hn_handle n | Inr _ \<Rightarrow> 0)
   }"

text \<open>\<open>for (i = name_count; i > before; i--) name[i] = name[i-1];\<close>\<close>

fun shift_names :: "nat \<Rightarrow> nat \<Rightarrow> 'a list \<Rightarrow> 'a list" where
  "shift_names before 0 xs = xs"
| "shift_names before (Suc i) xs =
     (if before < Suc i then shift_names before i (xs[Suc i := xs ! i]) else xs)"

definition insert_name_before ::
    "handle_storage \<Rightarrow> string \<Rightarrow> u32 \<Rightarrow> nat \<Rightarrow> handle_storage option" where
  "insert_name_before s name handle before = do {
     s' \<leftarrow> (if hs_name_cap s \<le> hs_name_count s then do {
              let cap = hs_name_cap s * 2;
              _ \<leftarrow> assert_opt (cap \<le> MAX_SLOT_SIZE);
              let n = take before (hs_name s) @ [None]
                      @ take (hs_name_count s - before) (drop before (hs_name s));
              Some (s\<lparr>hs_name_cap := cap, hs_name := n @ replicate (cap - length n) None\<rparr>)
            }
            else Some (s\<lparr>hs_name := shift_names before (hs_name_count s) (hs_name s)\<rparr>));
     cells \<leftarrow> write_cell (hs_name s') before \<lparr>hn_name = name, hn_handle = handle\<rparr>;
     Some (s'\<lparr>hs_name := cells, hs_name_count := hs_name_count s' + 1\<rparr>)
   }"

text \<open>The returned copy of the name, or null when the name is taken.\<close>

definition insert_name ::
    "handle_storage \<Rightarrow> string \<Rightarrow> u32 \<Rightarrow> (string option \<times> handle_storage) option" where
  "insert_name s name handle = do {
     r \<leftarrow> name_search (hs_name s) name 0 (int (hs_name_count s) - 1);
     case r of
       Inl _ \<Rightarrow> Some (None, s)
     | Inr before \<Rightarrow> do {
         s' \<leftarrow> insert_name_before s name handle before;
         Some (Some name, s')
       }
   }"

definition skynet_handle_namehandle ::
    "u32 \<Rightarrow> string \<Rightarrow> handle_storage \<Rightarrow> (string option \<times> handle_storage) option" where
  "skynet_handle_namehandle handle name s = insert_name s name handle"

text \<open>The compaction loop of \<open>skynet_handle_retire\<close>: \<open>i\<close> reads, \<open>j\<close> writes.\<close>

function compact_names ::
    "u32 \<Rightarrow> nat \<Rightarrow> nat \<Rightarrow> nat \<Rightarrow> handle_name option list \<Rightarrow> (nat \<times> handle_name option list) option" where
  "compact_names handle n i j names =
     (if i < n then
        (case read_cell names i of
           None \<Rightarrow> None
         | Some e \<Rightarrow>
             if hn_handle e = handle then compact_names handle n (i + 1) j names
             else compact_names handle n (i + 1) (j + 1)
                    (if i \<noteq> j then names[j := Some e] else names))
      else Some (j, names))"
  by pat_completeness auto
termination
  by (relation "measure (\<lambda>(handle, n, i, j, names). n - i)") auto

declare compact_names.simps [simp del]

text \<open>
  \<open>skynet_handle_retire\<close> up to the unlock: the context removed, or null when the handle is
  not registered.
\<close>

definition handle_remove ::
    "(nat \<Rightarrow> u32) \<Rightarrow> u32 \<Rightarrow> handle_storage \<Rightarrow> (nat option \<times> handle_storage) option" where
  "handle_remove ch h s =
     (case handle_find ch s h of
        None \<Rightarrow> Some (None, s)
      | Some c \<Rightarrow> do {
          r \<leftarrow> compact_names h (hs_name_count s) 0 0 (hs_name s);
          Some (Some c, s\<lparr>hs_slot := (hs_slot s)[slot_hash (hs_slot_size s) h := None],
                          hs_name_count := fst r, hs_name := snd r\<rparr>)
        })"

section \<open>The slot table is a finite map\<close>

definition hs_live :: "handle_storage \<Rightarrow> nat set" where
  "hs_live s = {c. Some c \<in> set (hs_slot s)}"

text \<open>
  The table's invariant: the size is a power of two, every live context is in the slot
  of its handle and carries the node's harbor in its high bits.
\<close>

definition hs_wf :: "(nat \<Rightarrow> u32) \<Rightarrow> handle_storage \<Rightarrow> bool" where
  "hs_wf ch s \<longleftrightarrow>
     (\<exists>k \<le> 24. hs_slot_size s = 2 ^ k) \<and> length (hs_slot s) = hs_slot_size s \<and>
     take_bit 24 (hs_harbor s) = 0 \<and>
     (\<forall>i < hs_slot_size s. \<forall>c. hs_slot s ! i = Some c \<longrightarrow>
        slot_hash (hs_slot_size s) (ch c) = i \<and> drop_bit 24 (ch c) = drop_bit 24 (hs_harbor s))"

lemma slot_hash_pow2: "slot_hash (2 ^ k) h = unat h mod 2 ^ k"
  unfolding slot_hash_def by (rule unat_and_of_nat_mask)

lemma HANDLE_MASK_eq: "x AND HANDLE_MASK = take_bit 24 x"
  using and_of_nat_mask[of x 24] by (simp add: HANDLE_MASK_def)

lemma slot_hash_less: "hs_wf ch s \<Longrightarrow> slot_hash (hs_slot_size s) h < hs_slot_size s"
  by (auto simp: hs_wf_def slot_hash_pow2)

lemma hs_wf_init [simp]: "hs_wf ch (skynet_handle_init harbor)"
proof -
  have "\<exists>k \<le> 24. (4 :: nat) = 2 ^ k" by (rule exI[of _ 2]) simp
  moreover have "take_bit 24 (push_bit 24 (harbor AND 0xff)) = 0"
    by (auto simp: bit_eq_iff bit_simps)
  ultimately show ?thesis
    by (simp add: hs_wf_def skynet_handle_init_def DEFAULT_SLOT_SIZE_def HANDLE_REMOTE_SHIFT_def)
qed

lemma hs_live_init [simp]: "hs_live (skynet_handle_init harbor) = {}"
  by (simp add: hs_live_def skynet_handle_init_def DEFAULT_SLOT_SIZE_def)

lemma hs_liveE:
  assumes "hs_wf ch s" "c \<in> hs_live s"
  shows "hs_slot s ! slot_hash (hs_slot_size s) (ch c) = Some c"
  using assms unfolding hs_wf_def hs_live_def by (auto simp: in_set_conv_nth)

lemma handle_find_iff:
  assumes "hs_wf ch s"
  shows "handle_find ch s h = Some c \<longleftrightarrow> c \<in> hs_live s \<and> ch c = h"
proof
  assume "handle_find ch s h = Some c"
  then have "hs_slot s ! slot_hash (hs_slot_size s) h = Some c" "ch c = h"
    by (auto simp: handle_find_def split: option.splits if_splits)
  with slot_hash_less[OF assms, of h] assms show "c \<in> hs_live s \<and> ch c = h"
    unfolding hs_live_def hs_wf_def by (metis mem_Collect_eq nth_mem)
next
  assume "c \<in> hs_live s \<and> ch c = h"
  with hs_liveE[OF assms] show "handle_find ch s h = Some c"
    by (auto simp: handle_find_def)
qed

text \<open>No two live contexts have the same handle.\<close>

lemma hs_live_inj: "hs_wf ch s \<Longrightarrow> c \<in> hs_live s \<Longrightarrow> c' \<in> hs_live s \<Longrightarrow> ch c = ch c' \<Longrightarrow> c = c'"
  by (metis hs_liveE option.inject)

subsection \<open>Registering\<close>

lemma probe_hash:
  assumes "k \<le> 24"
  shows "unat (probe s i) mod 2 ^ k = (i + unat (hs_handle_index s)) mod 2 ^ k"
proof -
  have "unat (probe s i) = (i + unat (hs_handle_index s)) mod 2 ^ 32 mod 2 ^ 24"
    unfolding probe_def HANDLE_MASK_eq unat_take_bit_mod unat_of_nat_plus by simp
  then show ?thesis using assms by (simp only: mod_mod_pow2)
qed

lemma free_round_None:
  assumes wf: "hs_wf ch s" and no: "free_round s = None" and j: "j < hs_slot_size s"
  shows "hs_slot s ! j \<noteq> None"
proof -
  obtain k where k: "k \<le> 24" "hs_slot_size s = 2 ^ k" using wf by (auto simp: hs_wf_def)
  obtain i where "i < 2 ^ k" "(i + unat (hs_handle_index s)) mod 2 ^ k = j"
    using mod_shift_surj j k by metis
  with no k show ?thesis
    by (auto simp: free_round_def find_None_iff slot_hash_pow2 probe_hash)
qed

lemma free_round_Some:
  "free_round s = Some i \<Longrightarrow>
     i < hs_slot_size s \<and> hs_slot s ! slot_hash (hs_slot_size s) (probe s i) = None"
  by (auto simp: free_round_def find_Some_iff)

lemma free_round_exists:
  assumes "hs_wf ch s" "j < hs_slot_size s" "hs_slot s ! j = None"
  obtains i where "free_round s = Some i"
  using free_round_None[OF assms(1) _ assms(2)] assms(3) by (cases "free_round s") auto

lemma slot_hash_harbor:
  assumes "k \<le> 24" "take_bit 24 harbor = (0 :: u32)"
  shows "slot_hash (2 ^ k) (probe s i OR harbor) = slot_hash (2 ^ k) (probe s i)"
proof -
  have "take_bit k harbor = take_bit k (take_bit 24 harbor)" using assms(1) by simp
  then have "take_bit k harbor = 0" using assms(2) by simp
  then have "take_bit k (probe s i OR harbor) = take_bit k (probe s i)" by (simp add: take_bit_or)
  then show ?thesis by (simp only: slot_hash_def and_of_nat_mask)
qed

lemma drop_bit_probe: "drop_bit 24 (probe s i OR harbor) = drop_bit 24 (harbor :: u32)"
proof -
  have "drop_bit 24 (probe s i) = 0"
    unfolding probe_def HANDLE_MASK_eq by (auto simp: bit_eq_iff bit_simps)
  then show ?thesis by (simp add: drop_bit_or)
qed

definition hs_full :: "handle_storage \<Rightarrow> bool" where
  "hs_full s \<longleftrightarrow> hs_slot_size s = 2 ^ 24 \<and> (\<forall>i < hs_slot_size s. hs_slot s ! i \<noteq> None)"

lemma register_free:
  assumes wf: "hs_wf ch s" and i: "free_round s = Some i" and c: "c \<notin> hs_live s"
  defines "h \<equiv> probe s i OR hs_harbor s"
  defines "s' \<equiv> s\<lparr>hs_slot := (hs_slot s)[slot_hash (hs_slot_size s) (probe s i) := Some c],
                  hs_handle_index := probe s i + 1\<rparr>"
  shows "skynet_handle_register ch c s = Some (h, s')" "hs_wf (ch(c := h)) s'"
    "hs_live s' = insert c (hs_live s)" "\<forall>d \<in> hs_live s. ch d \<noteq> h"
proof -
  let ?p = "slot_hash (hs_slot_size s) (probe s i)"
  obtain k where k: "k \<le> 24" "hs_slot_size s = 2 ^ k" using wf by (auto simp: hs_wf_def)
  have len: "length (hs_slot s) = hs_slot_size s" and hb: "take_bit 24 (hs_harbor s) = 0"
    using wf by (auto simp: hs_wf_def)
  have p: "?p < length (hs_slot s)" "hs_slot s ! ?p = None"
    using slot_hash_less[OF wf] len free_round_Some[OF i] by auto
  have hash: "slot_hash (hs_slot_size s) h = ?p"
    using slot_hash_harbor[OF k(1) hb] k(2) by (simp add: h_def)
  show "skynet_handle_register ch c s = Some (h, s')"
    using i by (simp add: skynet_handle_register.simps h_def s'_def)
  show "hs_live s' = insert c (hs_live s)"
    using p by (auto simp: hs_live_def s'_def Some_in_set_update)
  have ne: "ch d = (ch(c := h)) d" if "hs_slot s ! j = Some d" "j < hs_slot_size s" for j d
    using that c len unfolding hs_live_def by (metis fun_upd_other mem_Collect_eq nth_mem)
  show "hs_wf (ch(c := h)) s'"
    using wf hash p len ne drop_bit_probe[of s i "hs_harbor s"]
    by (auto simp: hs_wf_def s'_def nth_list_update h_def)
  show "\<forall>d \<in> hs_live s. ch d \<noteq> h"
    using hs_liveE[OF wf] hash p(2) by fastforce
qed

subsection \<open>Growing\<close>

text \<open>
  The rehash loop: contexts whose new slots are distinct and free are all placed.
\<close>

lemma rehash_ok:
  assumes "length new = m" and "\<And>h. slot_hash m h < m"
    and "distinct (map (\<lambda>c. slot_hash m (ch c)) cs)"
    and "\<forall>c \<in> set cs. new ! slot_hash m (ch c) = None"
    and "\<forall>i < m. \<forall>c. new ! i = Some c \<longrightarrow> slot_hash m (ch c) = i"
  shows "\<exists>r. rehash ch m (map Some cs) new = Some r \<and> length r = m \<and>
             (\<forall>i < m. \<forall>c. r ! i = Some c \<longleftrightarrow>
                new ! i = Some c \<or> c \<in> set cs \<and> slot_hash m (ch c) = i)"
  using assms
proof (induction cs arbitrary: new)
  case Nil
  then show ?case by simp
next
  case (Cons c cs)
  let ?h = "slot_hash m (ch c)"
  let ?new = "new[?h := Some c]"
  have "\<exists>r. rehash ch m (map Some cs) ?new = Some r \<and> length r = m \<and>
      (\<forall>i < m. \<forall>d. r ! i = Some d \<longleftrightarrow> ?new ! i = Some d \<or> d \<in> set cs \<and> slot_hash m (ch d) = i)"
    using Cons.prems by (intro Cons.IH) (auto simp: nth_list_update)
  then obtain r where r: "rehash ch m (map Some cs) ?new = Some r" "length r = m"
    "\<forall>i < m. \<forall>d. r ! i = Some d \<longleftrightarrow> ?new ! i = Some d \<or> d \<in> set cs \<and> slot_hash m (ch d) = i"
    by blast
  have "rehash ch m (map Some (c # cs)) new = Some r"
    using r(1) Cons.prems by simp
  moreover have "\<forall>i < m. \<forall>d. r ! i = Some d \<longleftrightarrow>
      new ! i = Some d \<or> d \<in> set (c # cs) \<and> slot_hash m (ch d) = i"
    using r(3) Cons.prems(1,2,4) by (auto simp: nth_list_update split: if_splits)
  ultimately show ?case using r(2) by blast
qed

lemma hash_double: "slot_hash (2 ^ Suc k) h = slot_hash (2 ^ Suc k) h' \<Longrightarrow> slot_hash (2 ^ k) h = slot_hash (2 ^ k) h'"
  unfolding slot_hash_pow2 by (metis le_SucI le_refl mod_mod_pow2)

lemma expand_slots_ok:
  assumes wf: "hs_wf ch s" and full: "free_round s = None" and small: "hs_slot_size s < 2 ^ 24"
  obtains s' where "expand_slots ch s = Some s'" "hs_wf ch s'" "hs_live s' = hs_live s"
    "\<exists>j < hs_slot_size s'. hs_slot s' ! j = None" "hs_harbor s' = hs_harbor s"
    "hs_name_cap s' = hs_name_cap s" "hs_name_count s' = hs_name_count s" "hs_name s' = hs_name s"
proof -
  obtain k where k: "k \<le> 24" "hs_slot_size s = 2 ^ k" using wf by (auto simp: hs_wf_def)
  with small have k24: "k < 24" by (simp only: pow2_less_iff)
  define n where "n = (2 :: nat) ^ k"
  define m where "m = (2 :: nat) ^ Suc k"
  define cs where "cs = map the (hs_slot s)"
  have len: "length (hs_slot s) = n" using wf k by (simp add: hs_wf_def n_def)
  have pos: "0 < n" "m = 2 * n" by (simp_all add: n_def m_def)
  have slot: "hs_slot s = map Some cs"
    using free_round_None[OF wf full] k len
    by (auto simp: cs_def n_def in_set_conv_nth intro!: nth_equalityI)
  have hash: "slot_hash n (ch (cs ! i)) = i" "drop_bit 24 (ch (cs ! i)) = drop_bit 24 (hs_harbor s)"
    if "i < n" for i
    using wf that slot len k by (auto simp: hs_wf_def n_def)
  have lc: "length cs = n" using len by (simp add: cs_def)
  have dbl: "slot_hash m h = slot_hash m h' \<Longrightarrow> slot_hash n h = slot_hash n h'" for h h'
    unfolding m_def n_def by (rule hash_double)
  have "distinct (map (\<lambda>c. slot_hash m (ch c)) cs)"
    unfolding distinct_conv_nth
  proof (intro allI impI)
    fix i j assume "i < length (map (\<lambda>c. slot_hash m (ch c)) cs)" "j < length (map (\<lambda>c. slot_hash m (ch c)) cs)" "i \<noteq> j"
    then show "map (\<lambda>c. slot_hash m (ch c)) cs ! i \<noteq> map (\<lambda>c. slot_hash m (ch c)) cs ! j"
      using lc hash(1)[of i] hash(1)[of j] dbl[of "ch (cs ! i)" "ch (cs ! j)"] by auto
  qed
  moreover have "slot_hash m h < m" for h
    unfolding m_def slot_hash_pow2 by (rule mod_less_divisor) simp
  ultimately obtain r where r: "rehash ch m (map Some cs) (replicate m None) = Some r" "length r = m"
    "\<forall>i < m. \<forall>c. r ! i = Some c \<longleftrightarrow> c \<in> set cs \<and> slot_hash m (ch c) = i"
    using rehash_ok[of "replicate m None" m ch cs] by fastforce
  define s' where "s' = s\<lparr>hs_slot := r, hs_slot_size := m\<rparr>"
  have "m \<le> 2 ^ 24" unfolding m_def using k24 by (intro power_increasing) simp_all
  then have "m - 1 \<le> unat HANDLE_MASK" by (simp add: HANDLE_MASK_def)
  with r(1) have "expand_slots ch s = Some s'"
    using k by (simp add: expand_slots_def slot s'_def m_def mult.commute)
  moreover have "hs_wf ch s'"
  proof -
    have "drop_bit 24 (ch c) = drop_bit 24 (hs_harbor s)" if "c \<in> set cs" for c
      using that hash(2) lc by (auto simp: in_set_conv_nth)
    moreover have "\<exists>j \<le> 24. m = 2 ^ j" using k24 by (intro exI[of _ "Suc k"]) (simp add: m_def)
    ultimately show ?thesis using wf r by (simp add: hs_wf_def s'_def)
  qed
  moreover have "hs_live s' = hs_live s"
  proof -
    have "Some c \<in> set r \<longleftrightarrow> c \<in> set cs" for c
      using r(2,3) \<open>\<And>h. slot_hash m h < m\<close> by (metis in_set_conv_nth)
    then show ?thesis by (auto simp: hs_live_def s'_def slot)
  qed
  moreover have "\<exists>j < m. r ! j = None"
  proof (rule ccontr)
    assume "\<not> (\<exists>j < m. r ! j = None)"
    then obtain c d where c: "r ! 0 = Some c" and d: "r ! n = Some d" using pos by fastforce
    with r(3) pos have cd: "c \<in> set cs" "d \<in> set cs" "slot_hash m (ch c) = 0" "slot_hash m (ch d) = n"
      by auto
    then have "slot_hash n (ch c) = 0" "slot_hash n (ch d) = 0"
      unfolding m_def n_def slot_hash_pow2
      by (metis le_SucI le_refl mod_0 mod_mod_pow2, metis le_SucI le_refl mod_self mod_mod_pow2)
    with cd(1,2) hash(1) lc have "c = d" by (metis in_set_conv_nth)
    with cd(3,4) pos show False by simp
  qed
  ultimately show thesis
    by (intro that[of s']) (simp_all add: s'_def)
qed

text \<open>Registration succeeds unless all \<open>2 ^ 24\<close> slots are taken.\<close>

lemma register_ok:
  assumes wf: "hs_wf ch s" and nf: "\<not> hs_full s" and c: "c \<notin> hs_live s"
  obtains h s' where "skynet_handle_register ch c s = Some (h, s')" "hs_wf (ch(c := h)) s'"
    "hs_live s' = insert c (hs_live s)" "\<forall>d \<in> hs_live s. ch d \<noteq> h"
    "hs_name_cap s' = hs_name_cap s" "hs_name_count s' = hs_name_count s" "hs_name s' = hs_name s"
    "hs_harbor s' = hs_harbor s"
proof (cases "free_round s")
  case (Some i)
  show thesis by (rule that[OF register_free[OF wf Some c]]) simp_all
next
  case None
  have "hs_slot_size s < 2 ^ 24"
  proof -
    obtain k where k: "k \<le> 24" "hs_slot_size s = 2 ^ k" using wf by (auto simp: hs_wf_def)
    have "k \<noteq> 24" using nf free_round_None[OF wf None] k by (auto simp: hs_full_def)
    with k(1) have "k < 24" by simp
    then show ?thesis unfolding k(2) by (simp only: pow2_less_iff)
  qed
  then obtain s1 where s1: "expand_slots ch s = Some s1" "hs_wf ch s1" "hs_live s1 = hs_live s"
    "\<exists>j < hs_slot_size s1. hs_slot s1 ! j = None" and fr: "hs_harbor s1 = hs_harbor s"
    "hs_name_cap s1 = hs_name_cap s" "hs_name_count s1 = hs_name_count s" "hs_name s1 = hs_name s"
    by (rule expand_slots_ok[OF wf None])
  from s1(2,4) obtain i where i: "free_round s1 = Some i" by (metis free_round_exists)
  have "c \<notin> hs_live s1" using c s1(3) by simp
  note reg = register_free[OF s1(2) i this]
  have "skynet_handle_register ch c s = skynet_handle_register ch c s1"
    using None s1(1) by (subst skynet_handle_register.simps) simp
  with reg(1) have reg1: "skynet_handle_register ch c s = Some (probe s1 i OR hs_harbor s1,
      s1\<lparr>hs_slot := (hs_slot s1)[slot_hash (hs_slot_size s1) (probe s1 i) := Some c],
         hs_handle_index := probe s1 i + 1\<rparr>)" by simp
  show thesis
    by (rule that[OF reg1 reg(2)]) (use reg(3,4) s1(3) fr in simp_all)
qed

subsection \<open>Removing\<close>

lemma hs_wf_clear:
  assumes "hs_wf ch s"
  shows "hs_wf ch (s\<lparr>hs_slot := (hs_slot s)[slot_hash (hs_slot_size s) h := None]\<rparr>)"
  using assms by (simp add: hs_wf_def nth_update_None)

lemma hs_live_clear:
  assumes wf: "hs_wf ch s" and "handle_find ch s h = Some c"
  shows "hs_live (s\<lparr>hs_slot := (hs_slot s)[slot_hash (hs_slot_size s) h := None]\<rparr>) = hs_live s - {c}"
proof -
  from assms have c: "c \<in> hs_live s" "ch c = h" by (simp_all add: handle_find_iff)
  let ?s = "s\<lparr>hs_slot := (hs_slot s)[slot_hash (hs_slot_size s) h := None]\<rparr>"
  have hit: "hs_slot s ! slot_hash (hs_slot_size s) h = Some c" using hs_liveE[OF wf c(1)] c(2) by simp
  have len: "length (hs_slot s) = hs_slot_size s" using wf by (simp add: hs_wf_def)
  have "d \<in> hs_live ?s \<longleftrightarrow> d \<in> hs_live s \<and> d \<noteq> c" for d
  proof
    assume "d \<in> hs_live ?s"
    then obtain j where j: "j < hs_slot_size s" "(hs_slot s)[slot_hash (hs_slot_size s) h := None] ! j = Some d"
      using len by (auto simp: hs_live_def in_set_conv_nth)
    then have "j \<noteq> slot_hash (hs_slot_size s) h" "hs_slot s ! j = Some d"
      using len by (auto simp: nth_update_None)
    with j len wf c show "d \<in> hs_live s \<and> d \<noteq> c"
      by (auto simp: hs_live_def hs_wf_def in_set_conv_nth)
  next
    assume d: "d \<in> hs_live s \<and> d \<noteq> c"
    then have "hs_slot s ! slot_hash (hs_slot_size s) (ch d) = Some d" using hs_liveE[OF wf] by blast
    moreover from this hit d have "slot_hash (hs_slot_size s) (ch d) \<noteq> slot_hash (hs_slot_size s) h" by auto
    ultimately show "d \<in> hs_live ?s"
      using slot_hash_less[OF wf, of "ch d"] len
      by (auto simp: hs_live_def in_set_conv_nth intro!: exI[of _ "slot_hash (hs_slot_size s) (ch d)"])
  qed
  then show ?thesis by blast
qed

section \<open>The name array is a sorted association list\<close>

definition hs_names :: "handle_storage \<Rightarrow> handle_name list" where
  "hs_names s = map the (take (hs_name_count s) (hs_name s))"

definition names_ok :: "handle_storage \<Rightarrow> bool" where
  "names_ok s \<longleftrightarrow>
     hs_name_count s \<le> hs_name_cap s \<and> length (hs_name s) = hs_name_cap s \<and> 0 < hs_name_cap s \<and>
     (\<forall>i < hs_name_count s. hs_name s ! i \<noteq> None) \<and>
     sorted_wrt (<) (map hn_name (hs_names s))"

text \<open>The abstract content: the handle a name stands for.\<close>

definition name_map :: "handle_storage \<Rightarrow> string \<Rightarrow> u32 option" where
  "name_map s = map_of (map (\<lambda>n. (hn_name n, hn_handle n)) (hs_names s))"

lemma names_ok_init [simp]: "names_ok (skynet_handle_init harbor)"
  by (simp add: names_ok_def skynet_handle_init_def hs_names_def)

lemma length_hs_names: "names_ok s \<Longrightarrow> length (hs_names s) = hs_name_count s"
  by (simp add: names_ok_def hs_names_def)

lemma hs_names_nth:
  "names_ok s \<Longrightarrow> i < hs_name_count s \<Longrightarrow> hs_name s ! i = Some (hs_names s ! i)"
  by (simp add: names_ok_def hs_names_def)

subsection \<open>Binary search\<close>

lemma name_search_sound:
  assumes cells: "\<forall>i < length ns. names ! i = Some (ns ! i)" "length ns \<le> length names"
    and srt: "sorted_wrt (<) (map hn_name ns)"
  shows "0 \<le> bg \<Longrightarrow> bg \<le> en + 1 \<Longrightarrow> en < int (length ns) \<Longrightarrow>
     \<forall>i < nat bg. hn_name (ns ! i) < name \<Longrightarrow>
     \<forall>i < length ns. en < int i \<longrightarrow> name < hn_name (ns ! i) \<Longrightarrow>
     case name_search names name bg en of
       None \<Rightarrow> False
     | Some (Inl n) \<Rightarrow> n \<in> set ns \<and> hn_name n = name
     | Some (Inr j) \<Rightarrow> j \<le> length ns \<and> (\<forall>i < j. hn_name (ns ! i) < name) \<and>
                       (\<forall>i < length ns. j \<le> i \<longrightarrow> name < hn_name (ns ! i))"
proof (induction "nat (en + 1 - bg)" arbitrary: bg en rule: less_induct)
  case less
  show ?case
  proof (cases "bg \<le> en")
    case False
    with less.prems have "bg = en + 1" by simp
    with less.prems show ?thesis by (subst name_search.simps) (auto simp: nat_le_iff)
  next
    case True
    define mid where "mid = (bg + en) div 2"
    have m: "bg \<le> mid" "mid \<le> en" "0 \<le> mid" "nat mid < length ns"
      using True less.prems by (auto simp: mid_def)
    have cell: "read_cell names (nat mid) = Some (ns ! nat mid)"
      using cells m(4) by (simp add: read_cell_def)
    have mono: "hn_name (ns ! i) < hn_name (ns ! j)" if "i < j" "j < length ns" for i j
      using sorted_wrt_nth_less[OF srt] that by simp
    have unf: "name_search names name bg en =
        (if hn_name (ns ! nat mid) = name then Some (Inl (ns ! nat mid))
         else if hn_name (ns ! nat mid) < name then name_search names name (mid + 1) en
         else name_search names name bg (mid - 1))"
      using True cell by (subst name_search.simps) (simp add: mid_def)
    consider (eq) "hn_name (ns ! nat mid) = name" | (lt) "hn_name (ns ! nat mid) < name"
      | (gt) "name < hn_name (ns ! nat mid)" by (rule linorder_cases)
    then show ?thesis
    proof cases
      case eq
      with unf m show ?thesis by simp
    next
      case lt
      have "\<forall>i < nat (mid + 1). hn_name (ns ! i) < name"
      proof (intro allI impI)
        fix i assume "i < nat (mid + 1)"
        then have "i = nat mid \<or> i < nat mid" using m(3) by linarith
        with lt mono[of i "nat mid"] m(4) show "hn_name (ns ! i) < name" by auto
      qed
      moreover from lt have "name_search names name bg en = name_search names name (mid + 1) en"
        using unf by auto
      ultimately show ?thesis using less.hyps[of en "mid + 1"] less.prems m True by simp
    next
      case gt
      have "\<forall>i < length ns. mid - 1 < int i \<longrightarrow> name < hn_name (ns ! i)"
      proof (intro allI impI)
        fix i assume i: "i < length ns" "mid - 1 < int i"
        then have "i = nat mid \<or> nat mid < i" using m(3) by linarith
        with gt mono[of "nat mid" i] i show "name < hn_name (ns ! i)" by auto
      qed
      moreover from gt have "name_search names name bg en = name_search names name bg (mid - 1)"
        using unf by auto
      ultimately show ?thesis using less.hyps[of "mid - 1" bg] less.prems m True by simp
    qed
  qed
qed

lemma names_search:
  assumes ok: "names_ok s"
  obtains n where "name_search (hs_name s) name 0 (int (hs_name_count s) - 1) = Some (Inl n)"
      "n \<in> set (hs_names s)" "hn_name n = name"
  | j where "name_search (hs_name s) name 0 (int (hs_name_count s) - 1) = Some (Inr j)"
      "j \<le> length (hs_names s)" "\<forall>n \<in> set (take j (hs_names s)). hn_name n < name"
      "\<forall>n \<in> set (drop j (hs_names s)). name < hn_name n"
proof -
  let ?r = "name_search (hs_name s) name 0 (int (hs_name_count s) - 1)"
  have spec: "case ?r of None \<Rightarrow> False
     | Some (Inl n) \<Rightarrow> n \<in> set (hs_names s) \<and> hn_name n = name
     | Some (Inr j) \<Rightarrow> j \<le> length (hs_names s) \<and> (\<forall>i < j. hn_name (hs_names s ! i) < name) \<and>
                       (\<forall>i < length (hs_names s). j \<le> i \<longrightarrow> name < hn_name (hs_names s ! i))"
    using ok hs_names_nth[OF ok] length_hs_names[OF ok]
    by (intro name_search_sound) (auto simp: names_ok_def)
  show thesis
  proof (cases ?r)
    case None
    with spec show thesis by simp
  next
    case (Some r)
    show thesis
    proof (cases r)
      case (Inl n)
      with Some spec that(1) show thesis by simp
    next
      case (Inr j)
      with Some spec have *: "j \<le> length (hs_names s)"
        "\<forall>i < j. hn_name (hs_names s ! i) < name"
        "\<forall>i < length (hs_names s). j \<le> i \<longrightarrow> name < hn_name (hs_names s ! i)" by simp_all
      from * have "\<forall>n \<in> set (take j (hs_names s)). hn_name n < name"
        "\<forall>n \<in> set (drop j (hs_names s)). name < hn_name n"
        by (auto simp: in_set_conv_nth)
      with Some Inr *(1) that(2) show thesis by simp
    qed
  qed
qed

subsection \<open>Insertion\<close>

lemma names_repI:
  assumes "length (hs_name s) = hs_name_cap s" "length ns = hs_name_count s"
    "hs_name_count s \<le> hs_name_cap s" "0 < hs_name_cap s"
    "\<And>i. i < length ns \<Longrightarrow> hs_name s ! i = Some (ns ! i)" "sorted_wrt (<) (map hn_name ns)"
  shows "names_ok s \<and> hs_names s = ns"
proof -
  have "hs_names s = ns" using assms by (intro nth_equalityI) (auto simp: hs_names_def)
  with assms show ?thesis by (simp add: names_ok_def)
qed

lemma length_shift_names [simp]: "length (shift_names before i xs) = length xs"
  by (induction before i xs rule: shift_names.induct) simp_all

lemma shift_names_nth:
  "i < length xs \<Longrightarrow> before \<le> i \<Longrightarrow> p < length xs \<Longrightarrow>
     shift_names before i xs ! p = (if before < p \<and> p \<le> i then xs ! (p - 1) else xs ! p)"
proof (induction before i xs arbitrary: p rule: shift_names.induct)
  case (2 before i xs)
  show ?case
  proof (cases "before < Suc i")
    case True
    with 2 show ?thesis by (auto simp: nth_list_update)
  next
    case False
    with 2 show ?thesis by auto
  qed
qed auto

lemma nth_insert_at:
  "j \<le> length xs \<Longrightarrow> i < Suc (length xs) \<Longrightarrow>
     (take j xs @ x # drop j xs) ! i = (if i < j then xs ! i else if i = j then x else xs ! (i - 1))"
  by (auto simp: nth_append nth_Cons' min_def)

lemma insert_name_before_ok:
  assumes ok: "names_ok s" and j: "j \<le> length (hs_names s)"
    and lo: "\<forall>n \<in> set (take j (hs_names s)). hn_name n < name"
    and hi: "\<forall>n \<in> set (drop j (hs_names s)). name < hn_name n"
    and cap: "2 * hs_name_count s \<le> MAX_SLOT_SIZE"
  obtains s' where "insert_name_before s name h j = Some s'" "names_ok s'"
    "hs_names s' = take j (hs_names s) @ \<lparr>hn_name = name, hn_handle = h\<rparr> # drop j (hs_names s)"
    "hs_slot s' = hs_slot s" "hs_slot_size s' = hs_slot_size s" "hs_harbor s' = hs_harbor s"
    "hs_handle_index s' = hs_handle_index s"
proof -
  let ?ns = "hs_names s" and ?e = "\<lparr>hn_name = name, hn_handle = h\<rparr>"
  let ?n' = "take j ?ns @ ?e # drop j ?ns"
  note cnt = length_hs_names[OF ok]
  have b: "hs_name_count s \<le> hs_name_cap s" "length (hs_name s) = hs_name_cap s" "0 < hs_name_cap s"
    using ok by (auto simp: names_ok_def)
  have "sorted_wrt (<) (map hn_name (take j ?ns @ drop j ?ns))"
    using ok by (simp add: names_ok_def)
  then have "sorted_wrt (<) (map hn_name (take j ?ns)) \<and> sorted_wrt (<) (map hn_name (drop j ?ns)) \<and>
      (\<forall>x \<in> set (take j ?ns). \<forall>y \<in> set (drop j ?ns). hn_name x < hn_name y)"
    unfolding map_append sorted_wrt_append by auto
  with lo hi have srt: "sorted_wrt (<) (map hn_name ?n')"
    by (auto simp: sorted_wrt_append)
  show thesis
  proof (cases "hs_name_cap s \<le> hs_name_count s")
    case True
    with b have full: "hs_name_cap s = hs_name_count s" by simp
    let ?c = "(take j (hs_name s) @ [None] @ take (hs_name_count s - j) (drop j (hs_name s)))
               @ replicate (hs_name_cap s * 2 - length (take j (hs_name s) @ [None] @
                   take (hs_name_count s - j) (drop j (hs_name s)))) None"
    let ?s = "s\<lparr>hs_name_cap := hs_name_cap s * 2, hs_name := ?c[j := Some ?e],
                hs_name_count := hs_name_count s + 1\<rparr>"
    have len: "length ?c = hs_name_cap s * 2" using b full j cnt by simp
    have "insert_name_before s name h j = Some ?s"
      using True full cap j cnt len by (simp add: insert_name_before_def Let_def)
    moreover have "names_ok ?s \<and> hs_names ?s = ?n'"
    proof (rule names_repI)
      fix i assume i: "i < length ?n'"
      then show "hs_name ?s ! i = Some (?n' ! i)"
        using j cnt b full hs_names_nth[OF ok]
        by (auto simp: nth_insert_at nth_list_update nth_append nth_Cons')
    qed (use b full j cnt len srt in simp_all)
    ultimately show thesis by (intro that[of ?s]) simp_all
  next
    case False
    let ?c = "shift_names j (hs_name_count s) (hs_name s)"
    let ?s = "s\<lparr>hs_name := ?c[j := Some ?e], hs_name_count := hs_name_count s + 1\<rparr>"
    have "insert_name_before s name h j = Some ?s"
      using False j cnt b by (simp add: insert_name_before_def)
    moreover have "names_ok ?s \<and> hs_names ?s = ?n'"
    proof (rule names_repI)
      fix i assume i: "i < length ?n'"
      then show "hs_name ?s ! i = Some (?n' ! i)"
        using j cnt b False hs_names_nth[OF ok]
        by (auto simp: nth_insert_at nth_list_update shift_names_nth)
    qed (use b False j cnt srt in simp_all)
    ultimately show thesis by (intro that[of ?s]) simp_all
  qed
qed

lemma name_map_None_iff: "name_map s name = None \<longleftrightarrow> (\<forall>n \<in> set (hs_names s). hn_name n \<noteq> name)"
  by (force simp: name_map_def map_of_eq_None_iff)

lemma name_map_hit:
  assumes "names_ok s" "n \<in> set (hs_names s)"
  shows "name_map s (hn_name n) = Some (hn_handle n)"
proof -
  have "distinct (map hn_name (hs_names s))"
    using assms(1) by (auto simp: names_ok_def strict_sorted_iff)
  then have "distinct (map fst (map (\<lambda>n. (hn_name n, hn_handle n)) (hs_names s)))"
    by (simp add: comp_def)
  then show ?thesis using assms(2) unfolding name_map_def by (force intro: map_of_is_SomeI)
qed

lemma findname_ok:
  assumes "names_ok s"
  shows "skynet_handle_findname s name = Some (case name_map s name of None \<Rightarrow> 0 | Some h \<Rightarrow> h)"
proof (cases rule: names_search[OF assms, of name])
  case (1 n)
  with name_map_hit[OF assms 1(2)] show ?thesis by (simp add: skynet_handle_findname_def)
next
  case (2 j)
  have "hn_name n \<noteq> name" if "n \<in> set (hs_names s)" for n
    using that 2(3,4) by (metis append_take_drop_id in_set_conv_decomp less_irrefl set_append UnE)
  then have "name_map s name = None" by (simp add: name_map_None_iff)
  with 2 show ?thesis by (simp add: skynet_handle_findname_def)
qed

lemma name_map_insert:
  assumes "hs_names s' = take j (hs_names s) @ \<lparr>hn_name = name, hn_handle = h\<rparr> # drop j (hs_names s)"
    "\<forall>n \<in> set (take j (hs_names s)). hn_name n < name"
  shows "name_map s' = (name_map s)(name \<mapsto> h)"
proof
  fix x
  let ?f = "\<lambda>n. (hn_name n, hn_handle n)"
  have "map_of (map ?f (take j (hs_names s))) name = None"
    using assms(2) by (auto simp: map_of_eq_None_iff)
  moreover have "name_map s x = map_of (map ?f (take j (hs_names s) @ drop j (hs_names s))) x"
    by (simp add: name_map_def)
  ultimately show "name_map s' x = ((name_map s)(name \<mapsto> h)) x"
    unfolding name_map_def assms(1) by (auto simp: map_add_def simp del: append_take_drop_id split: option.splits)
qed

lemma namehandle_taken:
  assumes "names_ok s" "name_map s name \<noteq> None"
  shows "skynet_handle_namehandle h name s = Some (None, s)"
proof (cases rule: names_search[OF assms(1), of name])
  case (1 n)
  then show ?thesis by (simp add: skynet_handle_namehandle_def insert_name_def)
next
  case (2 j)
  have "hn_name n \<noteq> name" if "n \<in> set (hs_names s)" for n
    using that 2(3,4) by (metis append_take_drop_id in_set_conv_decomp less_irrefl set_append UnE)
  with assms(2) show ?thesis by (simp add: name_map_None_iff)
qed

lemma namehandle_new:
  assumes ok: "names_ok s" and new: "name_map s name = None"
    and cap: "2 * hs_name_count s \<le> MAX_SLOT_SIZE"
  obtains s' where "skynet_handle_namehandle h name s = Some (Some name, s')" "names_ok s'"
    "name_map s' = (name_map s)(name \<mapsto> h)" "hs_name_count s' = Suc (hs_name_count s)"
    "hs_slot s' = hs_slot s" "hs_slot_size s' = hs_slot_size s" "hs_harbor s' = hs_harbor s"
    "hs_handle_index s' = hs_handle_index s"
proof (cases rule: names_search[OF ok, of name])
  case (1 n)
  with new show thesis by (auto simp: name_map_None_iff)
next
  case (2 j)
  obtain s' where s': "insert_name_before s name h j = Some s'" "names_ok s'"
    "hs_names s' = take j (hs_names s) @ \<lparr>hn_name = name, hn_handle = h\<rparr> # drop j (hs_names s)"
    "hs_slot s' = hs_slot s" "hs_slot_size s' = hs_slot_size s" "hs_harbor s' = hs_harbor s"
    "hs_handle_index s' = hs_handle_index s"
    by (rule insert_name_before_ok[OF ok 2(2-4) cap])
  have "length (hs_names s') = Suc (length (hs_names s))"
    using s'(3) 2(2) by simp
  with length_hs_names[OF s'(2)] length_hs_names[OF ok]
  have "hs_name_count s' = Suc (hs_name_count s)" by simp
  with s' 2 name_map_insert[OF s'(3) 2(3)] show thesis
    by (intro that[of s']) (simp_all add: skynet_handle_namehandle_def insert_name_def)
qed

subsection \<open>Compaction\<close>

lemma compact_names_ok:
  assumes "length ns \<le> length names" "i \<le> length ns"
    and "j = length (filter (\<lambda>n. hn_handle n \<noteq> h) (take i ns))"
    and "\<forall>p < j. names ! p = Some (filter (\<lambda>n. hn_handle n \<noteq> h) (take i ns) ! p)"
    and "\<forall>p < length ns. i \<le> p \<longrightarrow> names ! p = Some (ns ! p)"
  shows "\<exists>names'. compact_names h (length ns) i j names =
            Some (length (filter (\<lambda>n. hn_handle n \<noteq> h) ns), names') \<and>
          length names' = length names \<and>
          (\<forall>p < length (filter (\<lambda>n. hn_handle n \<noteq> h) ns).
             names' ! p = Some (filter (\<lambda>n. hn_handle n \<noteq> h) ns ! p))"
  using assms
proof (induction "length ns - i" arbitrary: i j names)
  case 0
  then have "take i ns = ns" "i = length ns" by simp_all
  with 0 show ?case by (subst compact_names.simps) simp
next
  case (Suc d)
  let ?P = "\<lambda>n. hn_handle n \<noteq> h"
  have i: "i < length ns" using Suc.hyps(2) by simp
  have cell: "read_cell names i = Some (ns ! i)"
    using i Suc.prems by simp
  have tk: "take (Suc i) ns = take i ns @ [ns ! i]" by (simp add: i take_Suc_conv_app_nth)
  have ji: "j \<le> i" using Suc.prems(3) length_filter_le[of ?P "take i ns"] i by simp
  show ?case
  proof (cases "hn_handle (ns ! i) = h")
    case True
    have "compact_names h (length ns) i j names = compact_names h (length ns) (i + 1) j names"
      using i cell True by (subst compact_names.simps) simp
    moreover have "filter ?P (take (Suc i) ns) = filter ?P (take i ns)" using tk True by simp
    ultimately show ?thesis using Suc.hyps(1)[of "Suc i" names j] Suc.hyps(2) Suc.prems i by simp
  next
    case False
    define names1 where "names1 = (if i \<noteq> j then names[j := Some (ns ! i)] else names)"
    have "compact_names h (length ns) i j names = compact_names h (length ns) (i + 1) (j + 1) names1"
      using i cell False by (subst compact_names.simps) (simp add: names1_def)
    moreover have f: "filter ?P (take (Suc i) ns) = filter ?P (take i ns) @ [ns ! i]" using tk False by simp
    moreover have "\<forall>p < Suc j. names1 ! p = Some (filter ?P (take (Suc i) ns) ! p)"
      using Suc.prems ji i by (auto simp: names1_def f nth_append nth_list_update less_Suc_eq)
    moreover have "\<forall>p < length ns. Suc i \<le> p \<longrightarrow> names1 ! p = Some (ns ! p)"
      using Suc.prems ji by (auto simp: names1_def nth_list_update)
    moreover have "length names1 = length names" by (simp add: names1_def)
    ultimately show ?thesis
      using Suc.hyps(1)[of "Suc i" names1 "Suc j"] Suc.hyps(2) Suc.prems i by simp
  qed
qed

text \<open>
  Retiring a registered handle takes its context out of the table and its names out of
  the name array.
\<close>

lemma handle_remove_ok:
  assumes wf: "hs_wf ch s" and ok: "names_ok s" and c: "handle_find ch s h = Some c"
  obtains s' where "handle_remove ch h s = Some (Some c, s')" "hs_wf ch s'" "names_ok s'"
    "hs_live s' = hs_live s - {c}"
    "hs_names s' = filter (\<lambda>n. hn_handle n \<noteq> h) (hs_names s)"
    "hs_harbor s' = hs_harbor s"
proof -
  let ?ns = "hs_names s" and ?fs = "filter (\<lambda>n. hn_handle n \<noteq> h) (hs_names s)"
  have b: "length (hs_name s) = hs_name_cap s" "hs_name_count s \<le> hs_name_cap s" "0 < hs_name_cap s"
    using ok by (auto simp: names_ok_def)
  note cnt = length_hs_names[OF ok]
  obtain names' where n': "compact_names h (hs_name_count s) 0 0 (hs_name s) = Some (length ?fs, names')"
    "length names' = length (hs_name s)" "\<forall>p < length ?fs. names' ! p = Some (?fs ! p)"
    using compact_names_ok[of ?ns "hs_name s" 0 0 h] cnt b hs_names_nth[OF ok] by auto
  let ?s0 = "s\<lparr>hs_slot := (hs_slot s)[slot_hash (hs_slot_size s) h := None]\<rparr>"
  let ?s = "?s0\<lparr>hs_name_count := length ?fs, hs_name := names'\<rparr>"
  have "handle_remove ch h s = Some (Some c, ?s)"
    using c n'(1) by (simp add: handle_remove_def)
  moreover have "hs_wf ch ?s" using hs_wf_clear[OF wf, of h] by (simp add: hs_wf_def)
  moreover have "hs_live ?s = hs_live s - {c}"
    using hs_live_clear[OF wf c] by (simp add: hs_live_def)
  moreover have "names_ok ?s \<and> hs_names ?s = ?fs"
  proof (rule names_repI)
    show "sorted_wrt (<) (map hn_name ?fs)"
      using ok unfolding names_ok_def sorted_wrt_map by (auto intro: sorted_wrt_filter)
    show "hs_name_count ?s \<le> hs_name_cap ?s"
      using b cnt length_filter_le[of "\<lambda>n. hn_handle n \<noteq> h" ?ns] by simp
  qed (use n' b in simp_all)
  ultimately show thesis by (intro that[of ?s]) simp_all
qed

section \<open>The table is a registry\<close>

text \<open>
  The state of the table and the handle fields of the contexts. \<open>skynet_context_new\<close> stores
  the handle that \<open>skynet_handle_register\<close> returns in the context.
\<close>

type_synonym handle_env = "(nat \<Rightarrow> u32) \<times> handle_storage"

definition register_context :: "nat \<Rightarrow> handle_env \<Rightarrow> (u32 \<times> handle_env) option" where
  "register_context ctx e = do {
     r \<leftarrow> skynet_handle_register ((fst e)(ctx := 0)) ctx (snd e);
     Some (fst r, (fst e)(ctx := fst r), snd r)
   }"

definition retire_context :: "u32 \<Rightarrow> handle_env \<Rightarrow> (nat option \<times> handle_env) option" where
  "retire_context h e = do {
     r \<leftarrow> handle_remove (fst e) h (snd e);
     Some (fst r, fst e, snd r)
   }"

definition env_find :: "handle_env \<Rightarrow> u32 \<Rightarrow> nat option" where
  "env_find e = handle_find (fst e) (snd e)"

definition env_ok :: "handle_env \<Rightarrow> bool" where
  "env_ok e \<longleftrightarrow> hs_wf (fst e) (snd e) \<and> names_ok (snd e)"

definition env_room :: "handle_env \<Rightarrow> nat" where
  "env_room e = 2 ^ 24 - card (hs_live (snd e))"

lemma hs_wf_cong: "(\<And>c. c \<in> hs_live s \<Longrightarrow> ch' c = ch c) \<Longrightarrow> hs_wf ch s \<Longrightarrow> hs_wf ch' s"
  unfolding hs_wf_def hs_live_def by (metis mem_Collect_eq nth_mem)

lemma finite_hs_live [simp]: "finite (hs_live s)"
proof -
  have "hs_live s \<subseteq> the ` set (hs_slot s)" by (force simp: hs_live_def)
  then show ?thesis by (rule finite_subset) simp
qed

lemma hs_full_card: "hs_wf ch s \<Longrightarrow> hs_full s \<Longrightarrow> card (hs_live s) = 2 ^ 24"
proof -
  assume wf: "hs_wf ch s" and full: "hs_full s"
  let ?g = "\<lambda>i. the (hs_slot s ! i)" and ?n = "hs_slot_size s"
  have g: "i < ?n \<Longrightarrow> hs_slot s ! i = Some (?g i)" for i using full by (simp add: hs_full_def)
  have len: "length (hs_slot s) = ?n" using wf by (simp add: hs_wf_def)
  have "inj_on ?g {..<?n}"
    using wf g by (intro inj_onI) (metis hs_wf_def lessThan_iff)
  moreover have "?g ` {..<?n} = hs_live s"
    using g len by (force simp: hs_live_def in_set_conv_nth image_iff)
  ultimately have "card (hs_live s) = ?n" by (metis card_image card_lessThan)
  with full show ?thesis by (simp only: hs_full_def)
qed

lemma ran_handle_find: "hs_wf ch s \<Longrightarrow> ran (handle_find ch s) = hs_live s"
  by (auto simp: ran_def handle_find_iff)

lemma register_context_ok:
  assumes "env_ok e" "c \<notin> hs_live (snd e)" "0 < env_room e"
  obtains h s' where "register_context c e = Some (h, (fst e)(c := h), s')"
    "env_ok ((fst e)(c := h), s')" "hs_live s' = insert c (hs_live (snd e))"
    "handle_find (fst e) (snd e) h = None" "name_map s' = name_map (snd e)"
proof -
  obtain ch s where e: "e = (ch, s)" by (cases e)
  let ?ch = "ch(c := 0)"
  have wf: "hs_wf ?ch s" using assms e by (intro hs_wf_cong[of s ?ch ch]) (auto simp: env_ok_def)
  have wf': "hs_wf ch s" using assms e by (simp add: env_ok_def)
  have "\<not> hs_full s" using hs_full_card[OF wf] assms(3) e by (auto simp: env_room_def)
  moreover have c: "c \<notin> hs_live s" using assms(2) e by simp
  ultimately obtain h s' where r: "skynet_handle_register ?ch c s = Some (h, s')"
    "hs_wf (?ch(c := h)) s'" "hs_live s' = insert c (hs_live s)" "\<forall>d \<in> hs_live s. ?ch d \<noteq> h"
    "hs_name_cap s' = hs_name_cap s" "hs_name_count s' = hs_name_count s" "hs_name s' = hs_name s"
    by (rule register_ok[OF wf]) blast+
  have "handle_find ch s h = None"
  proof (rule ccontr)
    assume "handle_find ch s h \<noteq> None"
    then obtain d where "d \<in> hs_live s" "ch d = h" using handle_find_iff[OF wf'] by blast
    with r(4) c show False by (metis fun_upd_other)
  qed
  moreover have "hs_names s' = hs_names s" using r by (simp add: hs_names_def)
  moreover from this have "names_ok s'" using assms(1) r e by (simp add: names_ok_def env_ok_def)
  ultimately show thesis
    using r e by (intro that[of h s']) (simp_all add: register_context_def env_ok_def name_map_def)
qed

lemma retire_context_ok:
  assumes "env_ok e"
  obtains s' where "retire_context h e = Some (env_find e h, fst e, s')" "env_ok (fst e, s')"
    "handle_find (fst e) s' = (handle_find (fst e) (snd e))(h := None)"
    "hs_live s' \<subseteq> hs_live (snd e)"
    "env_find e h \<noteq> None \<Longrightarrow> hs_names s' = filter (\<lambda>n. hn_handle n \<noteq> h) (hs_names (snd e))"
proof -
  have wf: "hs_wf (fst e) (snd e)" and ok: "names_ok (snd e)" using assms by (simp_all add: env_ok_def)
  show thesis
  proof (cases "handle_find (fst e) (snd e) h")
    case None
    then show thesis using assms
      by (intro that[of "snd e"]) (auto simp: retire_context_def handle_remove_def env_find_def)
  next
    case (Some c)
    then obtain s' where s': "handle_remove (fst e) h (snd e) = Some (Some c, s')" "hs_wf (fst e) s'" "names_ok s'"
      "hs_live s' = hs_live (snd e) - {c}"
      "hs_names s' = filter (\<lambda>n. hn_handle n \<noteq> h) (hs_names (snd e))"
      by (rule handle_remove_ok[OF wf ok])
    have "handle_find (fst e) s' k = Some d \<longleftrightarrow> ((handle_find (fst e) (snd e))(h := None)) k = Some d" for k d
    proof -
      have "c \<in> hs_live (snd e)" "fst e c = h" using Some handle_find_iff[OF wf] by blast+
      with hs_live_inj[OF wf] show ?thesis
        using handle_find_iff[OF s'(2), of k d] handle_find_iff[OF wf, of k d] s'(4) by auto
    qed
    then have "handle_find (fst e) s' = (handle_find (fst e) (snd e))(h := None)" by (rule map_eqI)
    then show thesis using s' Some
      by (intro that[of s']) (auto simp: retire_context_def env_find_def env_ok_def)
  qed
qed

interpretation ht: registry env_find register_context retire_context env_ok env_room
proof unfold_locales
  fix e :: handle_env and c
  assume ok: "env_ok e" and c: "c \<notin> ran (env_find e)" and room: "0 < env_room e"
  have wf: "hs_wf (fst e) (snd e)" using ok by (simp add: env_ok_def)
  then have c': "c \<notin> hs_live (snd e)" using c by (simp add: env_find_def ran_handle_find)
  obtain h s' where r: "register_context c e = Some (h, (fst e)(c := h), s')"
    "env_ok ((fst e)(c := h), s')" "hs_live s' = insert c (hs_live (snd e))"
    "handle_find (fst e) (snd e) h = None"
    by (rule register_context_ok[OF ok c' room])
  have wf': "hs_wf ((fst e)(c := h)) s'" using r(2) by (simp add: env_ok_def)
  have "env_find ((fst e)(c := h), s') k = Some d \<longleftrightarrow> ((env_find e)(h \<mapsto> c)) k = Some d" for k d
    using r(3,4) c' handle_find_iff[OF wf', of k d] handle_find_iff[OF wf, of k d]
      handle_find_iff[OF wf, of h d]
    by (auto simp: env_find_def)
  then have "env_find ((fst e)(c := h), s') = (env_find e)(h \<mapsto> c)"
    by (rule map_eqI)
  moreover have "env_room e \<le> Suc (env_room ((fst e)(c := h), s'))"
    using r(3) c' by (simp add: env_room_def)
  ultimately show "\<exists>k s'. register_context c e = Some (k, s') \<and> env_ok s' \<and> env_find e k = None \<and>
      env_find s' = (env_find e)(k \<mapsto> c) \<and> env_room e \<le> Suc (env_room s')"
    using r by (auto simp: env_find_def)
next
  fix e :: handle_env and h
  assume ok: "env_ok e"
  obtain s' where r: "retire_context h e = Some (env_find e h, fst e, s')" "env_ok (fst e, s')"
    "handle_find (fst e) s' = (handle_find (fst e) (snd e))(h := None)"
    "hs_live s' \<subseteq> hs_live (snd e)"
    by (rule retire_context_ok[OF ok, of h])
  have "env_room e \<le> env_room (fst e, s')"
    unfolding env_room_def using card_mono[OF _ r(4)] by simp
  with r show "\<exists>s'. retire_context h e = Some (env_find e h, s') \<and> env_ok s' \<and>
      env_find s' = (env_find e)(h := None) \<and> env_room e \<le> env_room s'"
    by (auto simp: env_find_def)
qed

lemma env_ok_init [simp]: "env_ok (ch, skynet_handle_init harbor)"
  by (simp add: env_ok_def)

lemma env_find_init [simp]: "env_find (ch, skynet_handle_init harbor) = (\<lambda>_. None)"
  by (intro map_eqI) (simp add: env_find_def handle_find_iff[OF hs_wf_init])

lemma name_count_init [simp]: "hs_name_count (skynet_handle_init harbor) = 0"
  by (simp add: skynet_handle_init_def)

lemma env_room_init [simp]: "env_room (ch, skynet_handle_init harbor) = 2 ^ 24"
  by (simp add: env_room_def)

section \<open>Properties\<close>

text \<open>
  C14. Any sequence of registrations of up to \<open>2 ^ 24\<close> distinct services and of retirements,
  on a fresh table, runs without a failed assertion and without a null slot read in the
  rehash; it ends in a well-formed table. Each handle issued is one no live service has, each
  retirement returns the service the handle stood for, and afterwards the lookup
  finds exactly the services registered and not retired, whatever rehashing took place.
\<close>

theorem handle_registry_run:
  assumes "distinct (reg_added ops)" "length (reg_added ops) \<le> 2 ^ 24"
  shows "\<exists>tr e. reg_run register_context retire_context ops (ch, skynet_handle_init harbor) = Some (tr, e) \<and>
                env_ok e \<and> reg_legal (\<lambda>_. None) tr \<and> env_find e = reg_after (\<lambda>_. None) tr"
  using ht.reg_run_ok[of "(ch, skynet_handle_init harbor)" ops] assms by simp

theorem handle_registry_run_witness:
  "\<exists>tr e. reg_run register_context retire_context
            [Reg_Add 10, Reg_Add 11, Reg_Add 12, Reg_Del 2, Reg_Add 13, Reg_Add 14, Reg_Del 7]
            (\<lambda>_. 0, skynet_handle_init 1) = Some (tr, e) \<and>
          env_ok e \<and> reg_legal (\<lambda>_. None) tr \<and> env_find e = reg_after (\<lambda>_. None) tr"
  by (rule handle_registry_run) simp_all

text \<open>
  C30. Naming: when the name is taken the call returns null and changes nothing; otherwise it
  returns the copy of the name, and from then on looking the name up gives the handle while
  every other lookup, the slots and the counters are as before. The array stays sorted
  through the growth of its buffer.
\<close>

theorem handle_name_lookup:
  assumes "names_ok s" "2 * hs_name_count s \<le> MAX_SLOT_SIZE"
  shows "\<exists>s'. names_ok s' \<and>
     skynet_handle_namehandle h name s =
       Some (if name_map s name = None then Some name else None, s') \<and>
     (name_map s name \<noteq> None \<and> s' = s \<or>
      name_map s name = None \<and> hs_slot s' = hs_slot s \<and> hs_handle_index s' = hs_handle_index s \<and>
      (\<forall>x. skynet_handle_findname s' x = (if x = name then Some h else skynet_handle_findname s x)))"
proof (cases "name_map s name")
  case None
  obtain s' where s': "skynet_handle_namehandle h name s = Some (Some name, s')" "names_ok s'"
    "name_map s' = (name_map s)(name \<mapsto> h)" "hs_slot s' = hs_slot s" "hs_handle_index s' = hs_handle_index s"
    by (rule namehandle_new[OF assms(1) None assms(2)])
  have "\<forall>x. skynet_handle_findname s' x = (if x = name then Some h else skynet_handle_findname s x)"
    by (simp add: findname_ok[OF s'(2)] findname_ok[OF assms(1)] s'(3))
  with s' None show ?thesis by (intro exI[of _ s']) simp
next
  case (Some h')
  with namehandle_taken[OF assms(1)] assms(1) show ?thesis by (intro exI[of _ s]) simp
qed

theorem handle_name_lookup_witness:
  "\<exists>s'. names_ok s' \<and>
     skynet_handle_namehandle 5 ''launcher'' (skynet_handle_init 1) =
       Some (if name_map (skynet_handle_init 1) ''launcher'' = None then Some ''launcher'' else None, s') \<and>
     (name_map (skynet_handle_init 1) ''launcher'' \<noteq> None \<and> s' = skynet_handle_init 1 \<or>
      name_map (skynet_handle_init 1) ''launcher'' = None \<and> hs_slot s' = hs_slot (skynet_handle_init 1) \<and>
      hs_handle_index s' = hs_handle_index (skynet_handle_init 1) \<and>
      (\<forall>x. skynet_handle_findname s' x =
        (if x = ''launcher'' then Some 5 else skynet_handle_findname (skynet_handle_init 1) x)))"
  by (rule handle_name_lookup) (simp_all add: MAX_SLOT_SIZE_def)

text \<open>
  C31. Retiring a registered handle takes the service out of the table and leaves every other
  handle as it was; a name of the retired handle is no longer found, and the names of
  other handles still are.
\<close>

theorem handle_retire_forgets:
  assumes "env_ok e" "env_find e h = Some c"
  shows "\<exists>e'. retire_context h e = Some (Some c, e') \<and> env_ok e' \<and>
     env_find e' = (env_find e)(h := None) \<and>
     (\<forall>x. skynet_handle_findname (snd e') x =
        (if name_map (snd e) x = Some h then Some 0 else skynet_handle_findname (snd e) x))"
proof -
  obtain s' where r: "retire_context h e = Some (env_find e h, fst e, s')" "env_ok (fst e, s')"
    "handle_find (fst e) s' = (handle_find (fst e) (snd e))(h := None)"
    "env_find e h \<noteq> None \<Longrightarrow> hs_names s' = filter (\<lambda>n. hn_handle n \<noteq> h) (hs_names (snd e))"
    by (rule retire_context_ok[OF assms(1), of h]) blast
  have ok: "names_ok (snd e)" "names_ok s'" using assms(1) r(2) by (simp_all add: env_ok_def)
  have nm: "hs_names s' = filter (\<lambda>n. hn_handle n \<noteq> h) (hs_names (snd e))" using r(4) assms(2) by simp
  have hit: "name_map t x = Some k \<longleftrightarrow> (\<exists>n \<in> set (hs_names t). hn_name n = x \<and> hn_handle n = k)"
    if "names_ok t" for t x k
    using name_map_hit[OF that] unfolding name_map_def by (auto dest!: map_of_SomeD)
  have "name_map s' = (\<lambda>x. if name_map (snd e) x = Some h then None else name_map (snd e) x)"
  proof (rule map_eqI)
    fix x k
    show "name_map s' x = Some k \<longleftrightarrow> (if name_map (snd e) x = Some h then None else name_map (snd e) x) = Some k"
      using hit[OF ok(2), of x k] hit[OF ok(1), of x k] hit[OF ok(1), of x h] nm by auto
  qed
  then have "\<forall>x. skynet_handle_findname s' x =
        (if name_map (snd e) x = Some h then Some 0 else skynet_handle_findname (snd e) x)"
    by (simp add: findname_ok[OF ok(1)] findname_ok[OF ok(2)])
  with r(1-3) assms(2) show ?thesis by (auto simp: env_find_def)
qed

definition named_env :: handle_env where
  "named_env =
     ((\<lambda>_. 0)(7 := 0x1000001, 8 := 0x1000002),
      (skynet_handle_init 1)\<lparr>hs_slot := [None, Some 7, Some 8, None], hs_handle_index := 3, hs_name_count := 2,
        hs_name := [Some \<lparr>hn_name = ''gate'', hn_handle = 0x1000001\<rparr>, Some \<lparr>hn_name = ''gate1'', hn_handle = 0x1000002\<rparr>]\<rparr>)"

lemma named_env_ok: "env_ok named_env"
proof -
  have "take_bit 24 (push_bit 24 (1 AND 0xff)) = (0 :: u32)" by code_simp
  moreover have "\<exists>k \<le> 24. (4 :: nat) = 2 ^ k" by (rule exI[of _ 2]) simp
  moreover have "slot_hash 4 0x1000001 = 1" "slot_hash 4 0x1000002 = 2" by code_simp+
  moreover have "drop_bit 24 (0x1000001 :: u32) = drop_bit 24 (push_bit 24 (1 AND 0xff))"
    "drop_bit 24 (0x1000002 :: u32) = drop_bit 24 (push_bit 24 (1 AND 0xff))" by code_simp+
  moreover have "''gate'' < ''gate1''" by simp
  ultimately show ?thesis
    by (simp add: env_ok_def hs_wf_def names_ok_def hs_names_def named_env_def skynet_handle_init_def
        DEFAULT_SLOT_SIZE_def HANDLE_REMOTE_SHIFT_def all_less_2 all_less_4)
qed

theorem handle_retire_forgets_witness:
  "\<exists>e'. retire_context 0x1000002 named_env = Some (Some 8, e') \<and> env_ok e' \<and>
     env_find e' = (env_find named_env)(0x1000002 := None) \<and>
     (\<forall>x. skynet_handle_findname (snd e') x =
        (if name_map (snd named_env) x = Some 0x1000002 then Some 0
         else skynet_handle_findname (snd named_env) x))"
proof (rule handle_retire_forgets[OF named_env_ok])
  have "slot_hash 4 0x1000002 = 2" by code_simp
  then show "env_find named_env 0x1000002 = Some 8"
    by (simp add: env_find_def handle_find_def named_env_def skynet_handle_init_def DEFAULT_SLOT_SIZE_def)
qed

text \<open>One service registered and retired, over and over.\<close>

fun register_retire :: "nat \<Rightarrow> handle_env \<Rightarrow> handle_env option" where
  "register_retire 0 e = Some e"
| "register_retire (Suc n) e = do {
     r \<leftarrow> register_context 0 e;
     r' \<leftarrow> retire_context (fst r) (snd r);
     register_retire n (snd r')
   }"

definition idle_table :: "nat \<Rightarrow> handle_storage" where
  "idle_table m = (skynet_handle_init 0)\<lparr>hs_handle_index := of_nat m\<rparr>"

lemma idle_register:
  "register_context 0 (ch, idle_table m) =
     (let h = take_bit 24 (of_nat m)
      in Some (h, ch(0 := h), (idle_table m)\<lparr>hs_slot := (replicate 4 None)[slot_hash 4 h := Some 0], hs_handle_index := h + 1\<rparr>))"
proof -
  have upt4: "[0..<4] = [0, 1, 2, 3 :: nat]" by (simp add: upt_rec)
  have lt: "slot_hash 4 h < 4" for h
    using slot_hash_pow2[of 2 h] by simp
  have nth4: "replicate 4 None ! slot_hash 4 h = (None :: nat option)" for h
    by (rule nth_replicate) (rule lt)
  have free: "free_round (idle_table m) = Some 0"
    by (simp add: free_round_def idle_table_def skynet_handle_init_def DEFAULT_SLOT_SIZE_def upt4 nth4)
  have "skynet_handle_register ch' 0 (idle_table m) =
    Some (take_bit 24 (of_nat m), (idle_table m)\<lparr>hs_slot := (replicate 4 None)[slot_hash 4 (take_bit 24 (of_nat m)) := Some 0],
       hs_handle_index := take_bit 24 (of_nat m) + 1\<rparr>)" for ch'
    using free by (subst skynet_handle_register.simps)
      (simp add: probe_def HANDLE_MASK_eq, simp add: idle_table_def skynet_handle_init_def DEFAULT_SLOT_SIZE_def)
  then show ?thesis by (simp add: register_context_def Let_def)
qed

lemma idle_retire:
  assumes "h = ch 0" "take_bit 24 h = h"
  shows "retire_context h (ch, (idle_table m)\<lparr>hs_slot := (replicate 4 None)[slot_hash 4 h := Some 0], hs_handle_index := h + 1\<rparr>) =
    Some (Some 0, ch, (idle_table m)\<lparr>hs_handle_index := h + 1\<rparr>)"
proof -
  have lt: "slot_hash 4 h < 4" using slot_hash_pow2[of 2 h] by simp
  have upd: "(replicate 4 None)[slot_hash 4 h := Some 0, slot_hash 4 h := None] = (replicate 4 None :: nat option list)"
    by (simp only: list_update_overwrite) (metis list_update_id lt nth_replicate)
  have "compact_names h 0 0 0 (replicate 2 None) = Some (0, replicate 2 None)"
    by (subst compact_names.simps) simp
  with lt upd assms(1) show ?thesis
    by (simp add: retire_context_def handle_remove_def handle_find_def idle_table_def
        skynet_handle_init_def DEFAULT_SLOT_SIZE_def)
qed

lemma register_retire_idle:
  "m + n \<le> 2 ^ 24 \<Longrightarrow> \<exists>ch'. register_retire n (ch, idle_table m) = Some (ch', idle_table (m + n))"
proof (induction n arbitrary: m ch)
  case 0
  then show ?case by simp
next
  case (Suc n)
  then have m: "m < 2 ^ 24" by simp
  have h: "take_bit 24 (of_nat m) = (of_nat m :: u32)"
    unfolding word_unat_eq_iff unat_take_bit_mod using m by (simp add: unat_of_nat)
  have "(idle_table m)\<lparr>hs_handle_index := of_nat m + 1\<rparr> = idle_table (Suc m)"
    by (simp add: idle_table_def add.commute)
  with idle_retire[of "of_nat m" "ch(0 := of_nat m)" m] h
  have "register_retire (Suc n) (ch, idle_table m) = register_retire n (ch(0 := of_nat m), idle_table (Suc m))"
    by (simp add: idle_register Let_def)
  with Suc.IH[of "Suc m"] Suc.prems show ?case by simp
qed

text \<open>
  C34. Handle zero, which the table reserves and which a name lookup returns for \<^emph>\<open>not found\<close>,
  is issued all the same: on a node with harbor 0, after \<open>2 ^ 24 - 1\<close> services have come and
  gone, the counter has passed the mask and the next service is registered under handle 0.
\<close>

theorem handle_zero_issued:
  "\<exists>e e'. register_retire (2 ^ 24 - 1) (ch, skynet_handle_init 0) = Some e \<and>
          register_context 0 e = Some (0, e')"
proof -
  have init: "skynet_handle_init 0 = idle_table 1" by (simp add: idle_table_def skynet_handle_init_def)
  obtain ch' where "register_retire (2 ^ 24 - 1) (ch, idle_table 1) = Some (ch', idle_table (1 + (2 ^ 24 - 1)))"
    using register_retire_idle[of 1 "2 ^ 24 - 1" ch] by auto
  moreover have "take_bit 24 (of_nat (1 + (2 ^ 24 - 1))) = (0 :: u32)"
    unfolding word_unat_eq_iff unat_take_bit_mod by simp
  ultimately show ?thesis unfolding init by (simp add: idle_register Let_def)
qed

text \<open>
  Two launches at once: \<open>skynet_context_new\<close> registers the context \<open>a\<close>, whose \<open>handle\<close> field
  is still 0, and stores the handle after the table's lock has been released; \<open>b\<close> is
  registered in between.
\<close>

definition interleaved_launch :: "nat \<Rightarrow> nat \<Rightarrow> handle_env \<Rightarrow> (u32 \<times> u32 \<times> handle_env) option" where
  "interleaved_launch a b e = do {
     r1 \<leftarrow> skynet_handle_register ((fst e)(a := 0)) a (snd e);
     r2 \<leftarrow> skynet_handle_register ((fst e)(a := 0, b := 0)) b (snd r1);
     Some (fst r1, fst r2, (fst e)(a := fst r1, b := fst r2), snd r2)
   }"

definition launch_found :: "handle_env \<Rightarrow> (u32 \<times> nat option \<times> nat option) option" where
  "launch_found e = do {
     r \<leftarrow> interleaved_launch 4 5 e;
     Some (fst r, env_find (snd (snd r)) (fst r), env_find (snd (snd r)) (fst (snd r)))
   }"


end
