(* ===== verification/Timer.thy ===== *)
theory Timer
  imports Message_Queue
begin

text \<open>
  The timing wheel, \<open>skynet-src/skynet_timer.c\<close>: 256 lists for the timers due in the current
  block of 256 ticks, and four levels of 64 lists for the later ones, which move down as
  the clock reaches their block.

  A \<open>struct link_list\<close> is the list of its nodes, head first; \<open>link\<close> appends at the tail. The clock
  \<open>T->time\<close> is the 32-bit word of the code and wraps. \<open>timer_execute\<close> releases the lock
  while it dispatches, so that other threads may add timers in between: these additions are
  an argument of the definitions, one batch for each time the lock is released.
\<close>

section \<open>Data\<close>

definition TIME_NEAR_SHIFT :: nat where "TIME_NEAR_SHIFT = 8"
definition TIME_NEAR :: nat where "TIME_NEAR = 256"
definition TIME_LEVEL_SHIFT :: nat where "TIME_LEVEL_SHIFT = 6"
definition TIME_LEVEL :: nat where "TIME_LEVEL = 64"
definition TIME_NEAR_MASK :: u32 where "TIME_NEAR_MASK = 255"
definition TIME_LEVEL_MASK :: u32 where "TIME_LEVEL_MASK = 63"

definition PTYPE_RESPONSE :: nat where "PTYPE_RESPONSE = 1"
definition MESSAGE_TYPE_SHIFT :: nat where "MESSAGE_TYPE_SHIFT = 56"

record timer_event =
  te_handle :: u32
  te_session :: u32

record timer_node =
  tn_expire :: u32
  tn_event :: timer_event

record timer =
  tm_near :: "timer_node list list"
  tm_t :: "timer_node list list list"
  tm_time :: u32
  tm_starttime :: u32
  tm_current :: u64
  tm_current_point :: u64

section \<open>Operations\<close>

definition link_near :: "nat \<Rightarrow> timer_node \<Rightarrow> timer \<Rightarrow> timer" where
  "link_near k node T = T\<lparr>tm_near := (tm_near T)[k := tm_near T ! k @ [node]]\<rparr>"

definition link_level :: "nat \<Rightarrow> nat \<Rightarrow> timer_node \<Rightarrow> timer \<Rightarrow> timer" where
  "link_level i k node T =
     T\<lparr>tm_t := (tm_t T)[i := (tm_t T ! i)[k := tm_t T ! i ! k @ [node]]]\<rparr>"

text \<open>The level the loop of \<open>add_node\<close> stops at, trying \<open>i\<close> with the mask \<open>msk\<close>.\<close>

fun find_level :: "nat \<Rightarrow> u32 \<Rightarrow> u32 \<Rightarrow> nat \<Rightarrow> u32 \<Rightarrow> nat" where
  "find_level 0 time current_time i msk = i"
| "find_level (Suc n) time current_time i msk =
     (if time OR (msk - 1) = current_time OR (msk - 1) then i
      else find_level n time current_time (i + 1) (push_bit TIME_LEVEL_SHIFT msk))"

definition add_node :: "timer_node \<Rightarrow> timer \<Rightarrow> timer" where
  "add_node node T =
     (let time = tn_expire node; current_time = tm_time T in
      if time OR TIME_NEAR_MASK = current_time OR TIME_NEAR_MASK
      then link_near (unat (time AND TIME_NEAR_MASK)) node T
      else
        let i = find_level 3 time current_time 0 (push_bit TIME_LEVEL_SHIFT (of_nat TIME_NEAR))
        in link_level i
             (unat (drop_bit (TIME_NEAR_SHIFT + i * TIME_LEVEL_SHIFT) time AND TIME_LEVEL_MASK)) node T)"

text \<open>The \<open>int\<close> delay is its 32-bit word; the sum with the unsigned clock wraps.\<close>

definition timer_add :: "timer_event \<Rightarrow> u32 \<Rightarrow> timer \<Rightarrow> timer" where
  "timer_add event time T = add_node \<lparr>tn_expire = time + tm_time T, tn_event = event\<rparr> T"

definition move_list :: "nat \<Rightarrow> nat \<Rightarrow> timer \<Rightarrow> timer" where
  "move_list level idx T =
     fold add_node (tm_t T ! level ! idx) (T\<lparr>tm_t := (tm_t T)[level := (tm_t T ! level)[idx := []]]\<rparr>)"

text \<open>
  The loop of \<open>timer_shift\<close>. A further round after level 3 would shift the \<open>int\<close> mask out of
  its range and index past the four levels: a fault.
\<close>

function shift_loop :: "u32 \<Rightarrow> u32 \<Rightarrow> u32 \<Rightarrow> nat \<Rightarrow> timer \<Rightarrow> timer option" where
  "shift_loop ct msk time i T =
     (if ct AND (msk - 1) = 0 then
        (let idx = unat (time AND TIME_LEVEL_MASK) in
         if idx \<noteq> 0 then Some (move_list i idx T)
         else if i < 3 then shift_loop ct (push_bit TIME_LEVEL_SHIFT msk) (drop_bit TIME_LEVEL_SHIFT time) (i + 1) T
         else None)
      else Some T)"
  by pat_completeness auto
termination
  by (relation "measure (\<lambda>(ct, msk, time, i, T). 4 - i)") auto

declare shift_loop.simps [simp del]

definition timer_shift :: "timer \<Rightarrow> timer option" where
  "timer_shift T =
     (let ct = tm_time T + 1; T' = T\<lparr>tm_time := ct\<rparr> in
      if ct = 0 then Some (move_list 3 0 T')
      else shift_loop ct (of_nat TIME_NEAR) (drop_bit TIME_NEAR_SHIFT ct) 0 T')"

text \<open>The calls of \<open>skynet_context_push\<close> that dispatching a list makes.\<close>

definition timer_message :: "u32 \<Rightarrow> skynet_message" where
  "timer_message session =
     \<lparr>m_source = 0, m_session = session, m_data = None,
      m_sz = push_bit MESSAGE_TYPE_SHIFT (of_nat PTYPE_RESPONSE)\<rparr>"

fun dispatch_list :: "timer_node list \<Rightarrow> (u32 \<times> skynet_message) list" where
  "dispatch_list [] = []"
| "dispatch_list (n # ns) =
     (te_handle (tn_event n), timer_message (te_session (tn_event n))) # dispatch_list ns"

type_synonym timer_adds = "(timer_event \<times> u32) list"

definition concurrent_adds :: "timer_adds \<Rightarrow> timer \<Rightarrow> timer" where
  "concurrent_adds adds T = fold (\<lambda>(event, time). timer_add event time) adds T"

partial_function (option) timer_execute ::
    "timer_adds list \<Rightarrow> timer \<Rightarrow> (timer \<times> (u32 \<times> skynet_message) list \<times> timer_adds list) option" where
  "timer_execute intf T =
     (let idx = unat (tm_time T AND TIME_NEAR_MASK) in
      if tm_near T ! idx \<noteq> [] then do {
        let current = tm_near T ! idx;
        let T1 = T\<lparr>tm_near := (tm_near T)[idx := []]\<rparr>;
        let T2 = concurrent_adds (concat (take 1 intf)) T1;
        r \<leftarrow> timer_execute (drop 1 intf) T2;
        Some (fst r, dispatch_list current @ fst (snd r), snd (snd r))
      }
      else Some (T, [], intf))"

declare timer_execute.simps [code]

definition timer_update :: "timer_adds list \<Rightarrow> timer \<Rightarrow> (timer \<times> (u32 \<times> skynet_message) list \<times> timer_adds list) option" where
  "timer_update intf T = do {
     r1 \<leftarrow> timer_execute intf T;
     T1 \<leftarrow> timer_shift (fst r1);
     r2 \<leftarrow> timer_execute (snd (snd r1)) T1;
     Some (fst r2, fst (snd r1) @ fst (snd r2), snd (snd r2))
   }"

definition timer_create_timer :: timer where
  "timer_create_timer =
     \<lparr>tm_near = replicate TIME_NEAR [], tm_t = replicate 4 (replicate TIME_LEVEL []),
      tm_time = 0, tm_starttime = 0, tm_current = 0, tm_current_point = 0\<rparr>"

text \<open>
  \<open>push\<close> stands for \<open>skynet_context_push\<close>, which fails when no service has the handle. The
  results are the session or -1, the message pushed at once, and the timer.
\<close>

definition skynet_timeout ::
    "(u32 \<Rightarrow> bool) \<Rightarrow> u32 \<Rightarrow> u32 \<Rightarrow> u32 \<Rightarrow> timer \<Rightarrow> int \<times> (u32 \<times> skynet_message) list \<times> timer" where
  "skynet_timeout known handle time session T =
     (if sint time \<le> 0 then
        (if known handle then (sint session, [(handle, timer_message session)], T) else (- 1, [], T))
      else (sint session, [], timer_add \<lparr>te_handle = handle, te_session = session\<rparr> time T))"

text \<open>The \<open>for\<close> loop of \<open>skynet_updatetime\<close>; each update has its own batches of additions.\<close>

fun update_loop :: "nat \<Rightarrow> timer_adds list list \<Rightarrow> timer \<Rightarrow> (timer \<times> (u32 \<times> skynet_message) list) option" where
  "update_loop 0 intf T = Some (T, [])"
| "update_loop (Suc n) intf T = do {
     r \<leftarrow> timer_update (concat (take 1 intf)) T;
     rest \<leftarrow> update_loop n (drop 1 intf) (fst r);
     Some (fst rest, fst (snd r) @ snd rest)
   }"

text \<open>\<open>cp\<close> is the monotonic clock; the \<open>int\<close> loop counter overflows from \<open>2 ^ 31\<close> on: a fault.\<close>

definition skynet_updatetime :: "u64 \<Rightarrow> timer_adds list list \<Rightarrow> timer \<Rightarrow> (timer \<times> (u32 \<times> skynet_message) list) option" where
  "skynet_updatetime cp intf T =
     (if cp < tm_current_point T then Some (T\<lparr>tm_current_point := cp\<rparr>, [])
      else if cp \<noteq> tm_current_point T then
        (let diff = (ucast (cp - tm_current_point T) :: u32);
             T' = T\<lparr>tm_current_point := cp, tm_current := tm_current T + ucast diff\<rparr>
         in do {
           _ \<leftarrow> assert_opt (unat diff < 2 ^ 31);
           update_loop (unat diff) intf T'
         })
      else Some (T, []))"

definition skynet_starttime :: "timer \<Rightarrow> u32" where
  "skynet_starttime T = tm_starttime T"

definition skynet_now :: "timer \<Rightarrow> u64" where
  "skynet_now T = tm_current T"

text \<open>\<open>sec\<close> and \<open>cs\<close> are the results of \<open>systime\<close>, \<open>cp\<close> that of \<open>gettime\<close>.\<close>

definition skynet_timer_init :: "u32 \<Rightarrow> u32 \<Rightarrow> u64 \<Rightarrow> timer" where
  "skynet_timer_init sec cs cp =
     timer_create_timer\<lparr>tm_starttime := sec, tm_current := ucast cs, tm_current_point := cp\<rparr>"

section \<open>Places in the wheel\<close>

text \<open>
  Where a timer due at tick \<open>x\<close> is kept at tick \<open>n\<close>. The ticks are unbounded numbers; the words
  of the code are their residues.
\<close>

datatype place = Near nat | Level nat nat

definition agree :: "nat \<Rightarrow> nat \<Rightarrow> nat \<Rightarrow> bool" where
  "agree k x n \<longleftrightarrow> x div 2 ^ k = n div 2 ^ k"

definition place_level :: "nat \<Rightarrow> nat \<Rightarrow> nat" where
  "place_level x n = (if agree 14 x n then 0 else if agree 20 x n then 1 else if agree 26 x n then 2 else 3)"

definition place_of :: "nat \<Rightarrow> nat \<Rightarrow> place" where
  "place_of x n =
     (if agree 8 x n then Near (x mod 2 ^ 8)
      else Level (place_level x n) (x div 2 ^ (8 + place_level x n * 6) mod 64))"

fun bucket :: "timer \<Rightarrow> place \<Rightarrow> timer_node list" where
  "bucket T (Near k) = tm_near T ! k"
| "bucket T (Level i k) = tm_t T ! i ! k"

fun place_ok :: "place \<Rightarrow> bool" where
  "place_ok (Near k) \<longleftrightarrow> k < 256"
| "place_ok (Level i k) \<longleftrightarrow> i < 4 \<and> k < 64"

definition wheel_shape :: "timer \<Rightarrow> bool" where
  "wheel_shape T \<longleftrightarrow> length (tm_near T) = 256 \<and> length (tm_t T) = 4 \<and> (\<forall>i < 4. length (tm_t T ! i) = 64)"

lemma place_level_le: "place_level x n \<le> 3"
  by (simp add: place_level_def)

lemma place_ok_place_of [simp]: "place_ok (place_of x n)"
  using place_level_le[of x n] by (auto simp: place_of_def)

subsection \<open>Words and ticks\<close>

lemma or_mask_eq_iff: "a OR mask k = b OR mask k \<longleftrightarrow> drop_bit k a = drop_bit k (b :: u32)"
proof
  have m: "drop_bit k (c OR mask k) = drop_bit k c" for c :: u32
    by (rule bit_eqI) (simp add: bit_simps)
  assume "a OR mask k = b OR mask k"
  then show "drop_bit k a = drop_bit k b" using m by metis
next
  assume eq: "drop_bit k a = drop_bit k b"
  show "a OR mask k = b OR mask k"
  proof (rule bit_eqI)
    fix j assume j: "possible_bit TYPE(u32) j"
    have "bit a j = bit b j" if "k \<le> j"
      using arg_cong[OF eq, of "\<lambda>w. bit w (j - k)"] that by (simp add: bit_drop_bit_eq)
    then show "bit (a OR mask k) j = bit (b OR mask k) j" using j by (cases "k \<le> j") (auto simp: bit_simps)
  qed
qed

lemma drop_bit_eq_iff: "drop_bit k a = drop_bit k (b :: u32) \<longleftrightarrow> unat a div 2 ^ k = unat b div 2 ^ k"
  by (simp add: word_unat_eq_iff unat_drop_bit_div)

text \<open>Residues agree above bit \<open>k\<close> exactly when the ticks do, if these are close.\<close>

lemma mod_pow2_div: "k \<le> w \<Longrightarrow> y mod 2 ^ w div 2 ^ k = y div 2 ^ k mod (2 :: nat) ^ (w - k)"
  by (metis drop_bit_eq_div drop_bit_take_bit take_bit_eq_mod)

lemma div_residue_iff:
  fixes n x :: nat
  assumes "k \<le> h" "h < w" "n \<le> x" "x < n + 2 ^ h"
  shows "x mod 2 ^ w div 2 ^ k = n mod 2 ^ w div 2 ^ k \<longleftrightarrow> x div 2 ^ k = n div 2 ^ k"
proof -
  define M :: nat where "M = 2 ^ (w - k)"
  define d where "d = x div 2 ^ k - n div 2 ^ k"
  have le: "n div 2 ^ k \<le> x div 2 ^ k" using assms(3) by (simp add: div_le_mono)
  have "(2 :: nat) ^ h = 2 ^ (h - k) * 2 ^ k" using assms(1) by (simp flip: power_add)
  then have "(n + 2 ^ h) div 2 ^ k = n div 2 ^ k + 2 ^ (h - k)" by simp
  moreover have "x div 2 ^ k \<le> (n + 2 ^ h) div 2 ^ k" using assms(4) by (simp add: div_le_mono)
  moreover have "(2 :: nat) ^ (h - k) < M" unfolding M_def using assms(1,2) by (intro power_strict_increasing) auto
  ultimately have d: "d < M" "x div 2 ^ k = n div 2 ^ k + d" using le by (simp_all add: d_def)
  have "(n div 2 ^ k + d) mod M = n div 2 ^ k mod M \<longleftrightarrow> d = 0"
    using d(1) mod_eq_dvd_iff_nat[of "n div 2 ^ k" "n div 2 ^ k + d" M] by (auto dest: nat_dvd_not_less)
  moreover have "y mod 2 ^ w div 2 ^ k = y div 2 ^ k mod M" for y
    unfolding M_def using assms(1,2) by (intro mod_pow2_div) simp
  ultimately show ?thesis using d(2) by simp
qed

definition close :: "nat \<Rightarrow> nat \<Rightarrow> bool" where
  "close n x \<longleftrightarrow> n \<le> x \<and> x < n + 2 ^ 31"

lemma block_iff:
  assumes "k < 32" "close n x"
  shows "(of_nat x :: u32) OR mask k = of_nat n OR mask k \<longleftrightarrow> agree k x n"
  unfolding agree_def or_mask_eq_iff drop_bit_eq_iff unat_of_nat
  using div_residue_iff[of k 31 32 n x] assms by (simp add: close_def)

lemma mask_word:
  "(255 :: u32) = mask 8" "(16383 :: u32) = mask 14" "(1048575 :: u32) = mask 20" "(67108863 :: u32) = mask 26"
  by (simp_all add: mask_eq_exp_minus_1)

lemma find_level_place:
  assumes "close n x"
  shows "find_level 3 (of_nat x) (of_nat n) 0 (push_bit TIME_LEVEL_SHIFT (of_nat TIME_NEAR)) = place_level x n"
proof -
  have "push_bit 6 (of_nat 256) = (16384 :: u32)" "push_bit 6 16384 = (1048576 :: u32)"
    "push_bit 6 1048576 = (67108864 :: u32)" by (simp_all add: push_bit_eq_mult)
  then show ?thesis
    using block_iff[OF _ assms, of 14] block_iff[OF _ assms, of 20] block_iff[OF _ assms, of 26]
    by (simp add: numeral_3_eq_3 TIME_LEVEL_SHIFT_def TIME_NEAR_def place_level_def flip: mask_word)
qed

lemma digit_word:
  assumes "s + j \<le> 32"
  shows "unat (drop_bit s (of_nat x :: u32) AND mask j) = x div 2 ^ s mod 2 ^ j"
proof -
  have "unat (drop_bit s (of_nat x :: u32) AND mask j) = x mod 2 ^ 32 div 2 ^ s mod 2 ^ j"
    by (simp add: unat_take_bit_mod unat_drop_bit_div unat_of_nat flip: take_bit_eq_mask)
  also have "\<dots> = x div 2 ^ s mod 2 ^ j"
    using mod_pow2_div[of s 32 x] assms by (simp add: mod_mod_pow2)
  finally show ?thesis .
qed

section \<open>The wheel represents a list of pending timers\<close>

type_synonym pending = "(nat \<times> timer_event) list"

definition node_of :: "nat \<times> timer_event \<Rightarrow> timer_node" where
  "node_of p = \<lparr>tn_expire = of_nat (fst p), tn_event = snd p\<rparr>"

definition at_place :: "nat \<Rightarrow> place \<Rightarrow> pending \<Rightarrow> pending" where
  "at_place n p ps = filter (\<lambda>q. place_of (fst q) n = p) ps"

text \<open>
  At tick \<open>n\<close> the wheel holds the pending timers \<open>ps\<close>, given in the order they were added: each
  list of the wheel has the timers of its place, in that order.
\<close>

definition wheel :: "nat \<Rightarrow> pending \<Rightarrow> timer \<Rightarrow> bool" where
  "wheel n ps T \<longleftrightarrow>
     wheel_shape T \<and> tm_time T = of_nat n \<and> (\<forall>q \<in> set ps. close n (fst q)) \<and>
     (\<forall>p. place_ok p \<longrightarrow> bucket T p = map node_of (at_place n p ps))"

lemma at_place_append [simp]: "at_place n p (ps @ qs) = at_place n p ps @ at_place n p qs"
  by (simp add: at_place_def)

lemma at_place_Nil [simp]: "at_place n p [] = []"
  by (simp add: at_place_def)

lemma at_place_Cons [simp]:
  "at_place n p (q # ps) = (if place_of (fst q) n = p then q # at_place n p ps else at_place n p ps)"
  by (simp add: at_place_def)

fun put_place :: "place \<Rightarrow> timer_node \<Rightarrow> timer \<Rightarrow> timer" where
  "put_place (Near k) node T = link_near k node T"
| "put_place (Level i k) node T = link_level i k node T"

lemma put_place_shape [simp]: "wheel_shape T \<Longrightarrow> place_ok p \<Longrightarrow> wheel_shape (put_place p node T)"
  by (cases p) (auto simp: wheel_shape_def link_near_def link_level_def nth_list_update)

lemma put_place_time [simp]: "tm_time (put_place p node T) = tm_time T"
  by (cases p) (auto simp: link_near_def link_level_def)

lemma bucket_put_place:
  assumes "wheel_shape T" "place_ok p" "place_ok p'"
  shows "bucket (put_place p node T) p' = (if p' = p then bucket T p' @ [node] else bucket T p')"
  using assms by (cases p; cases p') (auto simp: wheel_shape_def link_near_def link_level_def nth_list_update)

lemma add_node_place:
  assumes "close n (fst q)" "tm_time T = of_nat n"
  shows "add_node (node_of q) T = put_place (place_of (fst q) n) (node_of q) T"
proof -
  have near: "(of_nat (fst q) :: u32) OR TIME_NEAR_MASK = of_nat n OR TIME_NEAR_MASK \<longleftrightarrow> agree 8 (fst q) n"
    unfolding TIME_NEAR_MASK_def mask_word(1) using assms(1) by (intro block_iff) auto
  have d0: "unat ((of_nat (fst q) :: u32) AND TIME_NEAR_MASK) = fst q mod 2 ^ 8"
    using digit_word[of 0 8 "fst q"] by (simp add: TIME_NEAR_MASK_def mask_word(1))
  have "(63 :: u32) = mask 6" by (simp add: mask_eq_exp_minus_1)
  then have d: "unat (drop_bit (8 + i * 6) (of_nat (fst q) :: u32) AND TIME_LEVEL_MASK) = fst q div 2 ^ (8 + i * 6) mod 64"
    if "i \<le> 3" for i
    using digit_word[of "8 + i * 6" 6 "fst q"] that by (simp add: TIME_LEVEL_MASK_def)
  show ?thesis
    using find_level_place[OF assms(1)] d[OF place_level_le[of "fst q" n]]
    by (simp add: add_node_def node_of_def assms(2) near d0 place_of_def Let_def TIME_NEAR_SHIFT_def TIME_LEVEL_SHIFT_def)
qed

text \<open>Adding nodes one after the other appends each to the list of its place.\<close>

lemma add_nodes:
  assumes "\<forall>q \<in> set qs. close n (fst q)" "tm_time T = of_nat n" "wheel_shape T"
  shows "wheel_shape (fold add_node (map node_of qs) T)" "tm_time (fold add_node (map node_of qs) T) = of_nat n"
    "place_ok p \<Longrightarrow> bucket (fold add_node (map node_of qs) T) p = bucket T p @ map node_of (at_place n p qs)"
  using assms
  by (induction qs arbitrary: T) (simp_all add: add_node_place[where n = n] bucket_put_place)

lemma wheel_add:
  assumes "wheel n ps T" "\<forall>q \<in> set qs. close n (fst q)"
  shows "wheel n (ps @ qs) (fold add_node (map node_of qs) T)"
  using assms add_nodes[of qs n T] unfolding wheel_def by auto

subsection \<open>The clock moves on\<close>

text \<open>
  When the clock reaches a multiple of \<open>2 ^ a\<close>, a timer that is due from then on was in
  another block of every size up to \<open>2 ^ a\<close>; the larger blocks change only if the next six bits
  of the clock are all zero.
\<close>

lemma new_block:
  assumes "2 ^ a dvd ct" "0 < ct" "k \<le> a" "ct \<le> x"
  shows "\<not> agree k x (ct - 1)"
proof -
  have "2 ^ k dvd ct" by (rule dvd_trans[OF le_imp_power_dvd[OF assms(3)] assms(1)])
  then obtain q' where "ct = 2 ^ k * q'" by (rule dvdE)
  then obtain q where q: "ct = q * 2 ^ k" by (simp add: mult.commute)
  have "(ct - 1) div 2 ^ k < q" using q assms(2) by (simp add: div_less_iff_less_mult)
  moreover have "q \<le> x div 2 ^ k" using q assms(4) by (simp add: less_eq_div_iff_mult_less_eq)
  ultimately show ?thesis by (simp add: agree_def)
qed

lemma agree_mono: "agree k x y \<Longrightarrow> k \<le> l \<Longrightarrow> agree l x y"
proof -
  assume eq: "agree k x y" and kl: "k \<le> l"
  have "z div 2 ^ l = z div 2 ^ k div 2 ^ (l - k)" for z :: nat
    using kl by (simp flip: div_mult2_eq power_add)
  with eq show ?thesis by (simp add: agree_def)
qed

lemma agree_trans [trans]: "agree k x y \<Longrightarrow> agree k y z \<Longrightarrow> agree k x z"
  and agree_sym: "agree k x y \<Longrightarrow> agree k y x"
  by (simp_all add: agree_def)

lemma same_block:
  assumes "2 ^ a dvd ct" "ct div 2 ^ a mod 64 \<noteq> 0" "a + 6 \<le> k"
  shows "agree k (ct - 1) ct"
proof (rule agree_mono[OF _ assms(3)])
  from assms(1) obtain q where q: "ct = 2 ^ a * q" by (rule dvdE)
  with assms(2) have nz: "q mod 64 \<noteq> 0" by auto
  then obtain r where r: "q = Suc r" by (cases q) auto
  have "ct - 1 = (2 ^ a - 1) + 2 ^ a * r" using q r by simp
  moreover have "((2 ^ a - 1) + 2 ^ a * r) div 2 ^ a = r + (2 ^ a - 1) div (2 :: nat) ^ a"
    by (rule div_mult_self2) simp
  ultimately have "(ct - 1) div 2 ^ a = r" by simp
  moreover have "r div 64 = q div 64" using nz r by (simp add: div_Suc)
  ultimately have "(ct - 1) div 2 ^ a div 64 = ct div 2 ^ a div 64" using q by simp
  then show "agree (a + 6) (ct - 1) ct" by (simp add: agree_def power_add div_mult2_eq)
qed

lemma agree_digit: "agree (a + 6) x y \<Longrightarrow> x div 2 ^ a mod 64 = y div 2 ^ a mod 64 \<Longrightarrow> agree a x y"
  unfolding agree_def by (simp add: power_add div_mult2_eq) (metis div_mult_mod_eq)

lemma close_digit:
  assumes "close ct x" "x div 2 ^ 26 mod 64 = ct div 2 ^ 26 mod 64"
  shows "agree 26 x ct"
proof -
  have "y mod 2 ^ 32 div 2 ^ 26 = y div 2 ^ 26 mod 64" for y :: nat
    using mod_pow2_div[of 26 32 y] by simp
  with assms div_residue_iff[of 26 31 32 ct x] show ?thesis by (simp add: close_def agree_def)
qed

lemma place_same:
  assumes "\<And>j. j \<le> 3 \<Longrightarrow> agree (8 + 6 * j) x n = agree (8 + 6 * j) x m"
  shows "place_of x n = place_of x m"
  using assms[of 0] assms[of 1] assms[of 2] assms[of 3] by (simp add: place_of_def place_level_def)

lemma place_no_carry:
  assumes "Suc n mod 2 ^ 8 \<noteq> 0"
  shows "place_of x (Suc n) = place_of x n"
proof (rule place_same)
  fix j :: nat
  have "agree 8 n (Suc n)" using assms by (simp add: agree_def div_Suc)
  then have "agree (8 + 6 * j) n (Suc n)" by (rule agree_mono) simp
  then show "agree (8 + 6 * j) x (Suc n) = agree (8 + 6 * j) x n" by (simp add: agree_def)
qed

text \<open>The level of a place, by the blocks that the two ticks share.\<close>

lemma place_levelI:
  assumes "i \<le> 3" "\<not> agree (8 + 6 * i) x n" "i < 3 \<Longrightarrow> agree (14 + 6 * i) x n"
  shows "place_of x n = Level i (x div 2 ^ (8 + 6 * i) mod 64)"
proof -
  have ne: "\<not> agree k x n" if "k \<le> 8 + 6 * i" for k
    using assms(2) agree_mono[OF _ that] by blast
  have "i = 0 \<or> i = 1 \<or> i = 2 \<or> i = 3" using assms(1) by linarith
  then show ?thesis
    by (elim disjE) (use ne[of 8] ne[of 14] ne[of 20] ne[of 26] assms(3) in \<open>simp_all add: place_of_def place_level_def\<close>)
qed

lemma place_levelD:
  assumes "place_of x n = Level i k"
  shows "i \<le> 3 \<and> k = x div 2 ^ (8 + 6 * i) mod 64 \<and> \<not> agree (8 + 6 * i) x n \<and> (i < 3 \<longrightarrow> agree (14 + 6 * i) x n)"
  using assms by (auto simp: place_of_def place_level_def split: if_splits)

fun below :: "nat \<Rightarrow> place \<Rightarrow> bool" where
  "below i (Near k) \<longleftrightarrow> True"
| "below i (Level j k) \<longleftrightarrow> j < i"

lemma below_place_iff: "i \<le> 3 \<Longrightarrow> below i (place_of x n) \<longleftrightarrow> agree (8 + 6 * i) x n"
proof
  assume i: "i \<le> 3" and b: "below i (place_of x n)"
  show "agree (8 + 6 * i) x n"
  proof (cases "place_of x n")
    case (Near k)
    then have "agree 8 x n" by (simp add: place_of_def split: if_splits)
    then show ?thesis by (rule agree_mono) simp
  next
    case (Level j k)
    with b i place_levelD[OF Level] have "agree (14 + 6 * j) x n" "14 + 6 * j \<le> 8 + 6 * i" by auto
    then show ?thesis by (rule agree_mono)
  qed
next
  assume a: "agree (8 + 6 * i) x n"
  show "below i (place_of x n)"
  proof (cases "place_of x n")
    case (Level j k)
    then have "\<not> i \<le> j" using place_levelD[OF Level] agree_mono[OF a, of "8 + 6 * j"] by auto
    with Level show ?thesis by simp
  qed simp
qed

text \<open>The clock carries into level \<open>i\<close>.\<close>

definition carries :: "nat \<Rightarrow> nat \<Rightarrow> bool" where
  "carries i ct \<longleftrightarrow> i \<le> 3 \<and> 2 ^ (8 + 6 * i) dvd ct \<and> (i < 3 \<longrightarrow> ct div 2 ^ (8 + 6 * i) mod 64 \<noteq> 0)"

lemma carry_high:
  assumes "carries i (Suc n)" "n < x"
  shows "\<not> below i (place_of x n)"
  using assms new_block[of "8 + 6 * i" "Suc n" "8 + 6 * i" x] by (simp add: carries_def below_place_iff)

lemma carry_upper: "carries i (Suc n) \<Longrightarrow> i < j \<Longrightarrow> j \<le> 3 \<Longrightarrow> agree (8 + 6 * j) n (Suc n)"
  using same_block[of "8 + 6 * i" "Suc n" "8 + 6 * j"] by (simp add: carries_def)

lemma carry_moved:
  assumes "carries i (Suc n)" "n < x" "agree (8 + 6 * i) x (Suc n)"
  shows "place_of x n = Level i (Suc n div 2 ^ (8 + 6 * i) mod 64)" "below i (place_of x (Suc n))"
proof -
  have i: "i \<le> 3" using assms(1) by (simp add: carries_def)
  have "\<not> agree (8 + 6 * i) x n" using carry_high[OF assms(1,2)] i by (simp add: below_place_iff)
  moreover have "agree (14 + 6 * i) x n" if "i < 3"
  proof (rule agree_trans)
    show "agree (14 + 6 * i) x (Suc n)" using assms(3) by (rule agree_mono) simp
    show "agree (14 + 6 * i) (Suc n) n" using carry_upper[OF assms(1), of "Suc i"] that by (simp add: agree_sym)
  qed
  ultimately have "place_of x n = Level i (x div 2 ^ (8 + 6 * i) mod 64)" using i by (intro place_levelI)
  with assms(3) show "place_of x n = Level i (Suc n div 2 ^ (8 + 6 * i) mod 64)" by (simp add: agree_def)
  show "below i (place_of x (Suc n))" using i assms(3) by (simp add: below_place_iff)
qed

lemma carry_stay:
  assumes c: "carries i (Suc n)" and x: "n < x" "close n x" and no: "\<not> agree (8 + 6 * i) x (Suc n)"
  shows "place_of x (Suc n) = place_of x n" "place_of x n \<noteq> Level i (Suc n div 2 ^ (8 + 6 * i) mod 64)"
proof -
  have i: "i \<le> 3" using c by (simp add: carries_def)
  show eq: "place_of x (Suc n) = place_of x n"
  proof (rule place_same)
    fix j :: nat assume j: "j \<le> 3"
    show "agree (8 + 6 * j) x (Suc n) = agree (8 + 6 * j) x n"
    proof (cases "i < j")
      case True
      from carry_upper[OF c this j] show ?thesis by (auto simp: agree_def)
    next
      case False
      then have le: "8 + 6 * j \<le> 8 + 6 * i" by simp
      have "\<not> agree (8 + 6 * i) x n" using carry_high[OF c x(1)] i by (simp add: below_place_iff)
      with no agree_mono[OF _ le] show ?thesis by blast
    qed
  qed
  show "place_of x n \<noteq> Level i (Suc n div 2 ^ (8 + 6 * i) mod 64)"
  proof
    assume L: "place_of x n = Level i (Suc n div 2 ^ (8 + 6 * i) mod 64)"
    then have d: "x div 2 ^ (8 + 6 * i) mod 64 = Suc n div 2 ^ (8 + 6 * i) mod 64" using place_levelD by metis
    show False
    proof (cases "i < 3")
      case True
      have "agree (8 + 6 * i + 6) x (Suc n)" using place_levelD[OF L[folded eq]] True by (simp add: add.commute)
      from agree_digit[OF this d] no show False by simp
    next
      case False
      then have "i = 3" using i by simp
      moreover have "close (Suc n) x" using x by (simp add: close_def)
      ultimately show False using close_digit[of "Suc n" x] d no by simp
    qed
  qed
qed

lemma at_place_carry:
  assumes c: "carries i (Suc n)" and ps: "\<forall>q \<in> set ps. n < fst q \<and> close n (fst q)"
  defines "L \<equiv> Level i (Suc n div 2 ^ (8 + 6 * i) mod 64)"
  shows "at_place (Suc n) p ps = (if p = L then [] else at_place n p ps) @ at_place (Suc n) p (at_place n L ps)"
proof -
  have i: "i \<le> 3" using c by (simp add: carries_def)
  have q: "place_of x n = L \<longleftrightarrow> below i (place_of x (Suc n))"
    "place_of x n \<noteq> L \<Longrightarrow> place_of x (Suc n) = place_of x n" "\<not> below i (place_of x n)"
    if "n < x" "close n x" for x
    using carry_moved[OF c that(1)] carry_stay[OF c that] carry_high[OF c that(1)] i
    unfolding L_def by (auto simp: below_place_iff)
  have nl: "\<not> below i L" by (simp add: L_def)
  show ?thesis
  proof (cases "below i p")
    case True
    then have "at_place n p ps = []" using ps q(3) by (auto simp: at_place_def filter_empty_conv)
    moreover have "at_place (Suc n) p ps = at_place (Suc n) p (at_place n L ps)"
      unfolding at_place_def filter_filter using ps q(1) True by (intro filter_cong) auto
    ultimately show ?thesis using True nl by auto
  next
    case False
    then have "at_place (Suc n) p (at_place n L ps) = []"
      using ps q(1) by (auto simp: at_place_def filter_empty_conv)
    moreover have "(place_of x (Suc n) = p) = (p \<noteq> L \<and> place_of x n = p)" if "n < x" "close n x" for x
      using q(1,2)[OF that] False nl by metis
    then have "at_place (Suc n) p ps = filter (\<lambda>q. p \<noteq> L \<and> place_of (fst q) n = p) ps"
      unfolding at_place_def using ps by (intro filter_cong) auto
    ultimately show ?thesis by (simp add: at_place_def)
  qed
qed

text \<open>Moving a list down re-files its timers at the new tick.\<close>

lemma move_list_ok:
  assumes "wheel n ps T" "carries i (Suc n)" "\<forall>q \<in> set ps. n < fst q"
  shows "wheel (Suc n) ps (move_list i (Suc n div 2 ^ (8 + 6 * i) mod 64) (T\<lparr>tm_time := of_nat (Suc n)\<rparr>))"
proof -
  define d where "d = Suc n div 2 ^ (8 + 6 * i) mod 64"
  let ?L = "Level i d" and ?ct = "of_nat (Suc n) :: u32"
  let ?T1 = "T\<lparr>tm_time := ?ct, tm_t := (tm_t T)[i := (tm_t T ! i)[d := []]]\<rparr>"
  have i: "i < 4" and d: "d < 64" using assms(2) by (simp_all add: carries_def d_def)
  have w: "wheel_shape T" "\<forall>q \<in> set ps. close n (fst q)"
    "\<And>p. place_ok p \<Longrightarrow> bucket T p = map node_of (at_place n p ps)"
    using assms(1) by (simp_all add: wheel_def)
  have cl: "\<forall>q \<in> set ps. close (Suc n) (fst q)" using w(2) assms(3) by (auto simp: close_def)
  have "move_list i d (T\<lparr>tm_time := ?ct\<rparr>) = fold add_node (map node_of (at_place n ?L ps)) ?T1"
    using w(3)[of ?L] i d by (simp add: move_list_def)
  moreover have sh: "wheel_shape ?T1" using w(1) i by (auto simp: wheel_shape_def nth_list_update)
  moreover have "bucket ?T1 p = (if p = ?L then [] else bucket T p)" if "place_ok p" for p
    using w(1) i d that by (cases p) (auto simp: wheel_shape_def nth_list_update)
  moreover have "\<forall>q \<in> set (at_place n ?L ps). close (Suc n) (fst q)" using cl by (simp add: at_place_def)
  moreover have "at_place (Suc n) p ps = (if p = ?L then [] else at_place n p ps) @ at_place (Suc n) p (at_place n ?L ps)" for p
    unfolding d_def using assms(3) w(2) by (intro at_place_carry[OF assms(2)]) auto
  ultimately show ?thesis
    using cl w(3) add_nodes[of "at_place n ?L ps" "Suc n" ?T1] unfolding d_def[symmetric]
    by (simp add: wheel_def)
qed

text \<open>The digits of the clock as \<open>timer_shift\<close> computes them.\<close>

lemma ct_mask:
  assumes "a < 32"
  shows "(of_nat ct :: u32) AND mask a = 0 \<longleftrightarrow> 2 ^ a dvd ct"
proof -
  have "unat ((of_nat ct :: u32) AND mask a) = ct mod 2 ^ a"
    using digit_word[of 0 a ct] assms by simp
  then show ?thesis by (simp add: word_unat_eq_iff dvd_eq_mod_eq_0)
qed

lemma ct_digit:
  "s \<le> 26 \<Longrightarrow> unat (drop_bit s (of_nat ct :: u32) AND TIME_LEVEL_MASK) = ct div 2 ^ s mod 64"
  using digit_word[of s 6 ct] by (simp add: TIME_LEVEL_MASK_def mask_eq_exp_minus_1)

lemma dvd_next_digit:
  assumes "2 ^ a dvd ct" "ct div 2 ^ a mod 64 = 0"
  shows "2 ^ (a + 6) dvd (ct :: nat)"
proof -
  from assms(1) obtain q where q: "ct = 2 ^ a * q" by (rule dvdE)
  with assms(2) have "64 dvd q" by auto
  with q show ?thesis by (simp add: power_add)
qed

lemma wheel_tick_no_carry:
  assumes "wheel n ps T" "\<not> 2 ^ 8 dvd Suc n" "\<forall>q \<in> set ps. n < fst q"
  shows "wheel (Suc n) ps (T\<lparr>tm_time := of_nat (Suc n)\<rparr>)"
proof -
  have "at_place (Suc n) p ps = at_place n p ps" for p
    using assms(2) by (simp add: at_place_def place_no_carry dvd_eq_mod_eq_0)
  moreover have "bucket (T\<lparr>tm_time := t\<rparr>) p = bucket T p" for t p by (cases p) simp_all
  ultimately show ?thesis using assms(1,3) by (auto simp: wheel_def wheel_shape_def close_def)
qed

lemma shift_loop_ok:
  assumes w: "wheel n ps T" "\<forall>q \<in> set ps. n < fst q" and ct: "of_nat (Suc n) \<noteq> (0 :: u32)"
  shows "i \<le> 3 \<Longrightarrow> i = 0 \<or> 2 ^ (8 + 6 * i) dvd Suc n \<Longrightarrow>
    \<exists>T'. shift_loop (of_nat (Suc n)) (2 ^ (8 + 6 * i)) (drop_bit (8 + 6 * i) (of_nat (Suc n))) i
           (T\<lparr>tm_time := of_nat (Suc n)\<rparr>) = Some T' \<and> wheel (Suc n) ps T'"
proof (induction "3 - i" arbitrary: i)
  case (0 i)
  then have i: "i = 3" and d: "2 ^ 26 dvd Suc n" by auto
  have "Suc n div 2 ^ 26 mod 64 \<noteq> 0"
  proof
    assume "Suc n div 2 ^ 26 mod 64 = 0"
    from dvd_next_digit[OF d this] have "2 ^ 32 dvd Suc n" by simp
    then show False using ct unfolding word_unat_eq_iff unat_of_nat by (simp add: dvd_eq_mod_eq_0)
  qed
  moreover have "of_nat (Suc n) AND (2 ^ 26 - 1) = (0 :: u32)"
    using ct_mask[of 26 "Suc n"] d by (simp add: mask_eq_exp_minus_1)
  ultimately show ?case
    using move_list_ok[OF w(1) _ w(2), of 3] d ct_digit[of 26 "Suc n"] i
    by (subst shift_loop.simps) (simp add: carries_def Let_def)
next
  case (Suc k i)
  let ?a = "8 + 6 * i"
  have i: "i < 3" using Suc.hyps(2) by simp
  have m: "of_nat (Suc n) AND (2 ^ ?a - 1) = (0 :: u32) \<longleftrightarrow> 2 ^ ?a dvd Suc n"
    using ct_mask[of ?a "Suc n"] i by (simp add: mask_eq_exp_minus_1)
  have dg: "unat (drop_bit ?a (of_nat (Suc n) :: u32) AND TIME_LEVEL_MASK) = Suc n div 2 ^ ?a mod 64"
    using i by (intro ct_digit) simp
  show ?case
  proof (cases "2 ^ ?a dvd Suc n")
    case False
    then have "i = 0" using Suc.prems(2) by simp
    with False have "wheel (Suc n) ps (T\<lparr>tm_time := of_nat (Suc n)\<rparr>)"
      using wheel_tick_no_carry[OF w(1) _ w(2)] by simp
    with False m show ?thesis by (subst shift_loop.simps) simp
  next
    case dv: True
    show ?thesis
    proof (cases "Suc n div 2 ^ ?a mod 64 = 0")
      case True
      have "push_bit TIME_LEVEL_SHIFT (2 ^ ?a) = (2 :: u32) ^ (8 + 6 * Suc i)"
        by (simp add: TIME_LEVEL_SHIFT_def push_bit_eq_mult power_add)
      moreover have "drop_bit TIME_LEVEL_SHIFT (drop_bit ?a (of_nat (Suc n) :: u32)) = drop_bit (8 + 6 * Suc i) (of_nat (Suc n))"
        by (simp add: TIME_LEVEL_SHIFT_def drop_bit_drop_bit)
      moreover have "2 ^ (8 + 6 * Suc i) dvd Suc n" using dvd_next_digit[OF dv True] by (simp add: algebra_simps)
      ultimately show ?thesis
        using Suc.hyps(1)[of "Suc i"] Suc.hyps(2) i m dv dg True
        by (subst shift_loop.simps) (simp add: Let_def del: of_nat_Suc)
    next
      case False
      then have "carries i (Suc n)" using dv i by (simp add: carries_def)
      from move_list_ok[OF w(1) this w(2)] m dv dg False show ?thesis
        by (subst shift_loop.simps) (simp add: Let_def del: of_nat_Suc)
    qed
  qed
qed

lemma timer_shift_ok:
  assumes w: "wheel n ps T" "\<forall>q \<in> set ps. n < fst q"
  shows "\<exists>T'. timer_shift T = Some T' \<and> wheel (Suc n) ps T'"
proof -
  have t: "tm_time T + 1 = of_nat (Suc n)" using w(1) by (simp add: wheel_def)
  show ?thesis
  proof (cases "of_nat (Suc n) = (0 :: u32)")
    case True
    then have "2 ^ 32 dvd Suc n" unfolding word_unat_eq_iff unat_of_nat by (simp add: dvd_eq_mod_eq_0)
    then obtain q where q: "Suc n = 2 ^ 32 * q" by (rule dvdE)
    then have "Suc n = 2 ^ 26 * (64 * q)" by simp
    then have "2 ^ 26 dvd Suc n" "Suc n div 2 ^ 26 mod 64 = 0" by (simp_all only: dvd_triv_left) simp
    then have "carries 3 (Suc n)" "Suc n div 2 ^ (8 + 6 * 3) mod 64 = 0" by (simp_all add: carries_def)
    with move_list_ok[OF w(1) _ w(2), of 3] have "wheel (Suc n) ps (move_list 3 0 (T\<lparr>tm_time := of_nat (Suc n)\<rparr>))" by simp
    then show ?thesis using t True by (simp add: timer_shift_def Let_def del: of_nat_Suc)
  next
    case False
    with shift_loop_ok[OF w False, of 0] t show ?thesis
      by (simp add: timer_shift_def TIME_NEAR_def TIME_NEAR_SHIFT_def Let_def del: of_nat_Suc)
  qed
qed

subsection \<open>Dispatching\<close>

definition due_msgs :: "nat \<Rightarrow> pending \<Rightarrow> (u32 \<times> skynet_message) list" where
  "due_msgs n ps =
     map (\<lambda>q. (te_handle (snd q), timer_message (te_session (snd q)))) (filter (\<lambda>q. fst q = n) ps)"

text \<open>The timers a batch of additions at tick \<open>n\<close> creates.\<close>

definition added :: "nat \<Rightarrow> timer_adds \<Rightarrow> pending" where
  "added n adds = map (\<lambda>(e, d). (n + unat d, e)) adds"

definition delays_ok :: "timer_adds \<Rightarrow> bool" where
  "delays_ok adds \<longleftrightarrow> (\<forall>(e, d) \<in> set adds. 0 < sint (d :: u32))"

lemma dispatch_list_map:
  "dispatch_list (map node_of qs) = map (\<lambda>q. (te_handle (snd q), timer_message (te_session (snd q)))) qs"
  by (induction qs) (simp_all add: node_of_def)

lemma sint_pos_unat: "0 < sint (d :: u32) \<Longrightarrow> 0 < unat d \<and> unat d < 2 ^ 31"
proof -
  assume pos: "0 < sint d"
  have lt: "sint d < 2 ^ 31" using sint_lt[of d] by simp
  have "uint d = take_bit 32 (sint d)" using uint_sint[of d] by simp
  also have "\<dots> = sint d" using pos lt by (intro take_bit_int_eq_self) auto
  finally show ?thesis using pos lt by (simp add: unat_eq_nat_uint)
qed

lemma added_close: "delays_ok adds \<Longrightarrow> q \<in> set (added n adds) \<Longrightarrow> n < fst q \<and> close n (fst q)"
  using sint_pos_unat by (fastforce simp: added_def delays_ok_def close_def)

lemma concurrent_adds_ok:
  assumes "wheel n ps T" "delays_ok adds"
  shows "wheel n (ps @ added n adds) (concurrent_adds adds T)"
proof -
  have "fold (\<lambda>(event, time). timer_add event time) adds T = fold add_node (map node_of (added n adds)) T"
    if "tm_time T = of_nat n" "wheel_shape T" "\<forall>q \<in> set (added n adds). close n (fst q)" for T
    using that
  proof (induction adds arbitrary: T)
    case (Cons a adds)
    obtain e d where a: "a = (e, d)" by (cases a)
    have "timer_add e d T = add_node (node_of (n + unat d, e)) T"
      using Cons.prems(1) by (simp add: timer_add_def node_of_def add.commute)
    moreover have "tm_time (add_node (node_of (n + unat d, e)) T) = of_nat n"
      "wheel_shape (add_node (node_of (n + unat d, e)) T)"
      using Cons.prems add_node_place[of n "(n + unat d, e)" T] by (simp_all add: a added_def)
    ultimately show ?case using Cons by (simp add: a added_def)
  qed (simp add: added_def)
  with assms wheel_add[OF assms(1), of "added n adds"] added_close[OF assms(2)] show ?thesis
    by (simp add: concurrent_adds_def wheel_def)
qed

lemma at_place_due:
  assumes "\<forall>q \<in> set ps. close n (fst q)"
  shows "at_place n (Near (n mod 2 ^ 8)) ps = filter (\<lambda>q. fst q = n) ps"
proof -
  have "place_of x n = Near (n mod 2 ^ 8) \<longleftrightarrow> x = n" for x
  proof
    assume "place_of x n = Near (n mod 2 ^ 8)"
    then have "agree 8 x n" "x mod 2 ^ 8 = n mod 2 ^ 8" by (simp_all add: place_of_def split: if_splits)
    then show "x = n" unfolding agree_def by (metis div_mult_mod_eq)
  qed (simp add: place_of_def agree_def)
  then show ?thesis by (simp add: at_place_def)
qed

lemma now_index: "unat ((of_nat n :: u32) AND TIME_NEAR_MASK) = n mod 2 ^ 8"
  using digit_word[of 0 8 n] by (simp add: TIME_NEAR_MASK_def mask_word(1))

lemma wheel_now:
  assumes "wheel n ps T"
  shows "tm_near T ! (n mod 2 ^ 8) = map node_of (filter (\<lambda>q. fst q = n) ps)"
proof -
  have "bucket T (Near (n mod 2 ^ 8)) = map node_of (at_place n (Near (n mod 2 ^ 8)) ps)"
    using assms place_ok_place_of[of n n] by (simp add: wheel_def place_of_def agree_def del: bucket.simps)
  moreover have "\<forall>q \<in> set ps. close n (fst q)" using assms by (simp add: wheel_def)
  ultimately show ?thesis by (simp only: at_place_due bucket.simps)
qed

lemma timer_execute_none:
  assumes "wheel n ps T" "\<forall>q \<in> set ps. fst q \<noteq> n"
  shows "timer_execute intf T = Some (T, [], intf)"
proof -
  have "filter (\<lambda>q. fst q = n) ps = []" using assms(2) by (simp add: filter_empty_conv)
  with wheel_now[OF assms(1)] have "tm_near T ! (n mod 2 ^ 8) = []" by simp
  moreover have "tm_time T = of_nat n" using assms(1) by (simp add: wheel_def)
  ultimately show ?thesis by (subst timer_execute.simps) (simp add: now_index)
qed

lemma timer_execute_some:
  assumes w: "wheel n ps T" and due: "\<exists>q \<in> set ps. fst q = n" and ok: "delays_ok (concat (take 1 intf))"
  shows "\<exists>T'. timer_execute intf T = Some (T', due_msgs n ps, drop 1 intf) \<and>
     wheel n (filter (\<lambda>q. fst q \<noteq> n) ps @ added n (concat (take 1 intf))) T'"
proof -
  let ?idx = "n mod 2 ^ 8" and ?adds = "concat (take 1 intf)"
  have sh: "wheel_shape T" and t: "tm_time T = of_nat n" and cl: "\<forall>q \<in> set ps. close n (fst q)"
    and bk: "\<And>p. place_ok p \<Longrightarrow> bucket T p = map node_of (at_place n p ps)"
    using w by (simp_all add: wheel_def)
  note now = wheel_now[OF w]
  let ?T1 = "T\<lparr>tm_near := (tm_near T)[?idx := []]\<rparr>"
  have other: "place_of x n \<noteq> Near ?idx \<longleftrightarrow> x \<noteq> n" for x
    using at_place_due[of "[(x, e)]" n] by (auto simp: place_of_def agree_def) (metis div_mult_mod_eq)
  have "wheel n (filter (\<lambda>q. fst q \<noteq> n) ps) ?T1"
    unfolding wheel_def
  proof (intro conjI allI impI)
    show "wheel_shape ?T1" using sh by (simp add: wheel_shape_def)
    fix p assume p: "place_ok p"
    have "at_place n p (filter (\<lambda>q. fst q \<noteq> n) ps) = (if p = Near ?idx then [] else at_place n p ps)"
      using other by (auto simp: at_place_def filter_empty_conv intro!: filter_cong)
    moreover have "bucket ?T1 p = (if p = Near ?idx then [] else bucket T p)"
      using sh p by (cases p) (auto simp: wheel_shape_def nth_list_update)
    ultimately show "bucket ?T1 p = map node_of (at_place n p (filter (\<lambda>q. fst q \<noteq> n) ps))" using bk[OF p] by simp
  qed (use t cl in simp_all)
  from concurrent_adds_ok[OF this ok]
  have w2: "wheel n (filter (\<lambda>q. fst q \<noteq> n) ps @ added n ?adds) (concurrent_adds ?adds ?T1)" .
  have "timer_execute (drop 1 intf) (concurrent_adds ?adds ?T1) = Some (concurrent_adds ?adds ?T1, [], drop 1 intf)"
    by (rule timer_execute_none[OF w2]) (use added_close[OF ok] in auto)
  moreover have "filter (\<lambda>q. fst q = n) ps \<noteq> []" using due by (auto simp: filter_empty_conv)
  ultimately have "timer_execute intf T = Some (concurrent_adds ?adds ?T1, due_msgs n ps, drop 1 intf)"
    using now t
    by (subst timer_execute.simps) (simp add: now_index dispatch_list_map due_msgs_def)
  with w2 show ?thesis by blast
qed

section \<open>The wheel is a calendar\<close>

text \<open>
  The contract of a timer service, over an unbounded clock: an event added with delay \<open>d\<close> at tick
  \<open>n\<close> is due at \<open>n + d\<close>, and the tick hands out the events due, in the order they were added. The
  additions a tick carries are those other threads make while it is handing out events; when there
  are none to hand out, the lock is not released.
\<close>

datatype ('e, 'd) cal_op = Cal_Add 'e 'd | Cal_Tick "('e \<times> 'd) list"

fun cal_run :: "('d \<Rightarrow> nat) \<Rightarrow> nat \<Rightarrow> (nat \<times> 'e) list \<Rightarrow> ('e, 'd) cal_op list \<Rightarrow> 'e list list" where
  "cal_run del n ps [] = []"
| "cal_run del n ps (Cal_Add e d # ops) = cal_run del n (ps @ [(n + del d, e)]) ops"
| "cal_run del n ps (Cal_Tick adds # ops) =
     (let due = filter (\<lambda>q. fst q = Suc n) ps;
          new = (if due = [] then [] else map (\<lambda>(e, d). (Suc n + del d, e)) adds)
      in map snd due # cal_run del (Suc n) (filter (\<lambda>q. fst q \<noteq> Suc n) ps @ new) ops)"

fun cal_delays :: "('e, 'd) cal_op list \<Rightarrow> 'd set" where
  "cal_delays [] = {}"
| "cal_delays (Cal_Add e d # ops) = insert d (cal_delays ops)"
| "cal_delays (Cal_Tick adds # ops) = snd ` set adds \<union> cal_delays ops"

fun cal_exec :: "('e \<Rightarrow> 'd \<Rightarrow> 's \<Rightarrow> 's) \<Rightarrow> (('e \<times> 'd) list \<Rightarrow> 's \<Rightarrow> ('s \<times> 'm list) option) \<Rightarrow>
    ('e, 'd) cal_op list \<Rightarrow> 's \<Rightarrow> ('s \<times> 'm list list) option" where
  "cal_exec add tick [] s = Some (s, [])"
| "cal_exec add tick (Cal_Add e d # ops) s = cal_exec add tick ops (add e d s)"
| "cal_exec add tick (Cal_Tick adds # ops) s = do {
     r \<leftarrow> tick adds s;
     rest \<leftarrow> cal_exec add tick ops (fst r);
     Some (fst rest, snd r # snd rest)
   }"

locale timer_service =
  fixes add :: "'e \<Rightarrow> 'd \<Rightarrow> 's \<Rightarrow> 's"
    and tick :: "('e \<times> 'd) list \<Rightarrow> 's \<Rightarrow> ('s \<times> 'm list) option"
    and msg :: "'e \<Rightarrow> 'm"
    and del :: "'d \<Rightarrow> nat"
    and legal :: "'d \<Rightarrow> bool"
    and holds :: "nat \<Rightarrow> (nat \<times> 'e) list \<Rightarrow> 's \<Rightarrow> bool"
  assumes add_holds: "holds n ps s \<Longrightarrow> legal d \<Longrightarrow> holds n (ps @ [(n + del d, e)]) (add e d s)"
    and tick_holds: "holds n ps s \<Longrightarrow> \<forall>a \<in> set adds. legal (snd a) \<Longrightarrow>
      \<exists>s'. tick adds s = Some (s', map (msg \<circ> snd) (filter (\<lambda>q. fst q = Suc n) ps)) \<and>
           holds (Suc n) (filter (\<lambda>q. fst q \<noteq> Suc n) ps @
             (if filter (\<lambda>q. fst q = Suc n) ps = [] then [] else map (\<lambda>(e, d). (Suc n + del d, e)) adds)) s'"
begin

lemma exec_ok:
  "holds n ps s \<Longrightarrow> \<forall>d \<in> cal_delays ops. legal d \<Longrightarrow>
     \<exists>s'. cal_exec add tick ops s = Some (s', map (map msg) (cal_run del n ps ops))"
proof (induction ops arbitrary: n ps s)
  case Nil
  then show ?case by simp
next
  case (Cons op ops)
  show ?case
  proof (cases op)
    case (Cal_Add e d)
    with Cons add_holds[OF Cons.prems(1)] show ?thesis by simp
  next
    case (Cal_Tick adds)
    define new where "new = (if filter (\<lambda>q. fst q = Suc n) ps = [] then [] else map (\<lambda>(e, d). (Suc n + del d, e)) adds)"
    obtain s1 where s1: "tick adds s = Some (s1, map (msg \<circ> snd) (filter (\<lambda>q. fst q = Suc n) ps))"
      "holds (Suc n) (filter (\<lambda>q. fst q \<noteq> Suc n) ps @ new) s1"
      using tick_holds[OF Cons.prems(1), of adds] Cons.prems(2) Cal_Tick unfolding new_def by auto
    moreover have "\<forall>d \<in> cal_delays ops. legal d" using Cons.prems(2) Cal_Tick by simp
    ultimately obtain s2 where "cal_exec add tick ops s1 =
        Some (s2, map (map msg) (cal_run del (Suc n) (filter (\<lambda>q. fst q \<noteq> Suc n) ps @ new) ops))"
      using Cons.IH by blast
    with s1 Cal_Tick show ?thesis by (simp add: Let_def flip: new_def)
  qed
qed

end

text \<open>Between two updates no timer is due.\<close>

definition settled :: "nat \<Rightarrow> pending \<Rightarrow> timer \<Rightarrow> bool" where
  "settled n ps T \<longleftrightarrow> wheel n ps T \<and> (\<forall>q \<in> set ps. n < fst q)"

definition event_msg :: "timer_event \<Rightarrow> u32 \<times> skynet_message" where
  "event_msg e = (te_handle e, timer_message (te_session e))"

definition timer_tick :: "timer_adds \<Rightarrow> timer \<Rightarrow> (timer \<times> (u32 \<times> skynet_message) list) option" where
  "timer_tick adds T = do {
     r \<leftarrow> timer_update [adds] T;
     Some (fst r, fst (snd r))
   }"

lemma due_msgs_event: "due_msgs n ps = map (event_msg \<circ> snd) (filter (\<lambda>q. fst q = n) ps)"
  by (simp add: due_msgs_def event_msg_def comp_def)

lemma timer_update_ok:
  assumes st: "settled n ps T" and ok: "delays_ok (concat (take 1 intf))"
  shows "\<exists>T' intf'. timer_update intf T = Some (T', due_msgs (Suc n) ps, intf') \<and>
    settled (Suc n) (filter (\<lambda>q. fst q \<noteq> Suc n) ps @
      (if filter (\<lambda>q. fst q = Suc n) ps = [] then [] else added (Suc n) (concat (take 1 intf)))) T'"
proof -
  have w: "wheel n ps T" and later: "\<forall>q \<in> set ps. n < fst q" using st by (simp_all add: settled_def)
  have e1: "timer_execute intf T = Some (T, [], intf)"
    using later by (intro timer_execute_none[OF w]) auto
  obtain T1 where T1: "timer_shift T = Some T1" "wheel (Suc n) ps T1" using timer_shift_ok[OF w later] by blast
  show ?thesis
  proof (cases "filter (\<lambda>q. fst q = Suc n) ps = []")
    case True
    then have ne: "\<forall>q \<in> set ps. fst q \<noteq> Suc n" by (simp add: filter_empty_conv)
    moreover have "filter (\<lambda>q. fst q \<noteq> Suc n) ps = ps" using ne by (simp add: filter_id_conv)
    moreover have "\<forall>q \<in> set ps. Suc n < fst q" using later ne by (metis Suc_lessI)
    ultimately show ?thesis
      using True e1 T1 timer_execute_none[OF T1(2) ne, of intf]
      by (simp add: timer_update_def due_msgs_def settled_def)
  next
    case False
    then have due: "\<exists>q \<in> set ps. fst q = Suc n" by (auto simp: filter_empty_conv)
    obtain T2 where T2: "timer_execute intf T1 = Some (T2, due_msgs (Suc n) ps, drop 1 intf)"
      "wheel (Suc n) (filter (\<lambda>q. fst q \<noteq> Suc n) ps @ added (Suc n) (concat (take 1 intf))) T2"
      using timer_execute_some[OF T1(2) due ok] by blast
    have "\<forall>q \<in> set (filter (\<lambda>q. fst q \<noteq> Suc n) ps @ added (Suc n) (concat (take 1 intf))). Suc n < fst q"
      using later added_close[OF ok] by (auto intro: Suc_lessI)
    with T2(2) have "settled (Suc n) (filter (\<lambda>q. fst q \<noteq> Suc n) ps @ added (Suc n) (concat (take 1 intf))) T2"
      unfolding settled_def by blast
    with False e1 T1(1) T2(1) show ?thesis by (simp add: timer_update_def)
  qed
qed

lemma timer_add_ok: "settled n ps T \<Longrightarrow> 0 < sint d \<Longrightarrow> settled n (ps @ [(n + unat d, e)]) (timer_add e d T)"
  using concurrent_adds_ok[of n ps T "[(e, d)]"] added_close[of "[(e, d)]" "(n + unat d, e)" n]
  by (auto simp: settled_def delays_ok_def added_def concurrent_adds_def)

interpretation wheel: timer_service timer_add timer_tick event_msg unat "\<lambda>d. 0 < sint d" settled
proof unfold_locales
  fix n ps T d e assume "settled n ps T" "0 < sint (d :: u32)"
  then show "settled n (ps @ [(n + unat d, e)]) (timer_add e d T)" by (rule timer_add_ok)
next
  fix n ps T and adds :: timer_adds
  assume st: "settled n ps T" and ok: "\<forall>a \<in> set adds. 0 < sint (snd a)"
  have "delays_ok (concat (take 1 [adds]))" using ok by (auto simp: delays_ok_def)
  from timer_update_ok[OF st this]
  show "\<exists>s'. timer_tick adds T = Some (s', map (event_msg \<circ> snd) (filter (\<lambda>q. fst q = Suc n) ps)) \<and>
      settled (Suc n) (filter (\<lambda>q. fst q \<noteq> Suc n) ps @
        (if filter (\<lambda>q. fst q = Suc n) ps = [] then [] else map (\<lambda>(e, d). (Suc n + unat d, e)) adds)) s'"
    by (auto simp: timer_tick_def due_msgs_event added_def)
qed

lemma settled_init: "settled 0 [] (skynet_timer_init sec cs cp)"
proof -
  have "bucket (skynet_timer_init sec cs cp) p = []" if "place_ok p" for p
    using that by (cases p) (auto simp: skynet_timer_init_def timer_create_timer_def TIME_NEAR_def TIME_LEVEL_def)
  then show ?thesis
    by (simp add: settled_def wheel_def wheel_shape_def skynet_timer_init_def timer_create_timer_def TIME_NEAR_def TIME_LEVEL_def)
qed

lemma settled_clock [simp]:
  "settled n ps (T\<lparr>tm_current_point := cp, tm_current := c\<rparr>) \<longleftrightarrow> settled n ps T"
proof -
  have "bucket (T\<lparr>tm_current_point := cp, tm_current := c\<rparr>) p = bucket T p" for p by (cases p) simp_all
  then show ?thesis by (simp add: settled_def wheel_def wheel_shape_def)
qed

lemma clock_frame:
  "tm_current (add_node q T) = tm_current T" "tm_current_point (add_node q T) = tm_current_point T"
  by (simp_all add: add_node_def link_near_def link_level_def Let_def)

lemma clock_frame_fold:
  "tm_current (fold add_node qs T) = tm_current T" "tm_current_point (fold add_node qs T) = tm_current_point T"
  by (induction qs arbitrary: T) (simp_all add: clock_frame)

lemma clock_frame_adds:
  "tm_current (concurrent_adds adds T) = tm_current T"
  "tm_current_point (concurrent_adds adds T) = tm_current_point T"
  unfolding concurrent_adds_def
  by (induction adds arbitrary: T) (auto simp: timer_add_def clock_frame)

lemma clock_frame_shift:
  "shift_loop ct m t i T = Some T' \<Longrightarrow> tm_current T' = tm_current T \<and> tm_current_point T' = tm_current_point T"
  by (induction ct m t i T rule: shift_loop.induct)
    (subst (asm) (2) shift_loop.simps, auto simp: move_list_def clock_frame_fold Let_def split: if_splits)

lemma clock_frame_execute:
  assumes "timer_execute intf T = Some r"
  shows "tm_current (fst r) = tm_current T \<and> tm_current_point (fst r) = tm_current_point T"
proof (rule timer_execute.raw_induct[OF _ assms], goal_cases)
  case (1 f intf T r)
  from 1(2) 1(1) show ?case
    by (fastforce simp: Let_def clock_frame_adds bind_eq_Some_conv split: if_splits)
qed

lemma clock_frame_update:
  "timer_update intf T = Some r \<Longrightarrow>
     tm_current (fst r) = tm_current T \<and> tm_current_point (fst r) = tm_current_point T"
  unfolding timer_update_def timer_shift_def
  by (auto simp: Let_def bind_eq_Some_conv move_list_def clock_frame_fold split: if_splits
      dest!: clock_frame_execute clock_frame_shift)

lemma update_loop_ok:
  "settled n ps T \<Longrightarrow>
     \<exists>T'. update_loop k [] T = Some (T', concat (map (\<lambda>j. due_msgs j ps) [Suc n..<Suc (n + k)])) \<and>
          settled (n + k) (filter (\<lambda>q. n + k < fst q) ps) T' \<and>
          tm_current T' = tm_current T \<and> tm_current_point T' = tm_current_point T"
proof (induction k arbitrary: n ps T)
  case 0
  then have "filter (\<lambda>q. n < fst q) ps = ps" by (simp add: settled_def filter_id_conv)
  with 0 show ?case by simp
next
  case (Suc k)
  let ?ps = "filter (\<lambda>q. fst q \<noteq> Suc n) ps"
  have no: "(if c then [] else added (Suc n) (concat (take 1 []))) = []" for c by (simp add: added_def)
  obtain T1 intf' where T1: "timer_update [] T = Some (T1, due_msgs (Suc n) ps, intf')" "settled (Suc n) ?ps T1"
    using timer_update_ok[OF Suc.prems, of "[]", unfolded no] by (auto simp: delays_ok_def)
  obtain T2 where T2: "update_loop k [] T1 = Some (T2, concat (map (\<lambda>j. due_msgs j ?ps) [Suc (Suc n)..<Suc (Suc n + k)]))"
    "settled (Suc n + k) (filter (\<lambda>q. Suc n + k < fst q) ?ps) T2"
    "tm_current T2 = tm_current T1" "tm_current_point T2 = tm_current_point T1"
    using Suc.IH[OF T1(2)] by blast
  have "filter (\<lambda>q. Suc n + k < fst q) ?ps = filter (\<lambda>q. n + Suc k < fst q) ps"
    by (auto simp: filter_filter intro: filter_cong)
  moreover have mp: "map (\<lambda>j. due_msgs j ?ps) [Suc (Suc n)..<Suc (Suc n + k)] = map (\<lambda>j. due_msgs j ps) [Suc (Suc n)..<Suc (Suc n + k)]"
    by (auto simp: due_msgs_def filter_filter intro!: filter_cong arg_cong[where f = "map _"])
  moreover have "[Suc n..<Suc (n + Suc k)] = Suc n # [Suc (Suc n)..<Suc (Suc n + k)]" by (simp add: upt_rec)
  ultimately show ?case
    using T1(1) T2(1)[unfolded mp] T2(2-4) clock_frame_update[OF T1(1)] by (simp del: upt_Suc)
qed

section \<open>Properties\<close>

text \<open>
  C15. The timing wheel behaves as a calendar over an unbounded clock. Every sequence of additions
  with positive delays and of clock updates, started on a fresh timer, runs without a fault, and
  each update dispatches exactly the timers whose delay has passed, in the order they were added:
  no timer is early, late, lost or sent twice, however often timers moved between the levels, when
  the 32-bit clock wraps around, and when other threads add timers while the lock is
  released for the dispatch.
\<close>

theorem timer_refines_calendar:
  assumes "\<forall>d \<in> cal_delays ops. 0 < sint d"
  shows "\<exists>T. cal_exec timer_add timer_tick ops (skynet_timer_init sec cs cp) =
             Some (T, map (map event_msg) (cal_run unat 0 [] ops))"
  using wheel.exec_ok[OF settled_init assms] .

theorem timer_refines_calendar_witness:
  "\<exists>T. cal_exec timer_add timer_tick
         [Cal_Add \<lparr>te_handle = 7, te_session = 1\<rparr> 2, Cal_Add \<lparr>te_handle = 8, te_session = 2\<rparr> 1,
          Cal_Tick [(\<lparr>te_handle = 9, te_session = 3\<rparr>, 300)], Cal_Tick []] (skynet_timer_init 0 0 0) =
       Some (T, [[(8, timer_message 2)], [(7, timer_message 1)]])"
  using timer_refines_calendar[of "[Cal_Add \<lparr>te_handle = 7, te_session = 1\<rparr> 2,
      Cal_Add \<lparr>te_handle = 8, te_session = 2\<rparr> 1, Cal_Tick [(\<lparr>te_handle = 9, te_session = 3\<rparr>, 300)], Cal_Tick []]" 0 0 0]
  by (simp add: event_msg_def Let_def)

lemma updatetime_settled:
  assumes "settled n ps T" "tm_current_point T \<le> cp" "unat (cp - tm_current_point T) < 2 ^ 31"
  shows "\<exists>T'. skynet_updatetime cp [] T =
      Some (T', concat (map (\<lambda>j. due_msgs j ps) [Suc n..<Suc (n + unat (cp - tm_current_point T))])) \<and>
    settled (n + unat (cp - tm_current_point T))
      (filter (\<lambda>q. n + unat (cp - tm_current_point T) < fst q) ps) T' \<and>
    skynet_now T' = skynet_now T + (cp - tm_current_point T) \<and> tm_current_point T' = cp"
proof (cases "cp = tm_current_point T")
  case True
  then have "filter (\<lambda>q. n < fst q) ps = ps" using assms(1) by (simp add: settled_def filter_id_conv)
  with True assms(1) show ?thesis by (simp add: skynet_updatetime_def)
next
  case False
  let ?d = "cp - tm_current_point T"
  have u: "unat (ucast ?d :: u32) = unat ?d" "ucast (ucast ?d :: u32) = ?d"
  proof -
    have lt: "unat ?d < 2 ^ 32" using assms(3) by simp
    then show e: "unat (ucast ?d :: u32) = unat ?d" by (simp add: unsigned_ucast_eq take_bit_nat_eq_self)
    show "ucast (ucast ?d :: u32) = ?d"
      unfolding word_unat_eq_iff using lt e by (simp add: unsigned_ucast_eq unat_take_bit_mod)
  qed
  have st: "settled n ps (T\<lparr>tm_current_point := cp, tm_current := tm_current T + ?d\<rparr>)" using assms(1) by simp
  have "\<not> cp < tm_current_point T" using assms(2) by simp
  with False u assms(3) have "skynet_updatetime cp [] T =
      update_loop (unat ?d) [] (T\<lparr>tm_current_point := cp, tm_current := tm_current T + ?d\<rparr>)"
    by (simp add: skynet_updatetime_def Let_def)
  with update_loop_ok[OF st, of "unat ?d"] show ?thesis by (simp add: skynet_now_def del: upt_Suc)
qed

text \<open>
  C24. When the monotonic clock has advanced by fewer than \<open>2 ^ 31\<close> centiseconds, an update catches up
  tick by tick: it dispatches the timers due in between ordered by the tick they are due and, within
  a tick, by the order of their addition; the others stay pending; \<open>skynet_now\<close> advances by the
  elapsed time and the new clock reading is remembered.
\<close>

theorem updatetime_catches_up:
  assumes "settled n ps T" "tm_current_point T \<le> cp" "unat (cp - tm_current_point T) < 2 ^ 31"
  shows "\<exists>T'. skynet_updatetime cp [] T =
      Some (T', concat (map (\<lambda>j. due_msgs j ps) [Suc n..<Suc (n + unat (cp - tm_current_point T))])) \<and>
    settled (n + unat (cp - tm_current_point T))
      (filter (\<lambda>q. n + unat (cp - tm_current_point T) < fst q) ps) T' \<and>
    skynet_now T' = skynet_now T + (cp - tm_current_point T) \<and> tm_current_point T' = cp"
  using updatetime_settled[OF assms] .

theorem updatetime_catches_up_witness:
  "\<exists>T'. skynet_updatetime 105 [] (skynet_timer_init 0 0 100) = Some (T', []) \<and>
        settled 5 [] T' \<and> skynet_now T' = 5 \<and> tm_current_point T' = 105"
proof -
  have c: "tm_current_point (skynet_timer_init 0 0 100) = 100" "skynet_now (skynet_timer_init 0 0 100) = 0"
    by (simp_all add: skynet_timer_init_def timer_create_timer_def skynet_now_def)
  have "concat (map (\<lambda>j. due_msgs j []) js) = []" for js by (simp add: due_msgs_def)
  with updatetime_catches_up[OF settled_init, of 0 0 100 105] c show ?thesis by simp
qed

text \<open>
  A timeout of at most zero leaves the pending timers as they are; a positive one makes its event
  due exactly that many ticks later, behind the timers already pending for that tick, whatever the
  32-bit clock reads.
\<close>

lemma timeout_schedules:
  assumes "settled n ps T"
  shows "settled n (if sint d \<le> 0 then ps else ps @ [(n + unat d, \<lparr>te_handle = h, te_session = session\<rparr>)])
      (snd (snd (skynet_timeout known h d session T)))"
  using assms timer_add_ok[OF assms, of d] by (simp add: skynet_timeout_def)

lemma timeout_schedules_witness:
  "settled 0 [(5, \<lparr>te_handle = 9, te_session = 2\<rparr>)]
     (snd (snd (skynet_timeout (\<lambda>_. True) 9 5 2 (skynet_timer_init 0 0 0))))"
  using timeout_schedules[OF settled_init[of 0 0 0], where d = 5 and h = 9 and session = 2 and known = "\<lambda>_. True"] by simp

end
