(* ===== verification/Databuffer.thy ===== *)
theory Databuffer
  imports Skynet_Prelude
begin

text \<open>
  The receive buffer of a connection, \<open>service-src/databuffer.h\<close>: the chunks that arrived from the
  socket, read as one byte stream, and the length header of the packet being received.

  The linked list of \<open>struct message\<close> is the list of the chunks' bytes. The nodes themselves come from a
  pool; the pool's state is the number of its blocks and the length of its free list. An \<open>int\<close>
  that counts bytes is a natural number; \<open>header\<close>, which is assembled from bytes of the wire, is the
  32-bit word of the code.
\<close>

section \<open>Data\<close>

definition MESSAGEPOOL :: nat where "MESSAGEPOOL = 1023"

record databuffer =
  db_header :: u32
  db_offset :: nat
  db_size :: nat
  db_msgs :: "byte list list"

record messagepool =
  mp_pools :: nat
  mp_freelist :: nat

definition databuffer_zero :: databuffer where
  "databuffer_zero = \<lparr>db_header = 0, db_offset = 0, db_size = 0, db_msgs = []\<rparr>"

section \<open>Operations\<close>

definition messagepool_free :: "messagepool \<Rightarrow> messagepool" where
  "messagepool_free mp = \<lparr>mp_pools = 0, mp_freelist = 0\<rparr>"

text \<open>\<open>_return_message\<close>: the head is dereferenced, and its node goes to the free list.\<close>

definition return_message :: "databuffer \<Rightarrow> messagepool \<Rightarrow> (databuffer \<times> messagepool) option" where
  "return_message db mp =
     (case db_msgs db of
        [] \<Rightarrow> None
      | m # ms \<Rightarrow> Some (db\<lparr>db_msgs := ms\<rparr>, mp\<lparr>mp_freelist := mp_freelist mp + 1\<rparr>))"

text \<open>The \<open>for\<close> loop of \<open>databuffer_read\<close>: the bytes copied out.\<close>

function read_loop :: "databuffer \<Rightarrow> messagepool \<Rightarrow> nat \<Rightarrow> (byte list \<times> databuffer \<times> messagepool) option" where
  "read_loop db mp sz =
     (case db_msgs db of
        [] \<Rightarrow> None
      | current # _ \<Rightarrow>
          if length current < db_offset db then None
          else
            (let bsz = length current - db_offset db in
             if sz < bsz then
               Some (take sz (drop (db_offset db) current), db\<lparr>db_offset := db_offset db + sz\<rparr>, mp)
             else if bsz = sz then
               (case return_message (db\<lparr>db_offset := 0\<rparr>) mp of
                  None \<Rightarrow> None
                | Some (db', mp') \<Rightarrow> Some (take sz (drop (db_offset db) current), db', mp'))
             else
               (case return_message db mp of
                  None \<Rightarrow> None
                | Some (db', mp') \<Rightarrow>
                    (case read_loop (db'\<lparr>db_offset := 0\<rparr>) mp' (sz - bsz) of
                       None \<Rightarrow> None
                     | Some (bs, r) \<Rightarrow> Some (drop (db_offset db) current @ bs, r)))))"
  by pat_completeness auto
termination
  by (relation "measure (\<lambda>(db, mp, sz). length (db_msgs db))") (auto simp: return_message_def)

declare read_loop.simps [simp del]

definition databuffer_read :: "databuffer \<Rightarrow> messagepool \<Rightarrow> nat \<Rightarrow> (byte list \<times> databuffer \<times> messagepool) option" where
  "databuffer_read db mp sz = do {
     _ \<leftarrow> assert_opt (sz \<le> db_size db);
     read_loop (db\<lparr>db_size := db_size db - sz\<rparr>) mp sz
   }"

definition databuffer_push :: "databuffer \<Rightarrow> messagepool \<Rightarrow> byte list \<Rightarrow> databuffer \<times> messagepool" where
  "databuffer_push db mp data =
     (let mp' = (if mp_freelist mp \<noteq> 0 then mp\<lparr>mp_freelist := mp_freelist mp - 1\<rparr>
                 else \<lparr>mp_pools = mp_pools mp + 1, mp_freelist = MESSAGEPOOL - 1\<rparr>)
      in (db\<lparr>db_msgs := db_msgs db @ [data], db_size := db_size db + length data\<rparr>, mp'))"

text \<open>The big-endian header, as the \<open>int\<close> the code assembles.\<close>

definition be_header :: "byte list \<Rightarrow> u32" where
  "be_header plen =
     (if length plen = 2 then push_bit 8 (ucast (plen ! 0)) OR ucast (plen ! 1)
      else push_bit 24 (ucast (plen ! 0)) OR push_bit 16 (ucast (plen ! 1))
           OR push_bit 8 (ucast (plen ! 2)) OR ucast (plen ! 3))"

text \<open>The result is the packet length as an \<open>int\<close>, or -1 while the packet is not complete.\<close>

definition databuffer_readheader :: "databuffer \<Rightarrow> messagepool \<Rightarrow> nat \<Rightarrow> (int \<times> databuffer \<times> messagepool) option" where
  "databuffer_readheader db mp header_size =
     (if db_header db = 0 \<and> db_size db < header_size then Some (- 1, db, mp)
      else do {
        (db', mp') \<leftarrow>
          (if db_header db = 0 then do {
             (plen, db1, mp1) \<leftarrow> databuffer_read db mp header_size;
             Some (db1\<lparr>db_header := be_header plen\<rparr>, mp1)
           }
           else Some (db, mp));
        Some (if int (db_size db') < sint (db_header db') then - 1 else sint (db_header db'), db', mp')
      })"

definition databuffer_reset :: "databuffer \<Rightarrow> databuffer" where
  "databuffer_reset db = db\<lparr>db_header := 0\<rparr>"

definition databuffer_clear :: "databuffer \<Rightarrow> messagepool \<Rightarrow> databuffer \<times> messagepool" where
  "databuffer_clear db mp = (databuffer_zero, mp\<lparr>mp_freelist := mp_freelist mp + length (db_msgs db)\<rparr>)"

section \<open>The buffer is a byte stream\<close>

definition db_bytes :: "databuffer \<Rightarrow> byte list" where
  "db_bytes db = drop (db_offset db) (concat (db_msgs db))"

text \<open>
  The invariant: \<open>size\<close> counts the unread bytes, and the offset lies in the first chunk.
\<close>

fun off_ok :: "byte list list \<Rightarrow> nat \<Rightarrow> bool" where
  "off_ok [] off \<longleftrightarrow> off = 0"
| "off_ok (m # ms) off \<longleftrightarrow> off \<le> length m"

definition db_ok :: "databuffer \<Rightarrow> bool" where
  "db_ok db \<longleftrightarrow> db_size db = length (db_bytes db) \<and> off_ok (db_msgs db) (db_offset db)"

lemma off_ok_0 [simp]: "off_ok ms 0"
  by (cases ms) simp_all

text \<open>The nodes of the pool are in use or on the free list.\<close>

definition pool_balance :: "nat \<Rightarrow> messagepool \<Rightarrow> bool" where
  "pool_balance used mp \<longleftrightarrow> used + mp_freelist mp = MESSAGEPOOL * mp_pools mp"

lemma read_loop_ok:
  "off_ok (db_msgs db) (db_offset db) \<Longrightarrow> 0 < sz \<Longrightarrow> sz \<le> length (db_bytes db) \<Longrightarrow>
   \<exists>db' mp'. read_loop db mp sz = Some (take sz (db_bytes db), db', mp') \<and>
     db_bytes db' = drop sz (db_bytes db) \<and> db_size db' = db_size db \<and> db_header db' = db_header db \<and>
     off_ok (db_msgs db') (db_offset db') \<and>
     length (db_msgs db') + mp_freelist mp' = length (db_msgs db) + mp_freelist mp \<and> mp_pools mp' = mp_pools mp"
proof (induction db mp sz rule: read_loop.induct)
  case (1 db mp sz)
  then obtain m ms where ms: "db_msgs db = m # ms" and off: "db_offset db \<le> length m"
    by (cases "db_msgs db") (auto simp: db_bytes_def)
  have bytes: "db_bytes db = drop (db_offset db) m @ concat ms" using ms off by (simp add: db_bytes_def)
  consider "sz < length m - db_offset db" | "sz = length m - db_offset db" | "length m - db_offset db < sz"
    by linarith
  then show ?case
  proof cases
    case 1
    then show ?thesis using ms off bytes
      by (subst read_loop.simps) (simp add: Let_def db_bytes_def add.commute)
  next
    case 2
    then show ?thesis using ms off bytes
      by (subst read_loop.simps) (simp add: Let_def return_message_def db_bytes_def)
  next
    case 3
    let ?db = "db\<lparr>db_msgs := ms, db_offset := 0\<rparr>" and ?mp = "mp\<lparr>mp_freelist := mp_freelist mp + 1\<rparr>"
    let ?sz = "sz - (length m - db_offset db)"
    have "sz \<le> length m - db_offset db + length (concat ms)" using "1.prems"(3) bytes by simp
    then have "length m < sz + db_offset db" "sz + db_offset db - length m \<le> length (concat ms)"
      using 3 off by linarith+
    moreover have "db_bytes ?db = concat ms" by (simp add: db_bytes_def)
    ultimately obtain db' mp' where "read_loop ?db ?mp ?sz = Some (take ?sz (concat ms), db', mp')"
      "db_bytes db' = drop ?sz (concat ms)" "db_size db' = db_size db" "db_header db' = db_header db"
      "off_ok (db_msgs db') (db_offset db')"
      "length (db_msgs db') + mp_freelist mp' = length ms + mp_freelist mp + 1" "mp_pools mp' = mp_pools mp"
      using "1.IH"[OF ms _ refl _ _ _ refl, of "db\<lparr>db_msgs := ms\<rparr>" ?mp] 3 off ms
      by (auto simp: return_message_def)
    then show ?thesis using 3 ms off bytes
      by (subst read_loop.simps) (simp add: Let_def return_message_def)
  qed
qed

lemma databuffer_read_ok:
  assumes "db_ok db" "0 < sz" "sz \<le> db_size db" "pool_balance (length (db_msgs db) + n) mp"
  shows "\<exists>db' mp'. databuffer_read db mp sz = Some (take sz (db_bytes db), db', mp') \<and>
    db_ok db' \<and> db_bytes db' = drop sz (db_bytes db) \<and> db_header db' = db_header db \<and>
    pool_balance (length (db_msgs db') + n) mp'"
proof -
  let ?db = "db\<lparr>db_size := db_size db - sz\<rparr>"
  have b: "db_bytes ?db = db_bytes db" by (simp add: db_bytes_def)
  obtain db' mp' where r: "read_loop ?db mp sz = Some (take sz (db_bytes db), db', mp')"
    "db_bytes db' = drop sz (db_bytes db)" "db_size db' = db_size db - sz" "db_header db' = db_header db"
    "off_ok (db_msgs db') (db_offset db')"
    "length (db_msgs db') + mp_freelist mp' = length (db_msgs db) + mp_freelist mp" "mp_pools mp' = mp_pools mp"
    using read_loop_ok[of ?db sz mp] assms b by (auto simp: db_ok_def)
  then show ?thesis using assms by (auto simp: databuffer_read_def db_ok_def pool_balance_def)
qed

lemma databuffer_push_ok:
  assumes "db_ok db" "pool_balance (length (db_msgs db) + n) mp" "databuffer_push db mp data = (db', mp')"
  shows "db_ok db'" "db_bytes db' = db_bytes db @ data" "db_header db' = db_header db"
    "pool_balance (length (db_msgs db') + n) mp'"
proof -
  have msgs: "db_msgs db' = db_msgs db @ [data]" "db_offset db' = db_offset db"
    "db_size db' = db_size db + length data" "db_header db' = db_header db"
    using assms(3) by (auto simp: databuffer_push_def Let_def)
  show "db_header db' = db_header db" by (rule msgs(4))
  have "db_offset db \<le> length (concat (db_msgs db))"
    using assms(1) by (cases "db_msgs db") (auto simp: db_ok_def)
  then show bytes: "db_bytes db' = db_bytes db @ data" using msgs by (simp add: db_bytes_def)
  show "db_ok db'"
    using assms(1) msgs bytes by (cases "db_msgs db") (auto simp: db_ok_def)
  show "pool_balance (length (db_msgs db') + n) mp'"
    using assms(2,3) msgs by (auto simp: pool_balance_def databuffer_push_def MESSAGEPOOL_def Let_def split: if_splits)
qed

lemma databuffer_clear_ok:
  assumes "pool_balance (length (db_msgs db) + n) mp" "databuffer_clear db mp = (db', mp')"
  shows "db_ok db'" "db_bytes db' = []" "db_header db' = 0" "pool_balance (length (db_msgs db') + n) mp'"
  using assms by (auto simp: databuffer_clear_def databuffer_zero_def db_ok_def db_bytes_def pool_balance_def)

lemma db_ok_zero [simp]: "db_ok databuffer_zero" "db_bytes databuffer_zero = []" "db_header databuffer_zero = 0"
  by (simp_all add: databuffer_zero_def db_ok_def db_bytes_def)

lemma databuffer_reset_ok [simp]:
  "db_ok (databuffer_reset db) = db_ok db" "db_bytes (databuffer_reset db) = db_bytes db"
  "db_header (databuffer_reset db) = 0" "db_msgs (databuffer_reset db) = db_msgs db"
  by (simp_all add: databuffer_reset_def db_ok_def db_bytes_def)

end
