(* ===== verification/Hashid.thy ===== *)
theory Hashid
  imports Registry "HOL-Library.Signed_Division"
begin

text \<open>
  The table of connection ids of the gate, \<open>service-src/hashid.h\<close>: an array of nodes, a free one
  marked by the id -1, chained from an array of buckets.

  A \<open>struct hashid_node *\<close> into the array is its index, a null pointer is \<^term>\<open>None\<close>. An id is an
  \<open>int\<close> of the code, in the range of 32-bit signed integers; \<open>&\<close> and \<open>%\<close> on it are the two's complement
  conjunction and the remainder of C, which takes the sign of the dividend.
\<close>

section \<open>Data\<close>

record hashid_node =
  hn_id :: int
  hn_next :: "nat option"

record hashid =
  hi_hashmod :: nat
  hi_cap :: nat
  hi_count :: nat
  hi_id :: "hashid_node list"
  hi_hash :: "nat option list"

section \<open>Operations\<close>

text \<open>\<open>while (hashcap < max) hashcap *= 2;\<close>\<close>

function grow_cap :: "nat \<Rightarrow> nat \<Rightarrow> nat" where
  "grow_cap max_n hashcap = (if 0 < hashcap \<and> hashcap < max_n then grow_cap max_n (hashcap * 2) else hashcap)"
  by pat_completeness auto
termination
  by (relation "measure (\<lambda>(m, c). m - c)") auto

declare grow_cap.simps [simp del]

definition hashid_init :: "nat \<Rightarrow> hashid" where
  "hashid_init max_n =
     (let hashcap = grow_cap max_n 16 in
      \<lparr>hi_hashmod = hashcap - 1, hi_cap = max_n, hi_count = 0,
       hi_id = replicate max_n \<lparr>hn_id = - 1, hn_next = None\<rparr>, hi_hash = replicate hashcap None\<rparr>)"

definition hashid_clear :: "hashid \<Rightarrow> hashid" where
  "hashid_clear hi = hi\<lparr>hi_id := [], hi_hash := [], hi_hashmod := 1, hi_cap := 0, hi_count := 0\<rparr>"

definition id_hash :: "hashid \<Rightarrow> int \<Rightarrow> nat" where
  "id_hash hi i = nat (i AND int (hi_hashmod hi))"

text \<open>Following a chain from \<open>c\<close>; a chain with a cycle is never left.\<close>

partial_function (option) find_chain :: "hashid \<Rightarrow> int \<Rightarrow> nat option \<Rightarrow> nat option option" where
  "find_chain hi i c =
     (case c of
        None \<Rightarrow> Some None
      | Some k \<Rightarrow>
          if k < length (hi_id hi) then
            (if hn_id (hi_id hi ! k) = i then Some (Some k)
             else find_chain hi i (hn_next (hi_id hi ! k)))
          else None)"

definition read_bucket :: "hashid \<Rightarrow> nat \<Rightarrow> nat option option" where
  "read_bucket hi h = (if h < length (hi_hash hi) then Some (hi_hash hi ! h) else None)"

definition hashid_lookup :: "hashid \<Rightarrow> int \<Rightarrow> int option" where
  "hashid_lookup hi i = do {
     c \<leftarrow> read_bucket hi (id_hash hi i);
     r \<leftarrow> find_chain hi i c;
     Some (case r of None \<Rightarrow> - 1 | Some k \<Rightarrow> int k)
   }"

text \<open>The \<open>while (c->next)\<close> loop of \<open>hashid_remove\<close>: the node before the one with the id.\<close>

partial_function (option) find_before :: "hashid \<Rightarrow> int \<Rightarrow> nat \<Rightarrow> nat option option" where
  "find_before hi i c =
     (if c < length (hi_id hi) then
        (case hn_next (hi_id hi ! c) of
           None \<Rightarrow> Some None
         | Some k \<Rightarrow>
             if k < length (hi_id hi) then
               (if hn_id (hi_id hi ! k) = i then Some (Some c) else find_before hi i k)
             else None)
      else None)"

definition clear_node :: "nat \<Rightarrow> hashid \<Rightarrow> hashid" where
  "clear_node k hi =
     hi\<lparr>hi_id := (hi_id hi)[k := \<lparr>hn_id = - 1, hn_next = None\<rparr>], hi_count := hi_count hi - 1\<rparr>"

definition hashid_remove :: "hashid \<Rightarrow> int \<Rightarrow> (int \<times> hashid) option" where
  "hashid_remove hi i = do {
     let h = id_hash hi i;
     b \<leftarrow> read_bucket hi h;
     case b of
       None \<Rightarrow> Some (- 1, hi)
     | Some c \<Rightarrow> do {
         _ \<leftarrow> assert_opt (c < length (hi_id hi));
         if hn_id (hi_id hi ! c) = i then
           Some (int c, clear_node c (hi\<lparr>hi_hash := (hi_hash hi)[h := hn_next (hi_id hi ! c)]\<rparr>))
         else do {
           r \<leftarrow> find_before hi i c;
           case r of
             None \<Rightarrow> Some (- 1, hi)
           | Some p \<Rightarrow> do {
               k \<leftarrow> hn_next (hi_id hi ! p);
               Some (int k, clear_node k
                 (hi\<lparr>hi_id := (hi_id hi)[p := (hi_id hi ! p)\<lparr>hn_next := hn_next (hi_id hi ! k)\<rparr>]\<rparr>))
             }
         }
       }
   }"

text \<open>The search for a free node; a negative index or an overflow of \<open>i + id\<close> is a fault.\<close>

fun free_node :: "hashid \<Rightarrow> int \<Rightarrow> nat list \<Rightarrow> nat option option" where
  "free_node hi i [] = Some None"
| "free_node hi i (j # js) =
     (let index = (int j + i) smod int (hi_cap hi) in
      if 2 ^ 31 \<le> int j + i \<or> index < 0 \<or> int (length (hi_id hi)) \<le> index then None
      else if hn_id (hi_id hi ! nat index) = - 1 then Some (Some (nat index))
      else free_node hi i js)"

definition hashid_insert :: "hashid \<Rightarrow> int \<Rightarrow> (nat \<times> hashid) option" where
  "hashid_insert hi i = do {
     r \<leftarrow> free_node hi i [0..<hi_cap hi];
     c \<leftarrow> r;
     _ \<leftarrow> assert_opt (hn_next (hi_id hi ! c) = None);
     let h = id_hash hi i;
     b \<leftarrow> read_bucket hi h;
     Some (c, hi\<lparr>hi_count := hi_count hi + 1, hi_id := (hi_id hi)[c := \<lparr>hn_id = i, hn_next = b\<rparr>],
                 hi_hash := (hi_hash hi)[h := Some c]\<rparr>)
   }"

definition hashid_full :: "hashid \<Rightarrow> bool" where
  "hashid_full hi \<longleftrightarrow> hi_count hi = hi_cap hi"

declare find_chain.simps [code] find_before.simps [code]

section \<open>Chains\<close>

fun chain :: "hashid_node list \<Rightarrow> nat option \<Rightarrow> nat list \<Rightarrow> bool" where
  "chain ns c [] \<longleftrightarrow> c = None"
| "chain ns c (k # ks) \<longleftrightarrow> c = Some k \<and> k < length ns \<and> chain ns (hn_next (ns ! k)) ks"

lemma chain_frame:
  "length ns' = length ns \<Longrightarrow> (\<And>k. k \<in> set ks \<Longrightarrow> hn_next (ns' ! k) = hn_next (ns ! k)) \<Longrightarrow>
   chain ns' c ks = chain ns c ks"
  by (induction ks arbitrary: c) auto

lemma chain_mid: "chain ns c (xs @ p # k # ys) \<Longrightarrow> hn_next (ns ! p) = Some k \<and> p < length ns \<and> k < length ns"
  by (induction xs arbitrary: c) auto

lemma find_chain_ok:
  "chain (hi_id hi) c ks \<Longrightarrow> find_chain hi i c = Some (find (\<lambda>k. hn_id (hi_id hi ! k) = i) ks)"
  by (induction ks arbitrary: c) (subst find_chain.simps, simp)+

text \<open>Taking the node after \<open>p\<close> out of its chain.\<close>

lemma chain_unlink:
  assumes "chain ns c (xs @ p # k # ys)" "distinct (xs @ p # k # ys)"
  shows "chain (ns[p := (ns ! p)\<lparr>hn_next := hn_next (ns ! k)\<rparr>, k := n]) c (xs @ p # ys)"
  using assms
proof (induction xs arbitrary: c)
  case Nil
  let ?ns = "ns[p := (ns ! p)\<lparr>hn_next := hn_next (ns ! k)\<rparr>, k := n]"
  from Nil have ch: "c = Some p" "p < length ns" "chain ns (hn_next (ns ! k)) ys" and d: "p \<noteq> k" "p \<notin> set ys" "k \<notin> set ys"
    by auto
  have "chain ?ns (hn_next (ns ! k)) ys = chain ns (hn_next (ns ! k)) ys"
  proof (rule chain_frame)
    fix j assume "j \<in> set ys"
    with d have "j \<noteq> p" "j \<noteq> k" by auto
    then show "hn_next (?ns ! j) = hn_next (ns ! j)" by simp
  qed simp
  with ch d show ?case by simp
next
  case (Cons x xs)
  then have "x \<noteq> p" "x \<noteq> k" by auto
  with Cons show ?case by simp
qed

text \<open>The search for the predecessor splits the chain where the id is.\<close>

lemma find_before_ok:
  "chain (hi_id hi) (Some c) (c # ks) \<Longrightarrow>
   (case find (\<lambda>k. hn_id (hi_id hi ! k) = i) ks of
      None \<Rightarrow> find_before hi i c = Some None
    | Some k \<Rightarrow> \<exists>xs p ys. c # ks = xs @ p # k # ys \<and> find_before hi i c = Some (Some p))"
proof (induction ks arbitrary: c)
  case Nil
  then show ?case by (subst find_before.simps) simp
next
  case (Cons k ks)
  show ?case
  proof (cases "hn_id (hi_id hi ! k) = i")
    case True
    then have "find_before hi i c = Some (Some c)"
      using Cons.prems by (subst find_before.simps) auto
    then show ?thesis using True by (auto intro: exI[of _ "[]"])
  next
    case False
    then have "find_before hi i c = find_before hi i k"
      using Cons.prems by (subst find_before.simps) auto
    moreover have "chain (hi_id hi) (Some k) (k # ks)" using Cons.prems by simp
    note Cons.IH[OF this]
    ultimately show ?thesis using False
      by (auto split: option.splits) (metis append_Cons)
  qed
qed

section \<open>The table is a map from ids to slots\<close>

lemma in_concat_iff: "k \<in> set (concat bs) \<longleftrightarrow> (\<exists>h < length bs. k \<in> set (bs ! h))"
  unfolding set_concat by (metis UN_iff in_set_conv_nth)

definition hid_ids :: "hashid \<Rightarrow> nat \<Rightarrow> int" where
  "hid_ids hi k = hn_id (hi_id hi ! k)"

definition hid_rep :: "nat list list \<Rightarrow> hashid \<Rightarrow> bool" where
  "hid_rep bs hi \<longleftrightarrow>
     length bs = length (hi_hash hi) \<and> length (hi_hash hi) = hi_hashmod hi + 1 \<and> length (hi_id hi) = hi_cap hi \<and>
     (\<forall>h < length bs. chain (hi_id hi) (hi_hash hi ! h) (bs ! h)) \<and>
     distinct (concat bs) \<and> set (concat bs) = {k. k < hi_cap hi \<and> hid_ids hi k \<noteq> - 1} \<and>
     (\<forall>h < length bs. \<forall>k \<in> set (bs ! h). 0 \<le> hid_ids hi k \<and> id_hash hi (hid_ids hi k) = h) \<and>
     inj_on (hid_ids hi) (set (concat bs)) \<and>
     (\<forall>k < hi_cap hi. hid_ids hi k = - 1 \<longrightarrow> hn_next (hi_id hi ! k) = None) \<and>
     hi_count hi = length (concat bs)"

definition hid_ok :: "hashid \<Rightarrow> bool" where
  "hid_ok hi \<longleftrightarrow> (\<exists>bs. hid_rep bs hi)"

text \<open>The slot of an id.\<close>

definition hid_slot :: "hashid \<Rightarrow> int \<Rightarrow> nat option" where
  "hid_slot hi i = (if i = - 1 then None else find (\<lambda>k. hid_ids hi k = i) [0..<hi_cap hi])"

lemma id_hash_less: "hid_rep bs hi \<Longrightarrow> id_hash hi i < length bs"
proof -
  assume "hid_rep bs hi"
  then have "length bs = hi_hashmod hi + 1" by (simp add: hid_rep_def)
  moreover have "i AND int (hi_hashmod hi) \<le> int (hi_hashmod hi)" by (rule AND_upper2) simp
  ultimately show ?thesis by (simp add: id_hash_def nat_less_iff)
qed

lemma find_eqI:
  assumes "\<And>k k'. k \<in> set xs \<Longrightarrow> P k \<Longrightarrow> k' \<in> set ys \<Longrightarrow> P k' \<Longrightarrow> k = k'"
    "\<And>k. k \<in> set xs \<Longrightarrow> P k \<Longrightarrow> k \<in> set ys" "\<And>k. k \<in> set ys \<Longrightarrow> P k \<Longrightarrow> k \<in> set xs"
  shows "find P xs = find P ys"
proof (cases "find P xs")
  case None
  then have "find P ys = None" using assms(3) by (auto simp: find_None_iff)
  with None show ?thesis by simp
next
  case (Some k)
  then have k: "P k" "k \<in> set xs" by (auto simp: find_Some_iff)
  with assms(2) have "find P ys \<noteq> None" by (auto simp: find_None_iff)
  then obtain k' where k': "find P ys = Some k'" by blast
  then have "P k'" "k' \<in> set ys" by (auto simp: find_Some_iff)
  with assms(1)[OF k(2,1)] k' Some show ?thesis by simp
qed

lemma bucket_find:
  assumes "hid_rep bs hi"
  shows "find (\<lambda>k. hid_ids hi k = i) (bs ! id_hash hi i) = hid_slot hi i"
proof -
  note less = id_hash_less[OF assms, of i]
  have used: "k \<in> set (concat bs) \<longleftrightarrow> k < hi_cap hi \<and> hid_ids hi k \<noteq> - 1" for k
    using assms by (auto simp: hid_rep_def)
  have inb: "k \<in> set (bs ! id_hash hi (hid_ids hi k)) \<longleftrightarrow> k < hi_cap hi \<and> hid_ids hi k \<noteq> - 1" for k
  proof
    assume "k \<in> set (bs ! id_hash hi (hid_ids hi k))"
    then have "k \<in> set (concat bs)" using id_hash_less[OF assms] by (auto simp: in_concat_iff simp del: set_concat)
    then show "k < hi_cap hi \<and> hid_ids hi k \<noteq> - 1" using used by simp
  next
    assume "k < hi_cap hi \<and> hid_ids hi k \<noteq> - 1"
    then have "k \<in> set (concat bs)" using used by simp
    then obtain h where "h < length bs" "k \<in> set (bs ! h)" by (auto simp: in_concat_iff simp del: set_concat)
    with assms show "k \<in> set (bs ! id_hash hi (hid_ids hi k))" by (auto simp: hid_rep_def)
  qed
  have inj: "hid_ids hi k = hid_ids hi k' \<Longrightarrow> k < hi_cap hi \<Longrightarrow> k' < hi_cap hi \<Longrightarrow> hid_ids hi k \<noteq> - 1 \<Longrightarrow> k = k'" for k k'
    using assms used by (auto simp: hid_rep_def dest: inj_onD)
  show ?thesis
  proof (cases "i = - 1")
    case True
    have "hid_ids hi k \<noteq> - 1" if "k \<in> set (bs ! id_hash hi i)" for k
      using that less used[of k] by (auto simp: in_concat_iff simp del: set_concat)
    then show ?thesis using True by (auto simp: hid_slot_def find_None_iff)
  next
    case False
    have "find (\<lambda>k. hid_ids hi k = i) (bs ! id_hash hi i) = find (\<lambda>k. hid_ids hi k = i) [0..<hi_cap hi]"
      by (rule find_eqI) (use inb inj False in auto)
    then show ?thesis using False by (simp add: hid_slot_def)
  qed
qed

lemma lookup_ok:
  assumes "hid_ok hi"
  shows "hashid_lookup hi i = Some (case hid_slot hi i of None \<Rightarrow> - 1 | Some k \<Rightarrow> int k)"
proof -
  obtain bs where rep: "hid_rep bs hi" using assms by (auto simp: hid_ok_def)
  let ?h = "id_hash hi i"
  have h: "?h < length bs" by (rule id_hash_less[OF rep])
  then have "chain (hi_id hi) (hi_hash hi ! ?h) (bs ! ?h)" "?h < length (hi_hash hi)"
    using rep by (auto simp: hid_rep_def)
  then show ?thesis using bucket_find[OF rep, of i]
    by (simp add: hashid_lookup_def read_bucket_def find_chain_ok hid_ids_def)
qed

subsection \<open>Insertion\<close>

lemma smod_nonneg: "0 \<le> a \<Longrightarrow> 0 < b \<Longrightarrow> a smod b = a mod (b :: int)"
  by (simp add: signed_modulo_int_def sgn_if)

lemma free_node_ok:
  assumes "0 \<le> i" "i + int (hi_cap hi) \<le> 2 ^ 31" "length (hi_id hi) = hi_cap hi"
  shows "\<forall>j \<in> set js. j < hi_cap hi \<Longrightarrow>
    free_node hi i js = Some (find (\<lambda>k. hid_ids hi k = - 1) (map (\<lambda>j. (j + nat i) mod hi_cap hi) js))"
proof (induction js)
  case (Cons j js)
  let ?c = "hi_cap hi"
  have j: "j < ?c" using Cons.prems by simp
  then have "(int j + i) smod int ?c = (int j + i) mod int ?c" using assms(1) by (intro smod_nonneg) auto
  also have "\<dots> = int ((j + nat i) mod ?c)" using assms(1) by (simp add: zmod_int)
  finally have idx: "(int j + i) smod int ?c = int ((j + nat i) mod ?c)" .
  moreover have "int j + i < 2 ^ 31" using j assms(2) by linarith
  moreover have "(j + nat i) mod ?c < ?c" using j by (intro mod_less_divisor) simp
  ultimately show ?case using Cons assms(3) by (simp add: Let_def hid_ids_def not_le)
qed simp

lemma free_slot_exists:
  assumes "hid_rep bs hi" "hi_count hi < hi_cap hi"
  shows "\<exists>k < hi_cap hi. hid_ids hi k = - 1"
proof (rule ccontr)
  assume "\<not> ?thesis"
  then have "set (concat bs) = {..<hi_cap hi}" using assms(1) unfolding hid_rep_def by blast
  then have "length (concat bs) = hi_cap hi"
    using assms(1) unfolding hid_rep_def by (metis card_lessThan distinct_card)
  with assms show False by (simp add: hid_rep_def)
qed

lemma free_node_found:
  assumes rep: "hid_rep bs hi" and "hi_count hi < hi_cap hi" "0 \<le> i" "i + int (hi_cap hi) \<le> 2 ^ 31"
  obtains k where "free_node hi i [0..<hi_cap hi] = Some (Some k)" "k < hi_cap hi" "hid_ids hi k = - 1"
proof -
  let ?c = "hi_cap hi" and ?f = "\<lambda>j. (j + nat i) mod hi_cap hi"
  obtain k0 where k0: "k0 < ?c" "hid_ids hi k0 = - 1" using free_slot_exists[OF assms(1,2)] by blast
  obtain j where j: "j < ?c" "?f j = k0" using mod_shift_surj[OF k0(1)] by blast
  have "find (\<lambda>k. hid_ids hi k = - 1) (map ?f [0..<?c]) \<noteq> None"
    using j k0 by (auto simp: find_None_iff)
  then obtain k where k: "find (\<lambda>k. hid_ids hi k = - 1) (map ?f [0..<?c]) = Some k" by blast
  have "k \<in> set (map ?f [0..<?c])" "hid_ids hi k = - 1" using k by (auto simp: find_Some_iff in_set_conv_nth)
  moreover have "length (hi_id hi) = ?c" using rep by (simp add: hid_rep_def)
  ultimately show thesis
    using that[of k] free_node_ok[OF assms(3,4), of "[0..<?c]"] k k0 by auto
qed

lemma distinct_concat_update:
  assumes "h < length bs" "distinct (concat bs)" "k \<notin> set (concat bs)"
  shows "distinct (concat (bs[h := k # bs ! h]))" "set (concat (bs[h := k # bs ! h])) = insert k (set (concat bs))"
    "length (concat (bs[h := k # bs ! h])) = Suc (length (concat bs))"
proof -
  have "bs[h := k # bs ! h] = take h bs @ (k # bs ! h) # drop (Suc h) bs" using assms(1) by (rule upd_conv_take_nth_drop)
  moreover have "bs = take h bs @ bs ! h # drop (Suc h) bs" using assms(1) by (rule id_take_nth_drop)
  then have "concat bs = concat (take h bs) @ bs ! h @ concat (drop (Suc h) bs)" by (metis concat.simps(2) concat_append)
  ultimately show "distinct (concat (bs[h := k # bs ! h]))" "set (concat (bs[h := k # bs ! h])) = insert k (set (concat bs))"
    "length (concat (bs[h := k # bs ! h])) = Suc (length (concat bs))"
    using assms(2,3) by (auto simp del: set_concat)
qed

lemma hid_slot_SomeD: "hid_slot hi i = Some k \<Longrightarrow> k < hi_cap hi \<and> hid_ids hi k = i \<and> i \<noteq> - 1"
  by (auto simp: hid_slot_def find_Some_iff split: if_splits)

lemma hid_slot_None_iff: "hid_slot hi i = None \<longleftrightarrow> (i = - 1 \<or> (\<forall>k < hi_cap hi. hid_ids hi k \<noteq> i))"
  by (auto simp: hid_slot_def find_None_iff)

lemma hid_slot_iff:
  assumes "hid_rep bs hi"
  shows "hid_slot hi i = Some k \<longleftrightarrow> k < hi_cap hi \<and> hid_ids hi k = i \<and> i \<noteq> - 1"
proof
  assume k: "k < hi_cap hi \<and> hid_ids hi k = i \<and> i \<noteq> - 1"
  then have "hid_slot hi i \<noteq> None" by (auto simp: hid_slot_None_iff)
  then obtain k' where k': "hid_slot hi i = Some k'" by blast
  from hid_slot_SomeD[OF this] k assms have "k' = k"
    unfolding hid_rep_def by (metis (mono_tags, lifting) inj_onD mem_Collect_eq)
  with k' show "hid_slot hi i = Some k" by simp
qed (rule hid_slot_SomeD)

lemma hid_repD:
  assumes "hid_rep bs hi"
  shows "length bs = length (hi_hash hi)" "length (hi_hash hi) = hi_hashmod hi + 1" "length (hi_id hi) = hi_cap hi"
    "h < length bs \<Longrightarrow> chain (hi_id hi) (hi_hash hi ! h) (bs ! h)"
    "distinct (concat bs)" "set (concat bs) = {k. k < hi_cap hi \<and> hid_ids hi k \<noteq> - 1}"
    "h < length bs \<Longrightarrow> k \<in> set (bs ! h) \<Longrightarrow> 0 \<le> hid_ids hi k \<and> id_hash hi (hid_ids hi k) = h"
    "inj_on (hid_ids hi) (set (concat bs))"
    "k < hi_cap hi \<Longrightarrow> hid_ids hi k = - 1 \<Longrightarrow> hn_next (hi_id hi ! k) = None"
    "hi_count hi = length (concat bs)"
  using assms unfolding hid_rep_def by blast+

lemma in_bucket: "h < length bs \<Longrightarrow> k \<in> set (bs ! h) \<Longrightarrow> k \<in> set (concat bs)"
  by (auto simp: in_concat_iff simp del: set_concat)

lemma insert_rep:
  assumes rep: "hid_rep bs hi" and k: "k < hi_cap hi" "hid_ids hi k = - 1" and i: "0 \<le> i" "hid_slot hi i = None"
  defines "h \<equiv> id_hash hi i"
  defines "hi' \<equiv> hi\<lparr>hi_count := hi_count hi + 1, hi_id := (hi_id hi)[k := \<lparr>hn_id = i, hn_next = hi_hash hi ! h\<rparr>],
                     hi_hash := (hi_hash hi)[h := Some k]\<rparr>"
  shows "hid_rep (bs[h := k # bs ! h]) hi'"
proof -
  note R = hid_repD[OF rep]
  let ?bs = "bs[h := k # bs ! h]"
  have h: "h < length bs" unfolding h_def by (rule id_hash_less[OF rep])
  have kn: "k \<notin> set (concat bs)" using R(6) k by auto
  note D = distinct_concat_update[OF h R(5) kn]
  have ids: "hid_ids hi' j = (if j = k then i else hid_ids hi j)" for j
    using k(1) R(3) by (simp add: hid_ids_def hi'_def nth_list_update)
  have hash: "id_hash hi' = id_hash hi" by (simp add: id_hash_def hi'_def fun_eq_iff)
  have next_eq: "hn_next (hi_id hi' ! j) = hn_next (hi_id hi ! j)" if "j \<noteq> k" for j
    using that by (simp add: hi'_def)
  have len: "length (hi_id hi') = length (hi_id hi)" by (simp add: hi'_def)
  have fld: "hi_cap hi' = hi_cap hi" "length (hi_hash hi') = length (hi_hash hi)"
    "hi_hashmod hi' = hi_hashmod hi" "hi_count hi' = hi_count hi + 1" by (simp_all add: hi'_def)
  have ch: "chain (hi_id hi') (hi_hash hi' ! g) (?bs ! g)" if g: "g < length ?bs" for g
  proof -
    have g': "g < length bs" using g by simp
    have "k \<notin> set (bs ! g)" using kn in_bucket[OF g'] by blast
    then have "chain (hi_id hi') c (bs ! g) = chain (hi_id hi) c (bs ! g)" for c
      by (intro chain_frame len) (metis next_eq)
    then show ?thesis using R(1,3) R(4)[of g] g' h k(1)
      by (cases "g = h") (simp_all add: hi'_def nth_list_update)
  qed
  have bk: "\<forall>g < length ?bs. \<forall>j \<in> set (?bs ! g). 0 \<le> hid_ids hi' j \<and> id_hash hi' (hid_ids hi' j) = g"
  proof (intro allI impI ballI)
    fix g j assume g: "g < length ?bs" and j: "j \<in> set (?bs ! g)"
    show "0 \<le> hid_ids hi' j \<and> id_hash hi' (hid_ids hi' j) = g"
    proof (cases "j = k")
      case True
      then have "g = h" using j g kn in_bucket[of g bs k] by (cases "g = h") auto
      with True i show ?thesis by (simp add: ids hash h_def)
    next
      case False
      then have "j \<in> set (bs ! g)" using j g h by (cases "g = h") auto
      with False R(7)[of g j] g show ?thesis by (simp add: ids hash)
    qed
  qed
  have inj: "inj_on (hid_ids hi') (set (concat ?bs))"
    unfolding D(2)
  proof (rule inj_on_insert[THEN iffD2], rule conjI)
    have "hid_ids hi' j = hid_ids hi j" if "j \<in> set (concat bs)" for j using that kn ids by auto
    then show "inj_on (hid_ids hi') (set (concat bs))" using R(8) by (simp add: inj_on_def del: set_concat)
    have "hid_ids hi j \<noteq> i" if "j \<in> set (concat bs)" for j
      using that i R(6) by (auto simp: hid_slot_None_iff)
    then show "hid_ids hi' k \<notin> hid_ids hi' ` (set (concat bs) - {k})" using kn by (auto simp: ids simp del: set_concat)
  qed
  have used: "set (concat ?bs) = {j. j < hi_cap hi' \<and> hid_ids hi' j \<noteq> - 1}"
    unfolding D(2) R(6) using k i(1) by (auto simp: ids fld)
  have nx: "\<forall>j < hi_cap hi'. hid_ids hi' j = - 1 \<longrightarrow> hn_next (hi_id hi' ! j) = None"
    using R(9) i(1) by (auto simp: ids next_eq fld)
  show ?thesis
    unfolding hid_rep_def using R(1-3,10) ch bk inj used nx D(1,3) len fld by auto
qed

lemma insert_ok:
  assumes "hid_ok hi" "\<not> hashid_full hi" "0 \<le> i" "i + int (hi_cap hi) \<le> 2 ^ 31" "hid_slot hi i = None"
  shows "\<exists>k hi'. hashid_insert hi i = Some (k, hi') \<and> hid_ok hi' \<and> k < hi_cap hi \<and> k \<notin> ran (hid_slot hi) \<and>
    hid_slot hi' = (hid_slot hi)(i \<mapsto> k) \<and> hi_cap hi' = hi_cap hi \<and> hi_count hi' = hi_count hi + 1"
proof -
  obtain bs where rep: "hid_rep bs hi" using assms(1) by (auto simp: hid_ok_def)
  have "length (concat bs) = card (set (concat bs))" using hid_repD(5)[OF rep] by (simp only: distinct_card)
  also have "\<dots> \<le> card {..<hi_cap hi}" using hid_repD(6)[OF rep] by (intro card_mono) auto
  finally have "hi_count hi < hi_cap hi" using assms(2) hid_repD(10)[OF rep] by (simp add: hashid_full_def)
  then obtain k where k: "free_node hi i [0..<hi_cap hi] = Some (Some k)" "k < hi_cap hi" "hid_ids hi k = - 1"
    using free_node_found[OF rep _ assms(3,4)] by blast
  let ?h = "id_hash hi i"
  let ?hi = "hi\<lparr>hi_count := hi_count hi + 1, hi_id := (hi_id hi)[k := \<lparr>hn_id = i, hn_next = hi_hash hi ! ?h\<rparr>],
                     hi_hash := (hi_hash hi)[?h := Some k]\<rparr>"
  have rep': "hid_rep (bs[?h := k # bs ! ?h]) ?hi" by (rule insert_rep[OF rep k(2,3) assms(3,5)])
  have "?h < length (hi_hash hi)" using id_hash_less[OF rep] hid_repD(1)[OF rep] by simp
  then have "hashid_insert hi i = Some (k, ?hi)"
    using k hid_repD(9)[OF rep k(2,3)] by (simp add: hashid_insert_def read_bucket_def Let_def)
  moreover have "hid_slot ?hi = (hid_slot hi)(i \<mapsto> k)"
  proof (rule map_eqI)
    have "hid_ids ?hi j = (if j = k then i else hid_ids hi j)" for j
      using k(2) hid_repD(3)[OF rep] by (simp add: hid_ids_def nth_list_update)
    then show "hid_slot ?hi i' = Some j \<longleftrightarrow> ((hid_slot hi)(i \<mapsto> k)) i' = Some j" for i' j
      using hid_slot_iff[OF rep', of i' j] hid_slot_iff[OF rep, of i' j] k assms(3,5)
      by (auto simp: hid_slot_None_iff)
  qed
  moreover have "k \<notin> ran (hid_slot hi)" using k(3) by (auto simp: ran_def dest: hid_slot_SomeD)
  moreover have "hid_ok ?hi" using rep' by (auto simp: hid_ok_def)
  ultimately show ?thesis using k(2) by (intro exI[of _ k] exI[of _ ?hi]) simp
qed

subsection \<open>Removal\<close>

lemma concat_update_remove:
  assumes "h < length bs" "bs ! h = xs @ k # ys" "distinct (concat bs)"
  shows "distinct (concat (bs[h := xs @ ys]))" "set (concat (bs[h := xs @ ys])) = set (concat bs) - {k}"
    "length (concat (bs[h := xs @ ys])) = length (concat bs) - 1"
proof -
  have "bs[h := xs @ ys] = take h bs @ (xs @ ys) # drop (Suc h) bs" using assms(1) by (rule upd_conv_take_nth_drop)
  moreover have "bs = take h bs @ (xs @ k # ys) # drop (Suc h) bs" using id_take_nth_drop[OF assms(1)] assms(2) by simp
  then have "concat bs = concat (take h bs) @ (xs @ k # ys) @ concat (drop (Suc h) bs)" by (metis concat.simps(2) concat_append)
  ultimately show "distinct (concat (bs[h := xs @ ys]))" "set (concat (bs[h := xs @ ys])) = set (concat bs) - {k}"
    "length (concat (bs[h := xs @ ys])) = length (concat bs) - 1"
    using assms(3) by (auto simp del: set_concat)
qed

text \<open>
  What an update that takes node \<open>k\<close> out of bucket \<open>h\<close> has to establish; the two branches of
  \<open>hashid_remove\<close> are instances.
\<close>

lemma remove_rep:
  assumes rep: "hid_rep bs hi" and h: "h < length bs" "bs ! h = xs @ k # ys"
    and fld: "hi_cap hi' = hi_cap hi" "length (hi_hash hi') = length (hi_hash hi)"
      "hi_hashmod hi' = hi_hashmod hi" "hi_count hi' = hi_count hi - 1" "length (hi_id hi') = length (hi_id hi)"
    and ch: "chain (hi_id hi') (hi_hash hi' ! h) (xs @ ys)"
    and oth: "\<And>g. g \<noteq> h \<Longrightarrow> hi_hash hi' ! g = hi_hash hi ! g"
      "\<And>j. j \<notin> set (bs ! h) \<Longrightarrow> hi_id hi' ! j = hi_id hi ! j"
    and k: "hi_id hi' ! k = \<lparr>hn_id = - 1, hn_next = None\<rparr>" "\<And>j. j \<noteq> k \<Longrightarrow> hid_ids hi' j = hid_ids hi j"
  shows "hid_rep (bs[h := xs @ ys]) hi'"
proof -
  note R = hid_repD[OF rep]
  let ?bs = "bs[h := xs @ ys]"
  note D = concat_update_remove[OF h R(5)]
  have ids: "hid_ids hi' j = (if j = k then - 1 else hid_ids hi j)" for j using k by (auto simp: hid_ids_def)
  have hash: "id_hash hi' = id_hash hi" using fld by (simp add: id_hash_def fun_eq_iff)
  have kin: "k \<in> set (concat bs)" using h in_bucket[of h bs k] by simp
  have disj: "set (bs ! g) \<inter> set (bs ! h) = {}" if "g < length bs" "g \<noteq> h" for g
    using R(7)[OF that(1)] R(7)[OF h(1)] that(2) by fastforce
  have "chain (hi_id hi') (hi_hash hi' ! g) (?bs ! g)" if g: "g < length bs" for g
  proof (cases "g = h")
    case False
    then have "chain (hi_id hi') c (bs ! g) = chain (hi_id hi) c (bs ! g)" for c
      using disj[OF g False] oth(2) by (intro chain_frame fld) (metis disjoint_iff)
    then show ?thesis using R(4)[OF g] oth(1)[OF False] False by simp
  qed (use ch h in simp)
  moreover have "\<forall>g < length bs. \<forall>j \<in> set (?bs ! g). 0 \<le> hid_ids hi' j \<and> id_hash hi' (hid_ids hi' j) = g"
  proof (intro allI impI ballI)
    fix g j assume g: "g < length bs" and j: "j \<in> set (?bs ! g)"
    have "j \<in> set (concat ?bs)" using in_bucket[of g ?bs j] g j by simp
    then have "j \<noteq> k" using D(2) by auto
    moreover have "j \<in> set (bs ! g)" using j g h by (cases "g = h") auto
    ultimately show "0 \<le> hid_ids hi' j \<and> id_hash hi' (hid_ids hi' j) = g" using R(7)[OF g] by (simp add: ids hash)
  qed
  moreover have "inj_on (hid_ids hi') (set (concat ?bs))"
    using R(8) unfolding D(2) inj_on_def ids by auto
  moreover have "set (concat ?bs) = {j. j < hi_cap hi' \<and> hid_ids hi' j \<noteq> - 1}"
    unfolding D(2) R(6) by (auto simp: ids fld)
  moreover have "\<forall>j < hi_cap hi'. hid_ids hi' j = - 1 \<longrightarrow> hn_next (hi_id hi' ! j) = None"
  proof (intro allI impI)
    fix j assume j: "j < hi_cap hi'" "hid_ids hi' j = - 1"
    show "hn_next (hi_id hi' ! j) = None"
    proof (cases "j = k")
      case False
      then have free: "hid_ids hi j = - 1" "j < hi_cap hi" using j fld by (simp_all add: ids)
      then have "j \<notin> set (bs ! h)" using R(6) in_bucket[OF h(1)] by auto
      with oth(2) R(9) free show ?thesis by simp
    qed (simp add: k(1))
  qed
  ultimately show ?thesis unfolding hid_rep_def using R(1-3,10) D(1,3) fld by simp
qed

lemma slot_gone:
  assumes rep: "hid_rep bs hi" and rep': "hid_rep bs' hi'" and slot: "hid_slot hi i = Some k"
    and cap: "hi_cap hi' = hi_cap hi" and ids: "\<And>j. hid_ids hi' j = (if j = k then - 1 else hid_ids hi j)"
  shows "hid_slot hi' = (hid_slot hi)(i := None)"
proof (rule map_eqI)
  fix i' j
  have k: "hid_ids hi k = i" "k < hi_cap hi" "i \<noteq> - 1" using hid_slot_SomeD[OF slot] by auto
  have jk: "j = k" if j: "hid_ids hi j = i" "j < hi_cap hi"
  proof -
    have "hid_slot hi i = Some j" using j k(3) hid_slot_iff[OF rep] by blast
    with slot show ?thesis by simp
  qed
  show "hid_slot hi' i' = Some j \<longleftrightarrow> ((hid_slot hi)(i := None)) i' = Some j"
  proof (cases "i' = i")
    case True
    then show ?thesis using hid_slot_iff[OF rep', of i j] cap ids[of j] jk k(3) by auto
  next
    case False
    have "hid_slot hi' i' = Some j \<longleftrightarrow> hid_slot hi i' = Some j"
      unfolding hid_slot_iff[OF rep'] hid_slot_iff[OF rep] cap ids[of j] using False k by auto
    with False show ?thesis by simp
  qed
qed

lemma remove_first_rep:
  assumes rep: "hid_rep bs hi" and h: "h < length bs" "bs ! h = c # cs"
  defines "hi' \<equiv> clear_node c (hi\<lparr>hi_hash := (hi_hash hi)[h := hn_next (hi_id hi ! c)]\<rparr>)"
  shows "hid_rep (bs[h := cs]) hi'" "hid_ids hi' j = (if j = c then - 1 else hid_ids hi j)"
proof -
  note R = hid_repD[OF rep]
  have hd: "hi_hash hi ! h = Some c" "c < length (hi_id hi)" "chain (hi_id hi) (hn_next (hi_id hi ! c)) cs"
    using R(4)[OF h(1)] h(2) by auto
  have dist: "distinct (c # cs)" using R(5) h by (metis distinct_concat_iff nth_mem)
  show ids: "hid_ids hi' j = (if j = c then - 1 else hid_ids hi j)" for j
    using hd(2) by (simp add: hi'_def clear_node_def hid_ids_def nth_list_update)
  have "chain (hi_id hi') (hn_next (hi_id hi ! c)) cs = chain (hi_id hi) (hn_next (hi_id hi ! c)) cs"
  proof (rule chain_frame)
    fix j assume "j \<in> set cs"
    then have "j \<noteq> c" using dist by auto
    then show "hn_next (hi_id hi' ! j) = hn_next (hi_id hi ! j)" by (simp add: hi'_def clear_node_def)
  qed (simp add: hi'_def clear_node_def)
  then have "hid_rep (bs[h := [] @ cs]) hi'"
    using hd h R(1) ids
    by (intro remove_rep[OF rep h(1)]) (auto simp: hi'_def clear_node_def nth_list_update hid_ids_def)
  then show "hid_rep (bs[h := cs]) hi'" by simp
qed

lemma remove_later_rep:
  assumes rep: "hid_rep bs hi" and h: "h < length bs" "bs ! h = xs @ p # k # ys"
  defines "hi' \<equiv> clear_node k (hi\<lparr>hi_id := (hi_id hi)[p := (hi_id hi ! p)\<lparr>hn_next := hn_next (hi_id hi ! k)\<rparr>]\<rparr>)"
  shows "hid_rep (bs[h := (xs @ [p]) @ ys]) hi'" "hid_ids hi' j = (if j = k then - 1 else hid_ids hi j)"
    "hn_next (hi_id hi ! p) = Some k"
proof -
  note ch = hid_repD(4)[OF rep h(1), unfolded h(2)]
  have dist: "distinct (xs @ p # k # ys)" using hid_repD(5)[OF rep] h by (metis distinct_concat_iff nth_mem)
  have pk: "p < length (hi_id hi)" "k < length (hi_id hi)" and ne: "p \<noteq> k"
    using chain_mid[OF ch] dist by auto
  show "hn_next (hi_id hi ! p) = Some k" using chain_mid[OF ch] by simp
  show ids: "hid_ids hi' j = (if j = k then - 1 else hid_ids hi j)" for j
    using pk ne by (simp add: hi'_def clear_node_def hid_ids_def nth_list_update)
  have "chain (hi_id hi') (hi_hash hi ! h) (xs @ p # ys)"
    using chain_unlink[OF ch dist] by (simp add: hi'_def clear_node_def)
  then show "hid_rep (bs[h := (xs @ [p]) @ ys]) hi'"
    using pk ne h(2) ids by (intro remove_rep[OF rep h(1)]) (auto simp: hi'_def clear_node_def)
qed

lemma remove_ok:
  assumes "hid_ok hi"
  shows "\<exists>hi'. hashid_remove hi i = Some (case hid_slot hi i of None \<Rightarrow> - 1 | Some k \<Rightarrow> int k, hi') \<and> hid_ok hi' \<and>
    hid_slot hi' = (hid_slot hi)(i := None) \<and> hi_cap hi' = hi_cap hi \<and>
    hi_count hi' = (if hid_slot hi i = None then hi_count hi else hi_count hi - 1)"
proof -
  obtain bs where rep: "hid_rep bs hi" using assms by (auto simp: hid_ok_def)
  define h where "h = id_hash hi i"
  have h: "h < length bs" unfolding h_def by (rule id_hash_less[OF rep])
  have fnd: "find (\<lambda>k. hid_ids hi k = i) (bs ! h) = hid_slot hi i" unfolding h_def by (rule bucket_find[OF rep])
  have rb: "read_bucket hi h = Some (hi_hash hi ! h)" using h hid_repD(1)[OF rep] by (simp add: read_bucket_def)
  note ch = hid_repD(4)[OF rep h]
  show ?thesis
  proof (cases "bs ! h")
    case Nil
    then show ?thesis using ch rb fnd assms by (auto simp: hashid_remove_def Let_def simp flip: h_def)
  next
    case (Cons c cs)
    then have hd: "hi_hash hi ! h = Some c" "c < length (hi_id hi)" "chain (hi_id hi) (Some c) (c # cs)"
      using ch by auto
    note rm = hashid_remove_def[of hi i, unfolded Let_def, folded h_def, unfolded rb hd(1)]
    show ?thesis
    proof (cases "hid_ids hi c = i")
      case True
      have slot: "hid_slot hi i = Some c" using fnd Cons True by simp
      note F = remove_first_rep[OF rep h Cons]
      have "hid_slot (clear_node c (hi\<lparr>hi_hash := (hi_hash hi)[h := hn_next (hi_id hi ! c)]\<rparr>)) = (hid_slot hi)(i := None)"
        by (rule slot_gone[OF rep F(1) slot _ F(2)]) (simp add: clear_node_def)
      with F(1) slot True hd(2) show ?thesis by (auto simp: rm hid_ids_def hid_ok_def clear_node_def)
    next
      case False
      have fc: "find (\<lambda>k. hid_ids hi k = i) cs = hid_slot hi i" using fnd Cons False by simp
      note fb = find_before_ok[OF hd(3), of i, folded hid_ids_def, unfolded fc]
      show ?thesis
      proof (cases "hid_slot hi i")
        case None
        with fb False hd(2) assms show ?thesis by (auto simp: rm hid_ids_def)
      next
        case (Some k)
        with fb obtain xs p ys where sp: "bs ! h = xs @ p # k # ys" "find_before hi i c = Some (Some p)"
          using Cons by auto
        note L = remove_later_rep[OF rep h sp(1)]
        have "hid_slot (clear_node k (hi\<lparr>hi_id := (hi_id hi)[p := (hi_id hi ! p)\<lparr>hn_next := hn_next (hi_id hi ! k)\<rparr>]\<rparr>)) =
            (hid_slot hi)(i := None)"
          by (rule slot_gone[OF rep L(1) Some _ L(2)]) (simp add: clear_node_def)
        with L(1,3) Some False sp(2) hd(2) show ?thesis by (auto simp: rm hid_ids_def hid_ok_def clear_node_def)
      qed
    qed
  qed
qed

subsection \<open>Initial table\<close>

lemma grow_cap_pos: "0 < c \<Longrightarrow> 0 < grow_cap m c"
  by (induction m c rule: grow_cap.induct) (subst grow_cap.simps, simp)

lemma hid_init_rep: "hid_rep (replicate (grow_cap n 16) []) (hashid_init n)"
  using grow_cap_pos[of 16 n] by (auto simp: hid_rep_def hashid_init_def Let_def hid_ids_def)

lemma hid_init [simp]:
  "hid_ok (hashid_init n)" "hid_slot (hashid_init n) = (\<lambda>_. None)" "hi_cap (hashid_init n) = n"
  "hi_count (hashid_init n) = 0"
proof -
  show "hid_ok (hashid_init n)" using hid_init_rep by (auto simp: hid_ok_def)
  show "hid_slot (hashid_init n) = (\<lambda>_. None)"
    by (rule ext) (auto simp: hid_slot_None_iff hashid_init_def Let_def hid_ids_def)
qed (simp_all add: hashid_init_def Let_def)

definition hid_remove :: "int \<Rightarrow> hashid \<Rightarrow> (nat option \<times> hashid) option" where
  "hid_remove i hi = do {
     r \<leftarrow> hashid_remove hi i;
     Some (if fst r < 0 then None else Some (nat (fst r)), snd r)
   }"

definition hid_legal :: "hashid \<Rightarrow> int \<Rightarrow> bool" where
  "hid_legal hi i \<longleftrightarrow> 0 \<le> i \<and> i + int (hi_cap hi) \<le> 2 ^ 31"

lemma count_le_cap: "hid_ok hi \<Longrightarrow> hi_count hi \<le> hi_cap hi"
proof -
  assume "hid_ok hi"
  then obtain bs where rep: "hid_rep bs hi" by (auto simp: hid_ok_def)
  have "hi_count hi = card (set (concat bs))"
    using hid_repD(5,10)[OF rep] by (simp only: distinct_card)
  also have "\<dots> \<le> card {..<hi_cap hi}" using hid_repD(6)[OF rep] by (intro card_mono) auto
  finally show ?thesis by simp
qed

interpretation hid: slot_map hid_slot "\<lambda>i hi. hashid_insert hi i" hid_remove hid_ok hid_legal
  "\<lambda>hi. hi_cap hi - hi_count hi"
proof unfold_locales
  fix hi i assume "hid_ok hi" "hid_legal hi i" "hid_slot hi i = None" "0 < hi_cap hi - hi_count hi"
  then show "\<exists>k s'. hashid_insert hi i = Some (k, s') \<and> hid_ok s' \<and> k \<notin> ran (hid_slot hi) \<and>
      hid_slot s' = (hid_slot hi)(i \<mapsto> k) \<and> hid_legal s' = hid_legal hi \<and>
      hi_cap hi - hi_count hi \<le> Suc (hi_cap s' - hi_count s')"
    using insert_ok[of hi i] by (fastforce simp: hashid_full_def hid_legal_def fun_eq_iff)
next
  fix hi i assume ok: "hid_ok hi"
  obtain hi' where "hashid_remove hi i = Some (case hid_slot hi i of None \<Rightarrow> - 1 | Some k \<Rightarrow> int k, hi')" "hid_ok hi'"
    "hid_slot hi' = (hid_slot hi)(i := None)" "hi_cap hi' = hi_cap hi"
    "hi_count hi' = (if hid_slot hi i = None then hi_count hi else hi_count hi - 1)"
    using remove_ok[OF ok] by blast
  then show "\<exists>s'. hid_remove i hi = Some (hid_slot hi i, s') \<and> hid_ok s' \<and> hid_slot s' = (hid_slot hi)(i := None) \<and>
      hid_legal s' = hid_legal hi \<and> hi_cap hi - hi_count hi \<le> hi_cap s' - hi_count s'"
    by (intro exI[of _ hi']) (auto simp: hid_remove_def hid_legal_def fun_eq_iff split: option.splits)
qed

section \<open>Properties\<close>



end
