(* ===== verification/Cstring.thy ===== *)
theory Cstring
  imports Skynet_Prelude
begin

text \<open>
  The functions of the C library that the services use on text: bytes of a literal, \<open>strtol\<close> and
  \<open>strtoul\<close>, decimal and hexadecimal printing, \<open>strsep\<close>, \<open>memcmp\<close> with a literal. A C string is
  the list of its bytes without the terminating zero byte.
\<close>

definition str :: "string \<Rightarrow> byte list" where
  "str s = map of_char s"

definition c_str :: "byte list \<Rightarrow> byte list" where
  "c_str bs = takeWhile (\<lambda>b. b \<noteq> 0) bs"

text \<open>A C string that lies in an array: the bytes before the first zero, which must be inside.\<close>

definition array_str :: "byte list \<Rightarrow> byte list option" where
  "array_str a = (if 0 \<in> set a then Some (takeWhile (\<lambda>b. b \<noteq> 0) a) else None)"

definition is_space :: "byte \<Rightarrow> bool" where
  "is_space b \<longleftrightarrow> b = 32 \<or> (9 \<le> b \<and> b \<le> 13)"

section \<open>Reading numbers\<close>

text \<open>The value of a digit in a base of at most 16.\<close>

definition digit_val :: "byte \<Rightarrow> nat" where
  "digit_val b =
     (if 48 \<le> b \<and> b \<le> 57 then unat b - 48
      else if 97 \<le> b \<and> b \<le> 122 then unat b - 87
      else if 65 \<le> b \<and> b \<le> 90 then unat b - 55 else 99)"

fun read_digits :: "nat \<Rightarrow> nat \<Rightarrow> byte list \<Rightarrow> nat" where
  "read_digits base acc [] = acc"
| "read_digits base acc (b # bs) =
     (if digit_val b < base then read_digits base (acc * base + digit_val b) bs else acc)"

text \<open>The optional sign: whether it is a minus, and the rest.\<close>

fun read_sign :: "byte list \<Rightarrow> bool \<times> byte list" where
  "read_sign [] = (False, [])"
| "read_sign (b # bs) = (if b = 45 then (True, bs) else if b = 43 then (False, bs) else (False, b # bs))"

text \<open>\<open>strtol(s, NULL, 10)\<close> saturates at the range of \<open>long\<close>.\<close>

definition strtol10 :: "byte list \<Rightarrow> int" where
  "strtol10 s =
     (let (neg, ds) = read_sign (dropWhile is_space s); v = int (read_digits 10 0 ds)
      in if neg then max (- (2 ^ 63)) (- v) else min (2 ^ 63 - 1) v)"

text \<open>Its result stored in an \<open>int\<close> keeps the low 32 bits.\<close>

definition to_int :: "int \<Rightarrow> int" where
  "to_int v = sint (word_of_int v :: u32)"

text \<open>\<open>strtoul(s, NULL, 16)\<close> stored in a \<open>uint32_t\<close>; an optional \<open>0x\<close> is skipped.\<close>

definition strtoul16 :: "byte list \<Rightarrow> u32" where
  "strtoul16 s =
     (let (neg, ds) = read_sign (dropWhile is_space s);
          ds' = (if length ds \<ge> 3 \<and> ds ! 0 = 48 \<and> (ds ! 1 = 120 \<or> ds ! 1 = 88) \<and> digit_val (ds ! 2) < 16 then drop 2 ds else ds);
          v = min (2 ^ 64 - 1) (read_digits 16 0 ds')
      in if neg then - (of_nat v) else of_nat v)"

text \<open>A \<open>%s\<close> of \<open>sscanf\<close>: the next token and the rest.\<close>

definition scan_token :: "byte list \<Rightarrow> (byte list \<times> byte list) option" where
  "scan_token s =
     (let s' = dropWhile is_space s; tok = takeWhile (\<lambda>b. \<not> is_space b) s'
      in if tok = [] then None else Some (tok, drop (length tok) s'))"

section \<open>Printing numbers\<close>

fun nat_dec :: "nat \<Rightarrow> byte list" where
  "nat_dec n = (if n < 10 then [of_nat (48 + n)] else nat_dec (n div 10) @ [of_nat (48 + n mod 10)])"

declare nat_dec.simps [simp del]

text \<open>\<open>%d\<close>\<close>

definition int_dec :: "int \<Rightarrow> byte list" where
  "int_dec v = (if v < 0 then 45 # nat_dec (nat (- v)) else nat_dec (nat v))"

definition hex_digit :: "nat \<Rightarrow> byte" where
  "hex_digit d = of_nat (if d < 10 then 48 + d else 87 + d)"

fun nat_hex :: "nat \<Rightarrow> byte list" where
  "nat_hex n = (if n < 16 then [hex_digit n] else nat_hex (n div 16) @ [hex_digit (n mod 16)])"

declare nat_hex.simps [simp del]

section \<open>Splitting and comparing\<close>

text \<open>\<open>strsep(&s, " ")\<close>: the token, and the rest or null.\<close>

definition strsep_space :: "byte list \<Rightarrow> byte list \<times> byte list option" where
  "strsep_space s =
     (let tok = takeWhile (\<lambda>b. b \<noteq> 32) s in (tok, if length tok < length s then Some (drop (length tok + 1) s) else None))"

text \<open>
  \<open>memcmp(s, lit, n) == 0\<close> for a string literal: the literal ends with a zero byte, and a comparison
  that finds no difference up to there and has to go on is a fault.
\<close>

definition memcmp_lit :: "byte list \<Rightarrow> byte list \<Rightarrow> nat \<Rightarrow> bool option" where
  "memcmp_lit s lit n =
     (let z = lit @ [0] in
      if n \<le> length z then Some (take n s = take n z)
      else if take (length z) s \<noteq> z then Some False
      else None)"

section \<open>Round trips\<close>

lemma unat_small_byte: "n < 256 \<Longrightarrow> unat (of_nat n :: byte) = n"
  by (simp add: unat_of_nat)

lemma digit_val_dec: "d < 10 \<Longrightarrow> digit_val (of_nat (48 + d)) = d"
  using unat_small_byte[of "48 + d"] by (simp add: digit_val_def word_le_nat_alt)

lemma digit_val_hex: "d < 16 \<Longrightarrow> digit_val (hex_digit d) = d"
  using unat_small_byte[of "48 + d"] unat_small_byte[of "87 + d"]
  by (simp add: digit_val_def hex_digit_def word_le_nat_alt)

text \<open>The reader stops at the first byte that is no digit.\<close>

definition no_digit :: "nat \<Rightarrow> byte list \<Rightarrow> bool" where
  "no_digit base bs \<longleftrightarrow> (case bs of [] \<Rightarrow> True | b # _ \<Rightarrow> \<not> digit_val b < base)"

lemma read_digits_stop: "no_digit base bs \<Longrightarrow> read_digits base acc bs = acc"
  by (cases bs) (simp_all add: no_digit_def)

lemma read_nat_dec: "read_digits 10 acc (nat_dec n @ bs) = read_digits 10 (acc * 10 ^ length (nat_dec n) + n) bs"
proof (induction n arbitrary: acc bs rule: nat_dec.induct)
  case (1 n)
  show ?case
  proof (cases "n < 10")
    case True
    then show ?thesis using digit_val_dec[of n] by (subst (1 2) nat_dec.simps) simp
  next
    case False
    have "nat_dec n = nat_dec (n div 10) @ [of_nat (48 + n mod 10)]" using False by (subst nat_dec.simps) simp
    then show ?thesis
      using 1[OF False, of acc "of_nat (48 + n mod 10) # bs"] digit_val_dec[of "n mod 10"]
      by (simp add: algebra_simps)
  qed
qed

lemma nat_dec_head: "\<exists>b bs. nat_dec n = b # bs \<and> \<not> is_space b \<and> b \<noteq> 45 \<and> b \<noteq> 43"
proof (induction n rule: nat_dec.induct)
  case (1 n)
  show ?case
  proof (cases "n < 10")
    case True
    then have "n \<in> {0, 1, 2, 3, 4, 5, 6, 7, 8, 9}" by auto
    then show ?thesis by (subst nat_dec.simps) (auto simp: is_space_def)
  next
    case False
    with 1 show ?thesis by (subst nat_dec.simps) auto
  qed
qed

lemma strtol_nat_dec: "no_digit 10 bs \<Longrightarrow> int n < 2 ^ 63 \<Longrightarrow> strtol10 (nat_dec n @ bs) = int n"
proof -
  assume nd: "no_digit 10 bs" and n: "int n < 2 ^ 63"
  obtain b cs where b: "nat_dec n = b # cs" "\<not> is_space b" "b \<noteq> 45" "b \<noteq> 43" using nat_dec_head[of n] by blast
  then have "read_sign (dropWhile is_space (nat_dec n @ bs)) = (False, nat_dec n @ bs)" by simp
  then show ?thesis
    using read_nat_dec[of 0 n bs] read_digits_stop[OF nd] n by (simp add: strtol10_def)
qed

lemma to_int_small: "0 \<le> v \<Longrightarrow> v < 2 ^ 31 \<Longrightarrow> to_int v = v"
proof -
  assume v: "0 \<le> v" "v < 2 ^ 31"
  have "sint (word_of_int v :: u32) = signed_take_bit 31 v" by (simp add: sint_sbintrunc')
  also have "\<dots> = v" using v by (simp add: signed_take_bit_int_eq_self)
  finally show ?thesis by (simp add: to_int_def)
qed

end
