(* ===== verification/Gate.thy ===== *)
theory Gate
  imports Databuffer Hashid Cstring
begin

text \<open>
  The gate service, \<open>service-src/service_gate.c\<close>: it accepts client connections, cuts the byte stream of
  each into packets by their length header, and forwards the packets to a broker, to the connection's
  agent or to the watchdog.

  A handler returns the new gate and the calls it makes on the rest of the node, in order. The node's side
  of \<open>skynet_queryname\<close> and \<open>skynet_socket_listen\<close> are the parameters \<open>query\<close> and \<open>listen\<close>. The texts of
  log messages are left out.
\<close>

section \<open>Data\<close>

datatype gate_act =
    Sock_Close int
  | Sock_Start int
  | Sock_Send int "byte list"
  | Send u32 u32 int "byte list"
  | Log

record connection =
  c_id :: int
  c_agent :: u32
  c_client :: u32
  c_remote_name :: "byte list"
  c_buffer :: databuffer

record gate =
  g_listen_id :: int
  g_watchdog :: u32
  g_broker :: u32
  g_client_tag :: int
  g_header_size :: nat
  g_max_connection :: nat
  g_hash :: hashid
  g_conn :: "connection list"
  g_mp :: messagepool

text \<open>A \<open>struct skynet_socket_message\<close>; \<open>extra\<close> are the bytes that follow it.\<close>

datatype socket_type = Sock_Data | Sock_Connect | Sock_Closed | Sock_Accept | Sock_Error | Sock_Udp | Sock_Warning

record socket_msg =
  sm_type :: socket_type
  sm_id :: int
  sm_ud :: int
  sm_buffer :: "byte list"
  sm_extra :: "byte list"

definition empty_conn :: connection where
  "empty_conn = \<lparr>c_id = - 1, c_agent = 0, c_client = 0, c_remote_name = [], c_buffer = databuffer_zero\<rparr>"

definition gate_create :: gate where
  "gate_create =
     \<lparr>g_listen_id = - 1, g_watchdog = 0, g_broker = 0, g_client_tag = 0, g_header_size = 0, g_max_connection = 0,
      g_hash = \<lparr>hi_hashmod = 0, hi_cap = 0, hi_count = 0, hi_id = [], hi_hash = []\<rparr>,
      g_conn = [], g_mp = \<lparr>mp_pools = 0, mp_freelist = 0\<rparr>\<rparr>"

definition gate_release :: "gate \<Rightarrow> gate_act list" where
  "gate_release g =
     map Sock_Close (filter (\<lambda>i. 0 \<le> i) (map c_id (take (g_max_connection g) (g_conn g)))) @
     (if 0 \<le> g_listen_id g then [Sock_Close (g_listen_id g)] else [])"

section \<open>Commands\<close>

text \<open>\<open>_parm\<close>: the text after the command and the blanks that follow it.\<close>

definition parm :: "byte list \<Rightarrow> nat \<Rightarrow> byte list" where
  "parm msg command_sz = c_str (dropWhile (\<lambda>b. b = 32) (drop command_sz msg))"

definition forward_agent :: "gate \<Rightarrow> int \<Rightarrow> u32 \<Rightarrow> u32 \<Rightarrow> gate option" where
  "forward_agent g fd agentaddr clientaddr = do {
     i \<leftarrow> hashid_lookup (g_hash g) fd;
     Some (if 0 \<le> i
           then g\<lparr>g_conn := (g_conn g)[nat i := (g_conn g ! nat i)\<lparr>c_agent := agentaddr, c_client := clientaddr\<rparr>]\<rparr>
           else g)
   }"

text \<open>
  The arguments of \<open>forward\<close>: \<open>id :agent :client\<close>. \<open>agent+1\<close> of an empty agent is the text of the client,
  which \<open>strsep\<close> left right behind it; \<open>client+1\<close> of an empty client is past the end of the text.
\<close>

definition ctrl_forward :: "gate \<Rightarrow> byte list \<Rightarrow> gate option" where
  "ctrl_forward g tmp =
     (case strsep_space tmp of
        (idstr, None) \<Rightarrow> Some g
      | (idstr, Some rest) \<Rightarrow>
          (case strsep_space rest of
             (agent, None) \<Rightarrow> Some g
           | (agent, Some client) \<Rightarrow>
               (if client = [] then None
                else forward_agent g (to_int (strtol10 idstr))
                       (strtoul16 (if agent = [] then client else tl agent)) (strtoul16 (tl client)))))"

text \<open>A command on a connection known by its id: \<open>kick\<close> and \<open>start\<close>.\<close>

definition ctrl_known :: "gate \<Rightarrow> byte list \<Rightarrow> (int \<Rightarrow> gate_act) \<Rightarrow> (gate \<times> gate_act list) option" where
  "ctrl_known g tmp act = do {
     let uid = to_int (strtol10 tmp);
     i \<leftarrow> hashid_lookup (g_hash g) uid;
     Some (g, if 0 \<le> i then [act uid] else [])
   }"

definition ctrl :: "(byte list \<Rightarrow> u32) \<Rightarrow> gate \<Rightarrow> byte list \<Rightarrow> (gate \<times> gate_act list) option" where
  "ctrl query g msg =
     (if msg = [] then Some (g, [])
      else do {
        let i = length (takeWhile (\<lambda>b. b \<noteq> 32) msg);
        kick \<leftarrow> memcmp_lit msg (str ''kick'') i;
        if kick then ctrl_known g (parm msg i) Sock_Close
        else do {
          forward \<leftarrow> memcmp_lit msg (str ''forward'') i;
          if forward then do { g' \<leftarrow> ctrl_forward g (parm msg i); Some (g', []) }
          else do {
            broker \<leftarrow> memcmp_lit msg (str ''broker'') i;
            if broker then Some (g\<lparr>g_broker := query (parm msg i)\<rparr>, [])
            else do {
              start \<leftarrow> memcmp_lit msg (str ''start'') i;
              if start then ctrl_known g (parm msg i) Sock_Start
              else do {
                close \<leftarrow> memcmp_lit msg (str ''close'') i;
                if close then
                  Some (if 0 \<le> g_listen_id g
                        then (g\<lparr>g_listen_id := - 1\<rparr>, [Sock_Close (g_listen_id g)]) else (g, []))
                else Some (g, [Log])
              }
            }
          }
        }
      })"

section \<open>Packets\<close>

definition report :: "gate \<Rightarrow> byte list \<Rightarrow> gate_act list" where
  "report g text = (if g_watchdog g = 0 then [] else [Send 0 (g_watchdog g) PTYPE_TEXT text])"

text \<open>Where \<open>_forward\<close> sends a packet: source, destination, type and text put in front.\<close>

definition forward_route :: "gate \<Rightarrow> connection \<Rightarrow> (u32 \<times> u32 \<times> int \<times> byte list) option" where
  "forward_route g c =
     (if g_broker g \<noteq> 0 then Some (0, g_broker g, g_client_tag g OR PTYPE_TAG_DONTCOPY, [])
      else if c_agent c \<noteq> 0 then Some (c_client c, c_agent c, g_client_tag g OR PTYPE_TAG_DONTCOPY, [])
      else if g_watchdog g \<noteq> 0
        then Some (0, g_watchdog g, PTYPE_TEXT OR PTYPE_TAG_DONTCOPY, int_dec (c_id c) @ str '' data '')
      else None)"

text \<open>\<open>_forward\<close>: without a receiver the packet stays in the buffer.\<close>

definition forward_packet :: "gate \<Rightarrow> connection \<Rightarrow> nat \<Rightarrow> (gate \<times> connection \<times> gate_act list) option" where
  "forward_packet g c n =
     (case forward_route g c of
        Some (source, dest, tag, pre) \<Rightarrow> do {
          (bs, db, mp) \<leftarrow> databuffer_read (c_buffer c) (g_mp g) n;
          Some (g\<lparr>g_mp := mp\<rparr>, c\<lparr>c_buffer := db\<rparr>, [Send source dest tag (pre @ bs)])
        }
      | None \<Rightarrow> Some (g, c, []))"

text \<open>The \<open>for\<close> loop of \<open>dispatch_message\<close> on the connection \<open>c\<close>.\<close>

partial_function (option) dispatch_loop :: "gate \<Rightarrow> connection \<Rightarrow> int \<Rightarrow> (gate \<times> connection \<times> gate_act list) option" where
  "dispatch_loop g c i = do {
     (n, db, mp) \<leftarrow> databuffer_readheader (c_buffer c) (g_mp g) (g_header_size g);
     let g1 = g\<lparr>g_mp := mp\<rparr>;
     let c1 = c\<lparr>c_buffer := db\<rparr>;
     if n < 0 then Some (g1, c1, [])
     else if n = 0 then dispatch_loop g1 c1 i
     else if 0x1000000 \<le> n then
       (let (db', mp') = databuffer_clear db mp
        in Some (g1\<lparr>g_mp := mp'\<rparr>, c1\<lparr>c_buffer := db'\<rparr>, [Sock_Close i, Log]))
     else do {
       (g2, c2, acts) \<leftarrow> forward_packet g1 c1 (nat n);
       (g3, c3, acts') \<leftarrow> dispatch_loop g2 (c2\<lparr>c_buffer := databuffer_reset (c_buffer c2)\<rparr>) i;
       Some (g3, c3, acts @ acts')
     }
   }"

declare dispatch_loop.simps [code]

definition dispatch_message :: "gate \<Rightarrow> nat \<Rightarrow> int \<Rightarrow> byte list \<Rightarrow> (gate \<times> gate_act list) option" where
  "dispatch_message g k i data = do {
     let c = g_conn g ! k;
     let (db, mp) = databuffer_push (c_buffer c) (g_mp g) data;
     (g', c', acts) \<leftarrow> dispatch_loop (g\<lparr>g_mp := mp\<rparr>) (c\<lparr>c_buffer := db\<rparr>) i;
     Some (g'\<lparr>g_conn := (g_conn g')[k := c']\<rparr>, acts)
   }"

section \<open>Socket messages\<close>

definition conn_at :: "gate \<Rightarrow> int \<Rightarrow> nat option option" where
  "conn_at g i = do {
     k \<leftarrow> hashid_lookup (g_hash g) i;
     Some (if 0 \<le> k then Some (nat k) else None)
   }"

definition close_conn :: "gate \<Rightarrow> int \<Rightarrow> (gate \<times> gate_act list) option" where
  "close_conn g i = do {
     (k, hi) \<leftarrow> hashid_remove (g_hash g) i;
     let g1 = g\<lparr>g_hash := hi\<rparr>;
     if 0 \<le> k then do {
       _ \<leftarrow> assert_opt (nat k < length (g_conn g));
       let (db, mp) = databuffer_clear (c_buffer (g_conn g ! nat k)) (g_mp g);
       Some (g1\<lparr>g_mp := mp, g_conn := (g_conn g)[nat k := empty_conn]\<rparr>, report g (int_dec i @ str '' close''))
     }
     else Some (g1, [])
   }"

definition accept_conn :: "gate \<Rightarrow> socket_msg \<Rightarrow> (gate \<times> gate_act list) option" where
  "accept_conn g m = do {
     _ \<leftarrow> assert_opt (g_listen_id g = sm_id m);
     if hashid_full (g_hash g) then Some (g, [Sock_Close (sm_ud m)])
     else do {
       (k, hi) \<leftarrow> hashid_insert (g_hash g) (sm_ud m);
       _ \<leftarrow> assert_opt (k < length (g_conn g));
       let name = c_str (take 31 (sm_extra m));
       let c = (g_conn g ! k)\<lparr>c_id := sm_ud m, c_remote_name := name\<rparr>;
       Some (g\<lparr>g_hash := hi, g_conn := (g_conn g)[k := c]\<rparr>,
             report g (int_dec (sm_ud m) @ str '' open '' @ int_dec (sm_ud m) @ str '' '' @ name @ str '':0'') @ [Log])
     }
   }"

definition dispatch_socket_message :: "gate \<Rightarrow> socket_msg \<Rightarrow> (gate \<times> gate_act list) option" where
  "dispatch_socket_message g m =
     (case sm_type m of
        Sock_Data \<Rightarrow> do {
          k \<leftarrow> conn_at g (sm_id m);
          case k of
            Some k \<Rightarrow> dispatch_message g k (sm_id m) (sm_buffer m)
          | None \<Rightarrow> Some (g, [Log, Sock_Close (sm_id m)])
        }
      | Sock_Connect \<Rightarrow>
          if sm_id m = g_listen_id g then Some (g, [])
          else do {
            k \<leftarrow> conn_at g (sm_id m);
            Some (g, if k = None then [Log, Sock_Close (sm_id m)] else [])
          }
      | Sock_Closed \<Rightarrow> close_conn g (sm_id m)
      | Sock_Error \<Rightarrow> close_conn g (sm_id m)
      | Sock_Accept \<Rightarrow> accept_conn g m
      | Sock_Warning \<Rightarrow> Some (g, [Log])
      | Sock_Udp \<Rightarrow> Some (g, []))"

section \<open>The service\<close>

text \<open>The payload of a message to the service: bytes, or a socket message.\<close>

datatype gate_payload = Bytes "byte list" | Socket socket_msg

definition client_uid :: "byte list \<Rightarrow> u32" where
  "client_uid idbuf =
     ucast (idbuf ! 0) OR push_bit 8 (ucast (idbuf ! 1)) OR push_bit 16 (ucast (idbuf ! 2)) OR push_bit 24 (ucast (idbuf ! 3))"

text \<open>\<open>_cb\<close>; the last result is whether the caller still owns the message.\<close>

definition gate_cb :: "(byte list \<Rightarrow> u32) \<Rightarrow> gate \<Rightarrow> int \<Rightarrow> gate_payload \<Rightarrow> (gate \<times> gate_act list \<times> bool) option" where
  "gate_cb query g ty payload =
     (case payload of
        Bytes msg \<Rightarrow>
          if ty = PTYPE_TEXT then do { (g', acts) \<leftarrow> ctrl query g msg; Some (g', acts, False) }
          else if ty = PTYPE_CLIENT then
            (if length msg \<le> 4 then Some (g, [Log], False)
             else do {
               let uid = sint (client_uid (drop (length msg - 4) msg));
               k \<leftarrow> conn_at g uid;
               Some (if k \<noteq> None then (g, [Sock_Send uid (take (length msg - 4) msg)], True) else (g, [Log], False))
             })
          else Some (g, [], False)
      | Socket m \<Rightarrow>
          if ty = PTYPE_SOCKET then do { (g', acts) \<leftarrow> dispatch_socket_message g m; Some (g', acts, False) }
          else Some (g, [], False))"

section \<open>Starting the service\<close>

definition scan_int :: "byte list \<Rightarrow> (int \<times> byte list) option" where
  "scan_int s =
     (let s' = dropWhile is_space s; (neg, ds) = read_sign s';
          digits = takeWhile (\<lambda>b. digit_val b < 10) ds
      in if digits = [] then None else Some (to_int (strtol10 s'), drop (length digits) ds))"

text \<open>
  \<open>sscanf(parm, "%c %s %s %d %d", ...)\<close>: \<^term>\<open>None\<close> when fewer than four conversions succeed; a missing fifth
  leaves the maximum at 0.
\<close>

definition scan_gate :: "byte list \<Rightarrow> (byte \<times> byte list \<times> byte list \<times> int \<times> int) option" where
  "scan_gate p =
     (case p of
        [] \<Rightarrow> None
      | header # r \<Rightarrow> do {
          (watchdog, r1) \<leftarrow> scan_token r;
          (binding, r2) \<leftarrow> scan_token r1;
          (client_tag, r3) \<leftarrow> scan_int r2;
          Some (header, watchdog, binding, client_tag, case scan_int r3 of None \<Rightarrow> 0 | Some (m, _) \<Rightarrow> m)
        })"

text \<open>The result is the return code, the gate and the calls.\<close>

definition start_listen :: "(byte list \<Rightarrow> int \<Rightarrow> int) \<Rightarrow> gate \<Rightarrow> byte list \<Rightarrow> int \<times> gate \<times> gate_act list" where
  "start_listen listen g addr =
     (let host = takeWhile (\<lambda>b. b \<noteq> 58) addr;
          colon = length host < length addr;
          port = to_int (strtol10 (if colon then drop (length host + 1) addr else addr))
      in if port \<le> 0 then (1, g, [Log])
         else
           let i = listen (if colon then host else []) port; g' = g\<lparr>g_listen_id := i\<rparr>
           in if i < 0 then (1, g', []) else (0, g', [Sock_Start i]))"

definition gate_init ::
    "(byte list \<Rightarrow> u32) \<Rightarrow> (byte list \<Rightarrow> int \<Rightarrow> int) \<Rightarrow> gate \<Rightarrow> byte list option \<Rightarrow> int \<times> gate \<times> gate_act list" where
  "gate_init query listen g p =
     (case p of
        None \<Rightarrow> (1, g, [])
      | Some p \<Rightarrow>
          (case scan_gate p of
             None \<Rightarrow> (1, g, [Log])
           | Some (header, watchdog, binding, client_tag, max_n) \<Rightarrow>
               if max_n \<le> 0 then (1, g, [Log])
               else if header \<noteq> 83 \<and> header \<noteq> 76 then (1, g, [Log])
               else
                 (let wd = (if watchdog ! 0 = 33 then 0 else query watchdog); g1 = g\<lparr>g_watchdog := wd\<rparr>
                  in if watchdog ! 0 \<noteq> 33 \<and> wd = 0 then (1, g1, [Log])
                     else
                       start_listen listen
                         (g1\<lparr>g_hash := hashid_init (nat max_n), g_conn := replicate (nat max_n) empty_conn,
                             g_max_connection := nat max_n,
                             g_client_tag := (if client_tag = 0 then PTYPE_CLIENT else client_tag),
                             g_header_size := (if header = 83 then 2 else 4)\<rparr>) binding)))"

section \<open>Framing\<close>

text \<open>
  The packets of a byte stream, specified on the stream itself. The state between two chunks is the header of
  the packet being received, 0 for none, and the bytes not yet used; a packet of 16 megabytes or more ends it.
  \<open>rcv\<close> tells whether the packets have a receiver: the code takes the payload of a packet off the stream
  only when it forwards it.
\<close>

datatype framing = Wait u32 "byte list" | Too_Big

function frames :: "bool \<Rightarrow> nat \<Rightarrow> u32 \<Rightarrow> byte list \<Rightarrow> byte list list \<times> framing" where
  "frames rcv hs h bs =
     (if h = 0 then
        (if length bs < hs \<or> hs = 0 then ([], Wait 0 bs)
         else frames rcv hs (be_header (take hs bs)) (drop hs bs))
      else if sint h < 0 \<or> int (length bs) < sint h then ([], Wait h bs)
      else if 0x1000000 \<le> sint h then ([], Too_Big)
      else if rcv then
        (let (ps, st) = frames rcv hs 0 (drop (nat (sint h)) bs) in (take (nat (sint h)) bs # ps, st))
      else frames rcv hs 0 bs)"
  by pat_completeness auto
termination
proof (relation "measure (\<lambda>(rcv, hs, h, bs). 2 * length bs + (if h = 0 then 0 else 1))", goal_cases)
  case (3 rcv hs h bs)
  then have "0 < nat (sint h)" "nat (sint h) \<le> length bs"
    by (auto simp: signed_eq_0_iff order.order_iff_strict not_less)
  then show ?case using 3 by simp
qed auto

declare frames.simps [simp del]

text \<open>The five situations of the loop.\<close>

lemma frames_need: "length bs < hs \<Longrightarrow> frames rcv hs 0 bs = ([], Wait 0 bs)"
  by (subst frames.simps) simp

lemma frames_header:
  assumes "hs \<le> length bs" "0 < hs"
  shows "frames rcv hs 0 bs = frames rcv hs (be_header (take hs bs)) (drop hs bs)"
proof -
  have "(length bs < hs \<or> hs = 0) = False" using assms by auto
  then show ?thesis by (subst frames.simps) (simp only: refl if_True if_False)
qed

lemma frames_wait: "h \<noteq> 0 \<Longrightarrow> sint h < 0 \<or> int (length bs) < sint h \<Longrightarrow> frames rcv hs h bs = ([], Wait h bs)"
  by (subst frames.simps) simp

lemma frames_big: "0x1000000 \<le> sint h \<Longrightarrow> sint h \<le> int (length bs) \<Longrightarrow> frames rcv hs h bs = ([], Too_Big)"
  by (subst frames.simps) auto

lemma frames_packet:
  "h \<noteq> 0 \<Longrightarrow> 0 \<le> sint h \<Longrightarrow> sint h \<le> int (length bs) \<Longrightarrow> sint h < 0x1000000 \<Longrightarrow>
   frames rcv hs h bs =
     (if rcv then (let (ps, st) = frames rcv hs 0 (drop (nat (sint h)) bs) in (take (nat (sint h)) bs # ps, st))
      else frames rcv hs 0 bs)"
  by (subst frames.simps) simp

lemma frames_cases:
  obtains (need) "h = 0" "length bs < hs" | (header) "h = 0" "hs \<le> length bs"
    | (wait) "h \<noteq> 0" "sint h < 0 \<or> int (length bs) < sint h"
    | (big) "h \<noteq> 0" "0x1000000 \<le> sint h" "sint h \<le> int (length bs)"
    | (packet) "h \<noteq> 0" "0 \<le> sint h" "sint h \<le> int (length bs)" "sint h < 0x1000000"
  by linarith

text \<open>Chunks: the framing of a stream does not depend on how it is cut.\<close>

definition then_frames :: "bool \<Rightarrow> nat \<Rightarrow> byte list list \<times> framing \<Rightarrow> byte list \<Rightarrow> byte list list \<times> framing" where
  "then_frames rcv hs r b =
     (case snd r of
        Too_Big \<Rightarrow> r
      | Wait h rest \<Rightarrow> (let (qs, st) = frames rcv hs h (rest @ b) in (fst r @ qs, st)))"

lemma then_frames_Wait: "then_frames rcv hs ([], Wait h bs) b = frames rcv hs h (bs @ b)"
  by (simp add: then_frames_def split: prod.splits)

lemma frames_append:
  assumes "0 < hs"
  shows "frames rcv hs h (a @ b) = then_frames rcv hs (frames rcv hs h a) b"
  using assms
proof (induction rcv hs h a rule: frames.induct)
  case (1 rcv hs h a)
  show ?case
  proof (cases rule: frames_cases[of h a hs])
    case need
    then show ?thesis by (simp add: frames_need then_frames_Wait)
  next
    case header
    have "frames rcv hs h (a @ b) = frames rcv hs (be_header (take hs a)) (drop hs a @ b)"
      using header frames_header[of hs "a @ b" rcv] "1.prems" by simp
    with "1.IH"(1)[OF header(1) _ "1.prems"] header "1.prems" frames_header[OF header(2) "1.prems", of rcv]
    show ?thesis by simp
  next
    case wait
    then show ?thesis by (simp add: frames_wait then_frames_Wait)
  next
    case big
    then show ?thesis by (simp add: frames_big then_frames_def)
  next
    case packet
    let ?n = "nat (sint h)"
    have n: "?n \<le> length a" using packet by simp
    have ab: "frames rcv hs h (a @ b) =
        (if rcv then (let (ps, st) = frames rcv hs 0 (drop ?n a @ b) in (take ?n a # ps, st)) else frames rcv hs 0 (a @ b))"
      using packet n by (subst frames_packet) simp_all
    show ?thesis
    proof (cases rcv)
      case True
      obtain ps st where r: "frames rcv hs 0 (drop ?n a) = (ps, st)" by fastforce
      have "frames rcv hs 0 (drop ?n a @ b) = then_frames rcv hs (ps, st) b"
        using "1.IH"(2) packet True r "1.prems" by simp
      moreover have "frames rcv hs h a = (take ?n a # ps, st)" using packet r True by (simp add: frames_packet)
      ultimately show ?thesis using ab True by (auto simp: then_frames_def split: framing.splits prod.splits)
    next
      case False
      then show ?thesis using "1.IH"(3) packet ab "1.prems" by (simp add: frames_packet)
    qed
  qed
qed

section \<open>The loop implements the framing\<close>

text \<open>The call that forwards one packet.\<close>

definition packet_act :: "gate \<Rightarrow> connection \<Rightarrow> byte list \<Rightarrow> gate_act" where
  "packet_act g c bs = (case forward_route g c of Some (source, dest, tag, pre) \<Rightarrow> Send source dest tag (pre @ bs))"

definition conn_pool :: "nat \<Rightarrow> gate \<Rightarrow> connection \<Rightarrow> bool" where
  "conn_pool n g c \<longleftrightarrow> db_ok (c_buffer c) \<and> pool_balance (length (db_msgs (c_buffer c)) + n) (g_mp g)"

definition rcv_of :: "gate \<Rightarrow> connection \<Rightarrow> bool" where
  "rcv_of g c \<longleftrightarrow> forward_route g c \<noteq> None"

lemma route_frame [simp]:
  "forward_route (g\<lparr>g_mp := mp\<rparr>) c = forward_route g c" "forward_route g (c\<lparr>c_buffer := db\<rparr>) = forward_route g c"
  "packet_act (g\<lparr>g_mp := mp\<rparr>) c = packet_act g c" "packet_act g (c\<lparr>c_buffer := db\<rparr>) = packet_act g c"
  "rcv_of (g\<lparr>g_mp := mp\<rparr>) c = rcv_of g c" "rcv_of g (c\<lparr>c_buffer := db\<rparr>) = rcv_of g c"
  by (simp_all add: forward_route_def packet_act_def rcv_of_def fun_eq_iff)

lemma loop_header_step:
  assumes ok: "conn_pool n g c" and hs: "0 < g_header_size g" "g_header_size g \<le> length (db_bytes (c_buffer c))"
    and h0: "db_header (c_buffer c) = 0"
  obtains db mp where "dispatch_loop g c i = dispatch_loop (g\<lparr>g_mp := mp\<rparr>) (c\<lparr>c_buffer := db\<rparr>) i"
    "conn_pool n (g\<lparr>g_mp := mp\<rparr>) (c\<lparr>c_buffer := db\<rparr>)"
    "db_header db = be_header (take (g_header_size g) (db_bytes (c_buffer c)))"
    "db_bytes db = drop (g_header_size g) (db_bytes (c_buffer c))"
proof -
  let ?b = "c_buffer c" and ?hs = "g_header_size g"
  have sz: "?hs \<le> db_size ?b" using ok hs(2) by (simp add: conn_pool_def db_ok_def)
  obtain db0 mp where r: "databuffer_read ?b (g_mp g) ?hs = Some (take ?hs (db_bytes ?b), db0, mp)"
    "db_ok db0" "db_bytes db0 = drop ?hs (db_bytes ?b)" "pool_balance (length (db_msgs db0) + n) mp"
    using databuffer_read_ok[of ?b ?hs n "g_mp g"] ok hs(1) sz by (auto simp: conn_pool_def)
  define db where "db = db0\<lparr>db_header := be_header (take ?hs (db_bytes ?b))\<rparr>"
  let ?v = "if int (db_size db) < sint (db_header db) then - 1 else sint (db_header db)"
  have rh: "databuffer_readheader ?b (g_mp g) ?hs = Some (?v, db, mp)"
    using r(1) h0 sz by (simp add: databuffer_readheader_def db_def)
  have "dispatch_loop g c i = dispatch_loop (g\<lparr>g_mp := mp\<rparr>) (c\<lparr>c_buffer := db\<rparr>) i"
  proof (cases "db_header db = 0")
    case True
    then have "?v = 0" by simp
    then show ?thesis using rh by (subst dispatch_loop.simps) simp
  next
    case False
    then have "databuffer_readheader db mp ?hs = Some (?v, db, mp)" by (simp add: databuffer_readheader_def)
    then show ?thesis using rh
      by (subst dispatch_loop.simps, subst (2) dispatch_loop.simps) simp
  qed
  moreover have "db_ok db" "db_msgs db = db_msgs db0" "db_bytes db = db_bytes db0"
    using r(2) by (simp_all add: db_def db_ok_def db_bytes_def)
  ultimately show thesis using r by (intro that[of mp db]) (simp_all add: conn_pool_def db_def)
qed

lemma readheader_set:
  assumes "conn_pool n g c" "db_header (c_buffer c) \<noteq> 0"
  shows "databuffer_readheader (c_buffer c) (g_mp g) hs =
    Some (if int (length (db_bytes (c_buffer c))) < sint (db_header (c_buffer c)) then - 1
          else sint (db_header (c_buffer c)), c_buffer c, g_mp g)"
  using assms by (simp add: databuffer_readheader_def conn_pool_def db_ok_def)

text \<open>One packet, with and without a receiver.\<close>

lemma loop_packet_step:
  assumes ok: "conn_pool n g c" and h: "db_header (c_buffer c) = h" "h \<noteq> 0" "0 \<le> sint h"
      "sint h \<le> int (length (db_bytes (c_buffer c)))" "sint h < 0x1000000"
    and route: "rcv_of g c"
  obtains db mp where
    "dispatch_loop g c i = (case dispatch_loop (g\<lparr>g_mp := mp\<rparr>) (c\<lparr>c_buffer := db\<rparr>) i of None \<Rightarrow> None
       | Some (g', c', acts) \<Rightarrow> Some (g', c', packet_act g c (take (nat (sint h)) (db_bytes (c_buffer c))) # acts))"
    "conn_pool n (g\<lparr>g_mp := mp\<rparr>) (c\<lparr>c_buffer := db\<rparr>)"
    "db_header db = 0" "db_bytes db = drop (nat (sint h)) (db_bytes (c_buffer c))"
proof -
  let ?b = "c_buffer c" and ?n = "nat (sint h)"
  have pos: "0 < ?n" using h(2,3) by (simp add: order.order_iff_strict signed_eq_0_iff)
  have sz: "?n \<le> db_size ?b" using ok h(4) by (simp add: conn_pool_def db_ok_def)
  obtain db mp where r: "databuffer_read ?b (g_mp g) ?n = Some (take ?n (db_bytes ?b), db, mp)"
    "db_ok db" "db_bytes db = drop ?n (db_bytes ?b)" "pool_balance (length (db_msgs db) + n) mp"
    using databuffer_read_ok[of ?b ?n n "g_mp g"] ok pos sz by (auto simp: conn_pool_def)
  have rh: "databuffer_readheader ?b (g_mp g) (g_header_size g) = Some (sint h, ?b, g_mp g)"
    using readheader_set[OF ok] h by simp
  obtain source dest tag pre where rt: "forward_route g c = Some (source, dest, tag, pre)"
    using route by (auto simp: rcv_of_def)
  have "forward_packet g c ?n = Some (g\<lparr>g_mp := mp\<rparr>, c\<lparr>c_buffer := db\<rparr>, [packet_act g c (take ?n (db_bytes ?b))])"
    using r(1) rt by (simp add: forward_packet_def packet_act_def)
  then have "dispatch_loop g c i = (case dispatch_loop (g\<lparr>g_mp := mp\<rparr>) (c\<lparr>c_buffer := databuffer_reset db\<rparr>) i of None \<Rightarrow> None
       | Some (g', c', acts) \<Rightarrow> Some (g', c', packet_act g c (take ?n (db_bytes ?b)) # acts))"
    using rh pos h(5) by (subst dispatch_loop.simps) (auto split: option.splits)
  with r show thesis by (intro that[of mp "databuffer_reset db"]) (simp_all add: conn_pool_def)
qed

lemma loop_drop_step:
  assumes ok: "conn_pool n g c" and h: "db_header (c_buffer c) = h" "h \<noteq> 0" "0 \<le> sint h"
      "sint h \<le> int (length (db_bytes (c_buffer c)))" "sint h < 0x1000000"
    and route: "\<not> rcv_of g c"
  shows "dispatch_loop g c i = dispatch_loop g (c\<lparr>c_buffer := databuffer_reset (c_buffer c)\<rparr>) i"
proof -
  have pos: "0 < sint h" using h(2,3) by (simp add: order.order_iff_strict signed_eq_0_iff)
  have rh: "databuffer_readheader (c_buffer c) (g_mp g) (g_header_size g) = Some (sint h, c_buffer c, g_mp g)"
    using readheader_set[OF ok] h by simp
  have fp: "forward_packet g c (nat (sint h)) = Some (g, c, [])" using route by (cases "forward_route g c") (simp_all add: forward_packet_def rcv_of_def)
  have "dispatch_loop g c i = (case dispatch_loop g (c\<lparr>c_buffer := databuffer_reset (c_buffer c)\<rparr>) i of None \<Rightarrow> None
       | Some (g', c', acts) \<Rightarrow> Some (g', c', acts))"
    using rh pos h(5) fp by (subst dispatch_loop.simps) (auto split: option.splits)
  then show ?thesis by (auto split: option.splits)
qed

text \<open>What the loop has done when it returns.\<close>

definition loop_post :: "nat \<Rightarrow> gate \<Rightarrow> connection \<Rightarrow> int \<Rightarrow> byte list list \<times> framing \<Rightarrow> gate \<times> connection \<times> gate_act list \<Rightarrow> bool" where
  "loop_post n g c i r out \<longleftrightarrow>
     (\<exists>db mp. fst out = g\<lparr>g_mp := mp\<rparr> \<and> fst (snd out) = c\<lparr>c_buffer := db\<rparr> \<and>
        conn_pool n (g\<lparr>g_mp := mp\<rparr>) (c\<lparr>c_buffer := db\<rparr>) \<and>
        (case snd r of
           Wait h rest \<Rightarrow> snd (snd out) = map (packet_act g c) (fst r) \<and> db_header db = h \<and> db_bytes db = rest
         | Too_Big \<Rightarrow> snd (snd out) = map (packet_act g c) (fst r) @ [Sock_Close i, Log] \<and>
             db_header db = 0 \<and> db_bytes db = []))"

lemma loop_post_frame:
  assumes "loop_post n (g\<lparr>g_mp := mp\<rparr>) (c\<lparr>c_buffer := db\<rparr>) i r out"
  shows "loop_post n g c i r out"
proof -
  have "packet_act (g\<lparr>g_mp := mp\<rparr>) (c\<lparr>c_buffer := db\<rparr>) = packet_act g c" by simp
  with assms show ?thesis unfolding loop_post_def by (simp only:) simp
qed

lemma loop_stay:
  assumes "conn_pool n g c" "databuffer_readheader (c_buffer c) (g_mp g) (g_header_size g) = Some (v, c_buffer c, g_mp g)" "v < 0"
    "frames rcv (g_header_size g) (db_header (c_buffer c)) (db_bytes (c_buffer c)) =
       ([], Wait (db_header (c_buffer c)) (db_bytes (c_buffer c)))"
  shows "\<exists>out. dispatch_loop g c i = Some out \<and>
    loop_post n g c i (frames rcv (g_header_size g) (db_header (c_buffer c)) (db_bytes (c_buffer c))) out"
proof -
  have "dispatch_loop g c i = Some (g, c, [])" using assms(2,3) by (subst dispatch_loop.simps) simp
  then show ?thesis using assms(1,4)
    by (auto simp: loop_post_def intro!: exI[of _ "c_buffer c"] exI[of _ "g_mp g"])
qed

lemma loop_big:
  assumes ok: "conn_pool n g c" and h: "db_header (c_buffer c) \<noteq> 0" "0x1000000 \<le> sint (db_header (c_buffer c))"
    "sint (db_header (c_buffer c)) \<le> int (length (db_bytes (c_buffer c)))"
  shows "\<exists>out. dispatch_loop g c i = Some out \<and> loop_post n g c i ([], Too_Big) out"
proof -
  obtain db' mp' where cl: "databuffer_clear (c_buffer c) (g_mp g) = (db', mp')" by fastforce
  then have "dispatch_loop g c i = Some (g\<lparr>g_mp := mp'\<rparr>, c\<lparr>c_buffer := db'\<rparr>, [Sock_Close i, Log])"
    using h readheader_set[OF ok h(1)] by (subst dispatch_loop.simps) simp
  moreover have "conn_pool n (g\<lparr>g_mp := mp'\<rparr>) (c\<lparr>c_buffer := db'\<rparr>)" "db_header db' = 0" "db_bytes db' = []"
    using databuffer_clear_ok[OF _ cl, of n] ok by (simp_all add: conn_pool_def)
  ultimately show ?thesis by (auto simp: loop_post_def)
qed

lemma loop_post_packet:
  assumes "loop_post n (g\<lparr>g_mp := mp\<rparr>) (c\<lparr>c_buffer := db\<rparr>) i (ps, fr) (g', c', acts)"
  shows "loop_post n g c i (p # ps, fr) (g', c', packet_act g c p # acts)"
  using loop_post_frame[OF assms] unfolding loop_post_def by (cases fr) auto

lemma dispatch_loop_ok:
  assumes "conn_pool n g c" "0 < g_header_size g"
  shows "\<exists>out. dispatch_loop g c i = Some out \<and>
    loop_post n g c i (frames (rcv_of g c) (g_header_size g) (db_header (c_buffer c)) (db_bytes (c_buffer c))) out"
  using assms
proof (induction "rcv_of g c" "g_header_size g" "db_header (c_buffer c)" "db_bytes (c_buffer c)" arbitrary: g c rule: frames.induct)
  case (1 g c)
  let ?hs = "g_header_size g" and ?h = "db_header (c_buffer c)" and ?bs = "db_bytes (c_buffer c)" and ?r = "rcv_of g c"
  note ok = "1.prems"(1) and hs = "1.prems"(2)
  show ?case
  proof (cases rule: frames_cases[of ?h ?bs ?hs])
    case need
    then have "databuffer_readheader (c_buffer c) (g_mp g) ?hs = Some (- 1, c_buffer c, g_mp g)"
      using ok by (simp add: databuffer_readheader_def conn_pool_def db_ok_def)
    with need show ?thesis by (intro loop_stay[OF ok, of "- 1"]) (simp_all add: frames_need)
  next
    case header
    obtain db mp where st: "dispatch_loop g c i = dispatch_loop (g\<lparr>g_mp := mp\<rparr>) (c\<lparr>c_buffer := db\<rparr>) i"
      "conn_pool n (g\<lparr>g_mp := mp\<rparr>) (c\<lparr>c_buffer := db\<rparr>)" "db_header db = be_header (take ?hs ?bs)" "db_bytes db = drop ?hs ?bs"
      by (rule loop_header_step[OF ok hs header(2,1)])
    have "\<not> (length ?bs < ?hs \<or> ?hs = 0)" using header(2) hs by simp
    from "1.hyps"(1)[OF header(1) this, of "g\<lparr>g_mp := mp\<rparr>" "c\<lparr>c_buffer := db\<rparr>"] st(2-4) hs
    obtain out where out: "dispatch_loop (g\<lparr>g_mp := mp\<rparr>) (c\<lparr>c_buffer := db\<rparr>) i = Some out"
      "loop_post n (g\<lparr>g_mp := mp\<rparr>) (c\<lparr>c_buffer := db\<rparr>) i (frames ?r ?hs (be_header (take ?hs ?bs)) (drop ?hs ?bs)) out"
      by auto
    show ?thesis
      unfolding st(1) out(1) header(1) frames_header[OF header(2) hs] using loop_post_frame[OF out(2)] by blast
  next
    case wait
    with readheader_set[OF ok wait(1), of ?hs] show ?thesis
      by (intro loop_stay[OF ok, of "if int (length ?bs) < sint ?h then - 1 else sint ?h"]) (auto simp: frames_wait)
  next
    case big
    with loop_big[OF ok big] show ?thesis by (simp add: frames_big)
  next
    case packet
    let ?n = "nat (sint ?h)"
    have pk: "\<not> (sint ?h < 0 \<or> int (length ?bs) < sint ?h)" "\<not> 0x1000000 \<le> sint ?h" using packet by simp_all
    show ?thesis
    proof (cases ?r)
      case True
      obtain db mp where st: "dispatch_loop g c i = (case dispatch_loop (g\<lparr>g_mp := mp\<rparr>) (c\<lparr>c_buffer := db\<rparr>) i of None \<Rightarrow> None
         | Some (g', c', acts) \<Rightarrow> Some (g', c', packet_act g c (take ?n ?bs) # acts))"
        "conn_pool n (g\<lparr>g_mp := mp\<rparr>) (c\<lparr>c_buffer := db\<rparr>)" "db_header db = 0" "db_bytes db = drop ?n ?bs"
        by (rule loop_packet_step[OF ok refl packet True])
      obtain ps fr where fr: "frames ?r ?hs 0 (drop ?n ?bs) = (ps, fr)" by fastforce
      from "1.hyps"(2)[OF packet(1) pk True, of "g\<lparr>g_mp := mp\<rparr>" "c\<lparr>c_buffer := db\<rparr>"] st(2-4) hs fr
      obtain g' c' acts where out: "dispatch_loop (g\<lparr>g_mp := mp\<rparr>) (c\<lparr>c_buffer := db\<rparr>) i = Some (g', c', acts)"
        "loop_post n (g\<lparr>g_mp := mp\<rparr>) (c\<lparr>c_buffer := db\<rparr>) i (ps, fr) (g', c', acts)" by auto
      have "frames ?r ?hs ?h ?bs = (take ?n ?bs # ps, fr)" using packet fr True by (simp add: frames_packet)
      moreover have "dispatch_loop g c i = Some (g', c', packet_act g c (take ?n ?bs) # acts)"
        unfolding st(1) out(1) by simp
      ultimately show ?thesis using loop_post_packet[OF out(2), of "take ?n ?bs"] by auto
    next
      case False
      let ?c = "c\<lparr>c_buffer := databuffer_reset (c_buffer c)\<rparr>"
      have "conn_pool n g ?c" using ok by (simp add: conn_pool_def)
      with "1.hyps"(3)[OF packet(1) pk False, of g ?c] hs
      obtain out where out: "dispatch_loop g ?c i = Some out" "loop_post n g ?c i (frames ?r ?hs 0 ?bs) out" by auto
      have "loop_post n g c i (frames ?r ?hs 0 ?bs) out"
        using loop_post_frame[where g = g and mp = "g_mp g" and c = c and db = "databuffer_reset (c_buffer c)"] out(2) by simp
      with out(1) show ?thesis
        unfolding loop_drop_step[OF ok refl packet False] using packet False by (simp add: frames_packet)
    qed
  qed
qed

section \<open>The gate's invariant\<close>

definition used_nodes :: "connection list \<Rightarrow> nat" where
  "used_nodes cs = sum_list (map (\<lambda>c. length (db_msgs (c_buffer c))) cs)"

text \<open>
  The id table and the array of connections agree slot by slot, free slots are blank, every buffer is
  well-formed, and the nodes of all buffers come from the gate's pool.
\<close>

definition header_kind :: "nat \<Rightarrow> bool" where
  "header_kind hs \<longleftrightarrow> hs = 2 \<or> hs = 4"

lemma header_kind_pos: "header_kind hs \<Longrightarrow> 0 < hs"
  by (auto simp: header_kind_def)

definition gate_ok :: "gate \<Rightarrow> bool" where
  "gate_ok g \<longleftrightarrow>
     hid_ok (g_hash g) \<and> hi_cap (g_hash g) = g_max_connection g \<and> length (g_conn g) = g_max_connection g \<and>
     header_kind (g_header_size g) \<and>
     (\<forall>k < g_max_connection g. c_id (g_conn g ! k) = hid_ids (g_hash g) k \<and> db_ok (c_buffer (g_conn g ! k)) \<and>
        (hid_ids (g_hash g) k = - 1 \<longrightarrow> g_conn g ! k = empty_conn)) \<and>
     pool_balance (used_nodes (g_conn g)) (g_mp g)"

lemma gate_okD:
  assumes "gate_ok g"
  shows "hid_ok (g_hash g)" "hi_cap (g_hash g) = g_max_connection g" "length (g_conn g) = g_max_connection g"
    "0 < g_header_size g" "pool_balance (used_nodes (g_conn g)) (g_mp g)"
    "k < g_max_connection g \<Longrightarrow> c_id (g_conn g ! k) = hid_ids (g_hash g) k"
    "k < g_max_connection g \<Longrightarrow> db_ok (c_buffer (g_conn g ! k))"
    "k < g_max_connection g \<Longrightarrow> hid_ids (g_hash g) k = - 1 \<Longrightarrow> g_conn g ! k = empty_conn"
    "header_kind (g_header_size g)"
  using assms header_kind_pos unfolding gate_ok_def by blast+

lemma used_nodes_split:
  assumes "k < length cs"
  shows "used_nodes (cs[k := c]) = length (db_msgs (c_buffer c)) + (used_nodes cs - length (db_msgs (c_buffer (cs ! k))))"
    "length (db_msgs (c_buffer (cs ! k))) \<le> used_nodes cs"
proof -
  have e: "cs = take k cs @ cs ! k # drop (Suc k) cs" using assms by (rule id_take_nth_drop)
  have "used_nodes cs = used_nodes (take k cs) + length (db_msgs (c_buffer (cs ! k))) + used_nodes (drop (Suc k) cs)"
    by (subst e) (simp add: used_nodes_def)
  moreover have "used_nodes (cs[k := c]) = used_nodes (take k cs) + length (db_msgs (c_buffer c)) + used_nodes (drop (Suc k) cs)"
    using assms by (simp add: upd_conv_take_nth_drop used_nodes_def)
  ultimately show "used_nodes (cs[k := c]) = length (db_msgs (c_buffer c)) + (used_nodes cs - length (db_msgs (c_buffer (cs ! k))))"
    "length (db_msgs (c_buffer (cs ! k))) \<le> used_nodes cs" by linarith+
qed

text \<open>Slot \<open>k\<close> is the connection of id \<open>i\<close>.\<close>

lemma slot_bound: "gate_ok g \<Longrightarrow> hid_slot (g_hash g) i = Some k \<Longrightarrow> k < g_max_connection g \<and> hid_ids (g_hash g) k = i"
  using gate_okD(2)[of g] hid_slot_SomeD[of "g_hash g" i k] by auto

lemma conn_at_ok: "gate_ok g \<Longrightarrow> conn_at g i = Some (hid_slot (g_hash g) i)"
  using lookup_ok[OF gate_okD(1), of g i] by (auto simp: conn_at_def split: option.splits)

text \<open>
  Data for a connection: the packets that the stream so far and the new bytes make up are forwarded, and the
  connection is left with the rest of the stream.
\<close>

definition stream_of :: "gate \<Rightarrow> nat \<Rightarrow> framing" where
  "stream_of g k = Wait (db_header (c_buffer (g_conn g ! k))) (db_bytes (c_buffer (g_conn g ! k)))"

definition data_post :: "gate \<Rightarrow> nat \<Rightarrow> int \<Rightarrow> byte list list \<times> framing \<Rightarrow> gate \<times> gate_act list \<Rightarrow> bool" where
  "data_post g k i r out \<longleftrightarrow>
     (\<exists>db mp. fst out = g\<lparr>g_mp := mp, g_conn := (g_conn g)[k := (g_conn g ! k)\<lparr>c_buffer := db\<rparr>]\<rparr>) \<and>
     gate_ok (fst out) \<and>
     snd out = map (packet_act g (g_conn g ! k)) (fst r) @ (if snd r = Too_Big then [Sock_Close i, Log] else []) \<and>
     stream_of (fst out) k = (if snd r = Too_Big then Wait 0 [] else snd r)"

lemma dispatch_message_ok:
  assumes ok: "gate_ok g" and k: "k < g_max_connection g" "hid_ids (g_hash g) k \<noteq> - 1"
  shows "\<exists>out. dispatch_message g k i data = Some out \<and>
    data_post g k i (frames (rcv_of g (g_conn g ! k)) (g_header_size g)
      (db_header (c_buffer (g_conn g ! k))) (db_bytes (c_buffer (g_conn g ! k)) @ data)) out"
proof -
  let ?c = "g_conn g ! k" and ?n = "used_nodes (g_conn g) - length (db_msgs (c_buffer (g_conn g ! k)))"
  note G = gate_okD[OF ok]
  have kl: "k < length (g_conn g)" using k(1) G(3) by simp
  have cp: "db_ok (c_buffer ?c)" "pool_balance (length (db_msgs (c_buffer ?c)) + ?n) (g_mp g)"
    using G(5) G(7)[OF k(1)] used_nodes_split(2)[OF kl] by simp_all
  obtain db mp where pu: "databuffer_push (c_buffer ?c) (g_mp g) data = (db, mp)" by fastforce
  note P = databuffer_push_ok[OF cp pu]
  let ?g = "g\<lparr>g_mp := mp\<rparr>" and ?c1 = "?c\<lparr>c_buffer := db\<rparr>"
  let ?fr = "frames (rcv_of g ?c) (g_header_size g) (db_header (c_buffer ?c)) (db_bytes (c_buffer ?c) @ data)"
  have "conn_pool ?n ?g ?c1" using P by (simp add: conn_pool_def)
  from dispatch_loop_ok[OF this, of i] G(4) P
  obtain out where out: "dispatch_loop ?g ?c1 i = Some out" "loop_post ?n ?g ?c1 i ?fr out" by auto
  from loop_post_frame[OF out(2)] obtain db' mp' where
    o: "fst out = g\<lparr>g_mp := mp'\<rparr>" "fst (snd out) = ?c\<lparr>c_buffer := db'\<rparr>" "conn_pool ?n (g\<lparr>g_mp := mp'\<rparr>) (?c\<lparr>c_buffer := db'\<rparr>)"
      "case snd ?fr of
         Wait h rest \<Rightarrow> snd (snd out) = map (packet_act g ?c) (fst ?fr) \<and> db_header db' = h \<and> db_bytes db' = rest
       | Too_Big \<Rightarrow> snd (snd out) = map (packet_act g ?c) (fst ?fr) @ [Sock_Close i, Log] \<and> db_header db' = 0 \<and> db_bytes db' = []"
    unfolding loop_post_def by blast
  let ?g' = "g\<lparr>g_mp := mp', g_conn := (g_conn g)[k := ?c\<lparr>c_buffer := db'\<rparr>]\<rparr>"
  have dm: "dispatch_message g k i data = Some (?g', snd (snd out))"
    using pu out(1) o(1,2) by (cases out) (auto simp: dispatch_message_def)
  moreover have "gate_ok ?g'"
    using G o(3) k kl used_nodes_split(1)[OF kl, of "?c\<lparr>c_buffer := db'\<rparr>"]
    unfolding gate_ok_def by (auto simp: conn_pool_def nth_list_update)
  moreover have "stream_of ?g' k = Wait (db_header db') (db_bytes db')" using kl by (simp add: stream_of_def)
  ultimately show ?thesis
    using o(4) unfolding data_post_def by (cases "snd ?fr") auto
qed

subsection \<open>Opening and closing\<close>

lemma hid_ids_iff: "hid_ok hi \<Longrightarrow> j < hi_cap hi \<Longrightarrow> i \<noteq> - 1 \<Longrightarrow> hid_ids hi j = i \<longleftrightarrow> hid_slot hi i = Some j"
  using hid_slot_iff by (auto simp: hid_ok_def)

lemma int_eqI: "(\<And>i. i \<noteq> - 1 \<Longrightarrow> a = i \<longleftrightarrow> b = i) \<Longrightarrow> a = (b :: int)"
  by (metis)

lemma ids_after_remove:
  assumes "hid_ok hi" "hid_ok hi'" "hid_slot hi' = (hid_slot hi)(i := None)" "hi_cap hi' = hi_cap hi" "j < hi_cap hi"
  shows "hid_ids hi' j = (if hid_slot hi i = Some j then - 1 else hid_ids hi j)"
proof (rule int_eqI)
  fix v :: int assume v: "v \<noteq> - 1"
  have "hid_slot hi v = Some j \<Longrightarrow> hid_slot hi i = Some j \<Longrightarrow> v = i"
    by (auto dest: hid_slot_SomeD)
  then show "(hid_ids hi' j = v) = ((if hid_slot hi i = Some j then - 1 else hid_ids hi j) = v)"
    using hid_ids_iff[OF assms(2) _ v, of j] hid_ids_iff[OF assms(1,5) v] assms(3-5) v by auto
qed

lemma ids_after_insert:
  assumes "hid_ok hi" "hid_ok hi'" "hid_slot hi' = (hid_slot hi)(i \<mapsto> k)" "hi_cap hi' = hi_cap hi" "j < hi_cap hi"
    "hid_slot hi i = None" "k \<notin> ran (hid_slot hi)" "i \<noteq> - 1"
  shows "hid_ids hi' j = (if j = k then i else hid_ids hi j)"
proof (rule int_eqI)
  fix v :: int assume v: "v \<noteq> - 1"
  have "hid_slot hi v \<noteq> Some k" using assms(7) by (auto simp: ran_def)
  then show "(hid_ids hi' j = v) = ((if j = k then i else hid_ids hi j) = v)"
    using hid_ids_iff[OF assms(2) _ v, of j] hid_ids_iff[OF assms(1,5) v] assms(3-8) by auto
qed

lemma close_conn_ok:
  assumes ok: "gate_ok g"
  shows "\<exists>g' acts. close_conn g i = Some (g', acts) \<and> gate_ok g' \<and>
    hid_slot (g_hash g') = (hid_slot (g_hash g))(i := None) \<and>
    acts = (if hid_slot (g_hash g) i = None then [] else report g (int_dec i @ str '' close''))"
proof -
  note G = gate_okD[OF ok]
  obtain hi where hi: "hashid_remove (g_hash g) i = Some (case hid_slot (g_hash g) i of None \<Rightarrow> - 1 | Some k \<Rightarrow> int k, hi)"
    "hid_ok hi" "hid_slot hi = (hid_slot (g_hash g))(i := None)" "hi_cap hi = hi_cap (g_hash g)"
    using remove_ok[OF G(1), of i] by blast
  have ids: "hid_ids hi j = (if hid_slot (g_hash g) i = Some j then - 1 else hid_ids (g_hash g) j)"
    if "j < g_max_connection g" for j
    using that G(2) by (intro ids_after_remove[OF G(1) hi(2-4)]) simp
  show ?thesis
  proof (cases "hid_slot (g_hash g) i")
    case None
    then have "close_conn g i = Some (g\<lparr>g_hash := hi\<rparr>, [])" using hi(1) by (simp add: close_conn_def)
    moreover have "gate_ok (g\<lparr>g_hash := hi\<rparr>)"
      unfolding gate_ok_def using G hi(2,4) ids None by auto
    ultimately show ?thesis using hi(3) None by auto
  next
    case (Some k)
    note kb = slot_bound[OF ok Some]
    have kl: "k < length (g_conn g)" using kb G(3) by simp
    obtain db mp where cl: "databuffer_clear (c_buffer (g_conn g ! k)) (g_mp g) = (db, mp)" by fastforce
    let ?g = "g\<lparr>g_hash := hi, g_mp := mp, g_conn := (g_conn g)[k := empty_conn]\<rparr>"
    have "close_conn g i = Some (?g, report g (int_dec i @ str '' close''))"
      using hi(1) Some kl cl by (simp add: close_conn_def)
    moreover have "pool_balance (used_nodes ((g_conn g)[k := empty_conn])) mp"
    proof -
      let ?n = "used_nodes (g_conn g) - length (db_msgs (c_buffer (g_conn g ! k)))"
      have "pool_balance (length (db_msgs (c_buffer (g_conn g ! k))) + ?n) (g_mp g)"
        using G(5) used_nodes_split(2)[OF kl] by simp
      from databuffer_clear_ok(4)[OF this cl] cl show ?thesis
        using used_nodes_split(1)[OF kl, of empty_conn]
        by (auto simp: empty_conn_def databuffer_clear_def)
    qed
    then have "gate_ok ?g"
      unfolding gate_ok_def using G hi(2,4) ids Some kl
      by (auto simp: nth_list_update empty_conn_def databuffer_zero_def db_ok_def db_bytes_def)
    ultimately show ?thesis using hi(3) Some by auto
  qed
qed

lemma accept_conn_ok:
  assumes ok: "gate_ok g" and m: "sm_id m = g_listen_id g" "hid_legal (g_hash g) (sm_ud m)" "hid_slot (g_hash g) (sm_ud m) = None"
  shows "\<exists>g' acts. accept_conn g m = Some (g', acts) \<and> gate_ok g' \<and>
    (if hashid_full (g_hash g) then g' = g \<and> acts = [Sock_Close (sm_ud m)]
     else \<exists>k. hid_slot (g_hash g') = (hid_slot (g_hash g))(sm_ud m \<mapsto> k) \<and> stream_of g' k = Wait 0 [] \<and> k \<notin> ran (hid_slot (g_hash g)))"
proof (cases "hashid_full (g_hash g)")
  case True
  then show ?thesis using ok m(1) by (simp add: accept_conn_def)
next
  case False
  note G = gate_okD[OF ok]
  let ?i = "sm_ud m"
  obtain k hi where hi: "hashid_insert (g_hash g) ?i = Some (k, hi)" "hid_ok hi" "k < hi_cap (g_hash g)"
    "k \<notin> ran (hid_slot (g_hash g))" "hid_slot hi = (hid_slot (g_hash g))(?i \<mapsto> k)" "hi_cap hi = hi_cap (g_hash g)"
    using insert_ok[OF G(1) False, of ?i] m(2,3) by (auto simp: hid_legal_def)
  have i: "?i \<noteq> - 1" using m(2) by (auto simp: hid_legal_def)
  have kl: "k < length (g_conn g)" using hi(3) G(2,3) by simp
  have ids: "hid_ids hi j = (if j = k then ?i else hid_ids (g_hash g) j)" if "j < g_max_connection g" for j
    using that G(2) by (intro ids_after_insert[OF G(1) hi(2,5,6) _ m(3) hi(4) i]) simp
  have "hid_ids (g_hash g) k = - 1"
    using hid_ids_iff[OF G(1) hi(3), of "hid_ids (g_hash g) k"] hi(4) by (auto simp: ran_def)
  then have blank: "g_conn g ! k = empty_conn" using G(8)[of k] hi(3) G(2) by simp
  let ?name = "c_str (take 31 (sm_extra m))"
  let ?c = "(g_conn g ! k)\<lparr>c_id := ?i, c_remote_name := ?name\<rparr>"
  let ?g = "g\<lparr>g_hash := hi, g_conn := (g_conn g)[k := ?c]\<rparr>"
  have "\<exists>acts. accept_conn g m = Some (?g, acts)"
    using hi(1) False m(1) kl by (simp add: accept_conn_def Let_def)
  moreover have "gate_ok ?g"
  proof -
    have "used_nodes ((g_conn g)[k := ?c]) = used_nodes (g_conn g)"
      using used_nodes_split[OF kl] by simp
    then show ?thesis unfolding gate_ok_def using G hi(2,6) ids kl i by (auto simp: nth_list_update)
  qed
  moreover have "stream_of ?g k = Wait 0 []" using kl blank by (simp add: stream_of_def empty_conn_def)
  ultimately show ?thesis using hi(4,5) False by auto
qed

text \<open>
  What the socket layer guarantees of a message: an \<open>ACCEPT\<close> is for the listening socket, and its new id is in
  range and not open.
\<close>

definition sock_legal :: "gate \<Rightarrow> socket_msg \<Rightarrow> bool" where
  "sock_legal g m \<longleftrightarrow>
     (sm_type m = Sock_Accept \<longrightarrow>
        sm_id m = g_listen_id g \<and> hid_legal (g_hash g) (sm_ud m) \<and> hid_slot (g_hash g) (sm_ud m) = None)"

lemma dispatch_socket_ok:
  assumes ok: "gate_ok g" and m: "sock_legal g m"
  shows "\<exists>g' acts. dispatch_socket_message g m = Some (g', acts) \<and> gate_ok g'"
proof (cases "sm_type m")
  case Sock_Data
  show ?thesis
  proof (cases "hid_slot (g_hash g) (sm_id m)")
    case None
    then show ?thesis using ok Sock_Data by (simp add: dispatch_socket_message_def conn_at_ok)
  next
    case (Some k)
    from slot_bound[OF ok Some] hid_slot_SomeD[OF Some] have "k < g_max_connection g" "hid_ids (g_hash g) k \<noteq> - 1" by auto
    from dispatch_message_ok[OF ok this] obtain out where
      "dispatch_message g k (sm_id m) (sm_buffer m) = Some out" "gate_ok (fst out)" unfolding data_post_def by blast
    then show ?thesis using Some ok Sock_Data by (cases out) (simp add: dispatch_socket_message_def conn_at_ok)
  qed
next
  case Sock_Accept
  with accept_conn_ok[OF ok] m show ?thesis by (fastforce simp: dispatch_socket_message_def sock_legal_def)
next
  case Sock_Closed
  with close_conn_ok[OF ok, of "sm_id m"] show ?thesis by (auto simp: dispatch_socket_message_def)
next
  case Sock_Error
  with close_conn_ok[OF ok, of "sm_id m"] show ?thesis by (auto simp: dispatch_socket_message_def)
qed (use ok in \<open>simp_all add: dispatch_socket_message_def conn_at_ok\<close>)

section \<open>Reachable gates\<close>

inductive gate_reachable :: "(byte list \<Rightarrow> u32) \<Rightarrow> (byte list \<Rightarrow> int \<Rightarrow> int) \<Rightarrow> gate \<Rightarrow> bool"
  for query listen where
  init: "gate_init query listen gate_create (Some p) = (0, g, acts) \<Longrightarrow> gate_reachable query listen g"
| socket: "gate_reachable query listen g \<Longrightarrow> sock_legal g m \<Longrightarrow> dispatch_socket_message g m = Some (g', acts) \<Longrightarrow>
    gate_reachable query listen g'"
| command: "gate_reachable query listen g \<Longrightarrow> ctrl query g msg = Some (g', acts) \<Longrightarrow> gate_reachable query listen g'"

lemma start_listen_frame: "start_listen listen g addr = (r, g', acts) \<Longrightarrow> \<exists>i. g' = g\<lparr>g_listen_id := i\<rparr>"
  by (auto simp: start_listen_def Let_def split: if_splits intro: exI[of _ "g_listen_id g"])

lemma gate_ok_listen [simp]: "gate_ok (g\<lparr>g_listen_id := i\<rparr>) = gate_ok g"
  by (simp add: gate_ok_def)

lemma gate_ok_broker [simp]: "gate_ok (g\<lparr>g_broker := b\<rparr>) = gate_ok g"
  by (simp add: gate_ok_def)

lemma gate_init_ok:
  assumes "gate_init query listen gate_create (Some p) = (0, g, acts)"
  shows "gate_ok g"
proof -
  obtain header watchdog binding tag n where sc: "scan_gate p = Some (header, watchdog, binding, tag, n)" "0 < n"
    using assms by (auto simp: gate_init_def split: option.splits prod.splits if_splits)
  define g0 where "g0 = gate_create\<lparr>g_watchdog := (if watchdog ! 0 = 33 then 0 else query watchdog),
      g_hash := hashid_init (nat n), g_conn := replicate (nat n) empty_conn, g_max_connection := nat n,
      g_client_tag := (if tag = 0 then PTYPE_CLIENT else tag), g_header_size := (if header = 83 then 2 else 4)\<rparr>"
  have "start_listen listen g0 binding = (0, g, acts)"
    using assms sc by (auto simp: gate_init_def g0_def Let_def split: if_splits)
  then obtain i where "g = g0\<lparr>g_listen_id := i\<rparr>" using start_listen_frame by blast
  moreover have "gate_ok g0"
  proof -
    have "hid_ids (hashid_init (nat n)) k = - 1" if "k < nat n" for k
      using that by (simp add: hashid_init_def Let_def hid_ids_def)
    moreover have "used_nodes (replicate (nat n) empty_conn) = 0"
      by (simp add: used_nodes_def empty_conn_def databuffer_zero_def sum_list_replicate)
    ultimately show ?thesis
      by (simp add: header_kind_def g0_def gate_ok_def gate_create_def pool_balance_def empty_conn_def)
  qed
  ultimately show ?thesis by simp
qed

lemma forward_agent_ok:
  assumes ok: "gate_ok g" and "forward_agent g fd a c = Some g'"
  shows "gate_ok g'"
proof (cases "hid_slot (g_hash g) fd")
  case None
  then show ?thesis using assms lookup_ok[OF gate_okD(1)[OF ok], of fd] by (simp add: forward_agent_def)
next
  case (Some k)
  note kb = slot_bound[OF ok Some] hid_slot_SomeD[OF Some]
  have kl: "k < length (g_conn g)" using kb(1) gate_okD(3)[OF ok] by simp
  let ?c = "(g_conn g ! k)\<lparr>c_agent := a, c_client := c\<rparr>"
  have "g' = g\<lparr>g_conn := (g_conn g)[k := ?c]\<rparr>"
    using assms(2) Some lookup_ok[OF gate_okD(1)[OF ok], of fd] by (simp add: forward_agent_def)
  moreover have "used_nodes ((g_conn g)[k := ?c]) = used_nodes (g_conn g)" using used_nodes_split[OF kl] by simp
  ultimately show ?thesis
    using gate_okD[OF ok] kb kl unfolding gate_ok_def by (auto simp: nth_list_update)
qed

lemma ctrl_forward_ok: "gate_ok g \<Longrightarrow> ctrl_forward g tmp = Some g' \<Longrightarrow> gate_ok g'"
  unfolding ctrl_forward_def by (auto split: prod.splits option.splits if_splits intro: forward_agent_ok)

lemma ctrl_known_frame: "ctrl_known g tmp act = Some (g', acts) \<Longrightarrow> g' = g"
  by (auto simp: ctrl_known_def Let_def bind_eq_Some_conv)

lemma bind_ifD: "Option.bind x (\<lambda>b. if b then A else B) = Some r \<Longrightarrow> A = Some r \<or> B = Some r"
  by (cases x) (auto split: if_splits)

lemma ctrl_ok:
  assumes ok: "gate_ok g" and r: "ctrl query g msg = Some (g', acts)"
  shows "gate_ok g'"
proof -
  consider "g' = g" | tmp act where "ctrl_known g tmp act = Some (g', acts)" | tmp where "ctrl_forward g tmp = Some g'"
    | b where "g' = g\<lparr>g_broker := b\<rparr>" | "g' = g\<lparr>g_listen_id := - 1\<rparr>"
    using r unfolding ctrl_def Let_def
    by (cases "msg = []"; simp only: if_True if_False)
      (auto simp: bind_eq_Some_conv split: if_split_asm dest!: bind_ifD)
  then show ?thesis using ok by cases (auto dest: ctrl_known_frame intro: ctrl_forward_ok)
qed

lemma gate_reachable_ok: "gate_reachable query listen g \<Longrightarrow> gate_ok g"
proof (induction rule: gate_reachable.induct)
  case (init p g acts)
  then show ?case by (rule gate_init_ok)
next
  case (socket g m g' acts)
  then show ?case using dispatch_socket_ok[of g m] by auto
next
  case (command g msg g' acts)
  then show ?case by (blast intro: ctrl_ok)
qed

end
