(* ===== verification/Gate_Stream.thy ===== *)
theory Gate_Stream
  imports Gate
begin

text \<open>
  What the gate makes of a client's byte stream: however the bytes of a connection are split over socket
  messages, the packets that come out are those of the length-prefixed stream.
\<close>

section \<open>Streams in chunks\<close>

text \<open>The data of one connection, arriving in chunks.\<close>

fun feed :: "gate \<Rightarrow> int \<Rightarrow> byte list list \<Rightarrow> (gate \<times> gate_act list) option" where
  "feed g i [] = Some (g, [])"
| "feed g i (data # chunks) = do {
     (g1, acts) \<leftarrow> dispatch_socket_message g \<lparr>sm_type = Sock_Data, sm_id = i, sm_ud = int (length data), sm_buffer = data, sm_extra = []\<rparr>;
     (g2, acts') \<leftarrow> feed g1 i chunks;
     Some (g2, acts @ acts')
   }"

lemma route_conn [simp]:
  "forward_route (g\<lparr>g_conn := cs\<rparr>) c = forward_route g c" "packet_act (g\<lparr>g_conn := cs\<rparr>) c = packet_act g c"
  "rcv_of (g\<lparr>g_conn := cs\<rparr>) c = rcv_of g c"
  by (simp_all add: forward_route_def packet_act_def rcv_of_def fun_eq_iff)

lemma frames_settled: "0 < hs \<Longrightarrow> frames rcv hs h bs = (ps, Wait h' r) \<Longrightarrow> frames rcv hs h' r = ([], Wait h' r)"
proof (induction rcv hs h bs arbitrary: ps rule: frames.induct)
  case (1 rcv hs h bs)
  show ?case
  proof (cases rule: frames_cases[of h bs hs])
    case need
    with "1.prems" show ?thesis by (auto simp: frames_need)
  next
    case header
    have "frames rcv hs (be_header (take hs bs)) (drop hs bs) = (ps, Wait h' r)"
      using "1.prems"(2) frames_header[OF header(2) "1.prems"(1), of rcv] unfolding header(1) by (simp only:)
    with "1.IH"(1)[OF header(1) _ "1.prems"(1)] header(2) "1.prems"(1) show ?thesis by fastforce
  next
    case wait
    with "1.prems" show ?thesis by (auto simp: frames_wait)
  next
    case big
    with "1.prems" show ?thesis by (auto simp: frames_big)
  next
    case packet
    then have pk: "\<not> (sint h < 0 \<or> int (length bs) < sint h)" "\<not> 0x1000000 \<le> sint h" by simp_all
    show ?thesis
    proof (cases rcv)
      case True
      obtain qs where "frames rcv hs 0 (drop (nat (sint h)) bs) = (qs, Wait h' r)"
        using "1.prems"(2) frames_packet[OF packet, of rcv hs] True by (auto split: prod.splits)
      with "1.IH"(2)[OF packet(1) pk True "1.prems"(1)] show ?thesis by blast
    next
      case False
      then have "frames rcv hs 0 bs = (ps, Wait h' r)"
        using "1.prems"(2) frames_packet[OF packet, of rcv hs] by simp
      with "1.IH"(3)[OF packet(1) pk False "1.prems"(1)] show ?thesis by blast
    qed
  qed
qed

lemma feed_ok:
  assumes "gate_ok g" "hid_slot (g_hash g) i = Some k" "rcv_of g (g_conn g ! k)" "stream_of g k = Wait h0 r0"
    "frames True (g_header_size g) h0 r0 = ([], Wait h0 r0)"
    "frames True (g_header_size g) h0 (r0 @ concat chunks) = (ps, Wait h r)"
  shows "\<exists>g'. feed g i chunks = Some (g', map (packet_act g (g_conn g ! k)) ps) \<and> gate_ok g' \<and> stream_of g' k = Wait h r"
  using assms
proof (induction chunks arbitrary: g h0 r0 ps)
  case Nil
  then show ?case by simp
next
  case (Cons a chunks)
  let ?hs = "g_header_size g" and ?c = "g_conn g ! k"
  have hs: "0 < ?hs" using gate_okD(4)[OF Cons.prems(1)] .
  have kb: "k < g_max_connection g" "hid_ids (g_hash g) k \<noteq> - 1"
    using slot_bound[OF Cons.prems(1,2)] hid_slot_SomeD[OF Cons.prems(2)] by auto
  have kl: "k < length (g_conn g)" using kb(1) gate_okD(3)[OF Cons.prems(1)] by simp
  obtain ps1 st1 where f1: "frames True ?hs h0 (r0 @ a) = (ps1, st1)" by fastforce
  have tf: "then_frames True ?hs (ps1, st1) (concat chunks) = (ps, Wait h r)"
    using Cons.prems(6) frames_append[OF hs, of True h0 "r0 @ a" "concat chunks"] f1 by simp
  then obtain h1 r1 where st1: "st1 = Wait h1 r1" by (cases st1) (auto simp: then_frames_def)
  from tf st1 obtain ps2 where f2: "frames True ?hs h1 (r1 @ concat chunks) = (ps2, Wait h r)" "ps = ps1 @ ps2"
    by (auto simp: then_frames_def split: prod.splits)
  from Cons.prems(4) have sf: "db_header (c_buffer ?c) = h0" "db_bytes (c_buffer ?c) = r0" by (auto simp: stream_of_def)
  obtain out where out: "dispatch_message g k i a = Some out" "data_post g k i (ps1, st1) out"
    using dispatch_message_ok[OF Cons.prems(1) kb, of i a] Cons.prems(3) sf f1 by auto
  then obtain db mp where o: "fst out = g\<lparr>g_mp := mp, g_conn := (g_conn g)[k := ?c\<lparr>c_buffer := db\<rparr>]\<rparr>"
    "gate_ok (fst out)" "snd out = map (packet_act g ?c) ps1" "stream_of (fst out) k = Wait h1 r1"
    unfolding data_post_def using st1 by auto
  have ck: "g_conn (fst out) ! k = ?c\<lparr>c_buffer := db\<rparr>" using o(1) kl by simp
  have "\<exists>g'. feed (fst out) i chunks = Some (g', map (packet_act (fst out) (g_conn (fst out) ! k)) ps2) \<and> gate_ok g' \<and> stream_of g' k = Wait h r"
  proof (rule Cons.IH[OF o(2) _ _ o(4)])
    show "hid_slot (g_hash (fst out)) i = Some k" "rcv_of (fst out) (g_conn (fst out) ! k)"
      unfolding ck using o(1) Cons.prems(2,3) by simp_all
    show "frames True (g_header_size (fst out)) h1 r1 = ([], Wait h1 r1)"
      using frames_settled[OF hs f1[unfolded st1]] o(1) by simp
    show "frames True (g_header_size (fst out)) h1 (r1 @ concat chunks) = (ps2, Wait h r)" using f2(1) o(1) by simp
  qed
  moreover have "packet_act (fst out) (g_conn (fst out) ! k) = packet_act g ?c" unfolding ck using o(1) by simp
  ultimately show ?case
    using out(1) o(3) f2(2) Cons.prems(1,2) by (cases out) (auto simp: dispatch_socket_message_def conn_at_ok)
qed

section \<open>Encoding a stream\<close>

text \<open>What a client writes: every packet behind its length, big endian, in two or four bytes.\<close>

definition header_bytes :: "nat \<Rightarrow> nat \<Rightarrow> byte list" where
  "header_bytes hs n =
     (if hs = 2 then [of_nat (drop_bit 8 n), of_nat n]
      else [of_nat (drop_bit 24 n), of_nat (drop_bit 16 n), of_nat (drop_bit 8 n), of_nat n])"

definition encode :: "nat \<Rightarrow> byte list list \<Rightarrow> byte list" where
  "encode hs ps = concat (map (\<lambda>p. header_bytes hs (length p) @ p) ps)"

definition fits :: "nat \<Rightarrow> byte list \<Rightarrow> bool" where
  "fits hs p \<longleftrightarrow> p \<noteq> [] \<and> length p < (if hs = 2 then 0x10000 else 0x1000000)"

lemma bit_of_nat_byte: "bit (of_nat n :: byte) i \<longleftrightarrow> i < 8 \<and> bit n i"
  by (simp add: bit_simps)

lemma bit_small: "n < 2 ^ m \<Longrightarrow> m \<le> i \<Longrightarrow> \<not> bit (n :: nat) i"
  using bit_take_bit_iff[of m n i] take_bit_nat_eq_self[of n m] by simp

lemma be_header_2: "n < 0x10000 \<Longrightarrow> be_header (header_bytes 2 n) = of_nat n"
proof (rule bit_word_eqI)
  fix i assume n: "n < 0x10000"
  have *: "\<not> bit n i" if "16 \<le> i" using bit_small[of n 16 i] n that by simp
  show "bit (be_header (header_bytes 2 n)) i = bit (of_nat n :: u32) i" if "i < LENGTH(32)"
    using that * by (cases "i < 8"; cases "i < 16") (auto simp: be_header_def header_bytes_def bit_simps)
qed

lemma be_header_4: "n < 0x1000000 \<Longrightarrow> be_header (header_bytes 4 n) = of_nat n"
proof (rule bit_word_eqI)
  fix i assume n: "n < 0x1000000"
  show "bit (be_header (header_bytes 4 n)) i = bit (of_nat n :: u32) i" if "i < LENGTH(32)"
    using that by (cases "i < 8"; cases "i < 16"; cases "i < 24") (auto simp: be_header_def header_bytes_def bit_simps)
qed

lemma header_bytes_length: "header_kind hs \<Longrightarrow> length (header_bytes hs n) = hs"
  by (auto simp: header_bytes_def header_kind_def)

lemma fits_header:
  assumes "header_kind hs" "fits hs p"
  shows "be_header (header_bytes hs (length p)) = of_nat (length p)" "(of_nat (length p) :: u32) \<noteq> 0"
    "sint (of_nat (length p) :: u32) = int (length p)" "int (length p) < 0x1000000"
proof -
  have l: "0 < length p" "length p < 0x1000000" "hs = 2 \<Longrightarrow> length p < 0x10000"
    using assms(2) by (auto simp: fits_def split: if_splits)
  show "be_header (header_bytes hs (length p)) = of_nat (length p)"
    using assms(1)[unfolded header_kind_def] l be_header_2[of "length p"] be_header_4[of "length p"] by auto
  show s: "sint (of_nat (length p) :: u32) = int (length p)"
    using l(2) by (simp add: signed_of_nat signed_take_bit_int_eq_self)
  show "(of_nat (length p) :: u32) \<noteq> 0" using s l(1) by (metis of_nat_0_less_iff less_irrefl signed_0)
  show "int (length p) < 0x1000000" using l(2) by simp
qed

lemma frames_encode:
  assumes hs: "header_kind hs" and ps: "\<forall>p \<in> set ps. fits hs p"
  shows "frames True hs 0 (encode hs ps) = (ps, Wait 0 [])"
  using ps
proof (induction ps)
  case Nil
  then show ?case using header_kind_pos[OF hs] by (simp add: encode_def frames_need)
next
  case (Cons p ps)
  let ?rest = "p @ encode hs ps"
  note F = fits_header[OF hs, of p]
  have f: "fits hs p" using Cons.prems by simp
  have e: "encode hs (p # ps) = header_bytes hs (length p) @ ?rest" by (simp add: encode_def)
  have "frames True hs 0 (encode hs (p # ps)) = frames True hs (of_nat (length p)) ?rest"
    using frames_header[of hs "encode hs (p # ps)" True] header_kind_pos[OF hs] e header_bytes_length[OF hs] F(1)[OF f] by auto
  also have "\<dots> = (p # ps, Wait 0 [])"
    using frames_packet[OF F(2)[OF f], of ?rest True hs] F(3,4)[OF f] Cons by simp
  finally show ?case .
qed

section \<open>An open connection\<close>

text \<open>Client \<open>i\<close> is connected, and no byte of an unfinished packet is waiting.\<close>

definition idle_conn :: "gate \<Rightarrow> int \<Rightarrow> nat \<Rightarrow> bool" where
  "idle_conn g i k \<longleftrightarrow> hid_slot (g_hash g) i = Some k \<and> stream_of g k = Wait 0 []"

lemma feed_idle:
  assumes "gate_ok g" "idle_conn g i k" "rcv_of g (g_conn g ! k)"
    "frames True (g_header_size g) 0 (concat chunks) = (ps, Wait h r)"
  shows "\<exists>g'. feed g i chunks = Some (g', map (packet_act g (g_conn g ! k)) ps) \<and> gate_ok g' \<and> stream_of g' k = Wait h r"
  using assms gate_okD(4)[OF assms(1)] by (intro feed_ok[where ?h0.0 = 0 and ?r0.0 = "[]"]) (auto simp: idle_conn_def frames_need)

lemma unrouted_data:
  assumes "gate_ok g" "idle_conn g i k" "\<not> rcv_of g (g_conn g ! k)" "frames False (g_header_size g) 0 data = (ps, Wait h r)"
  shows "\<exists>g' acts. feed g i [data] = Some (g', acts) \<and> stream_of g' k = Wait h r"
proof -
  have s: "hid_slot (g_hash g) i = Some k" "stream_of g k = Wait 0 []" using assms(2) by (auto simp: idle_conn_def)
  have kb: "k < g_max_connection g" "hid_ids (g_hash g) k \<noteq> - 1"
    using slot_bound[OF assms(1) s(1)] hid_slot_SomeD[OF s(1)] by auto
  obtain out where "dispatch_message g k i data = Some out" "data_post g k i (ps, Wait h r) out"
    using dispatch_message_ok[OF assms(1) kb, of i data] assms(3,4) s(2) by (auto simp: stream_of_def)
  then show ?thesis
    using s assms(1) by (cases out) (auto simp: data_post_def dispatch_socket_message_def conn_at_ok)
qed

section \<open>A gate with one client\<close>

text \<open>
  The gate of the configuration \<open>S w :80 0 4\<close> (or \<open>L\<close> for four-byte headers, or \<open>!\<close> for no watchdog), and
  the same gate once it has accepted client 7.
\<close>

definition demo_query :: "byte list \<Rightarrow> u32" where "demo_query _ = 11"
definition demo_listen :: "byte list \<Rightarrow> int \<Rightarrow> int" where "demo_listen _ _ = 5"

definition demo_gate :: "nat \<Rightarrow> u32 \<Rightarrow> gate" where
  "demo_gate hs wd = gate_create\<lparr>g_listen_id := 5, g_watchdog := wd, g_client_tag := 3, g_header_size := hs,
     g_max_connection := 4, g_hash := hashid_init 4, g_conn := replicate 4 empty_conn\<rparr>"

definition demo_hash :: hashid where
  "demo_hash = \<lparr>hi_hashmod = 15, hi_cap = 4, hi_count = 1,
     hi_id = (replicate 4 \<lparr>hn_id = - 1, hn_next = None\<rparr>)[3 := \<lparr>hn_id = 7, hn_next = None\<rparr>],
     hi_hash = (replicate 16 None)[7 := Some 3]\<rparr>"

definition demo_client :: "nat \<Rightarrow> u32 \<Rightarrow> gate" where
  "demo_client hs wd = (demo_gate hs wd)\<lparr>g_hash := demo_hash,
     g_conn := (replicate 4 empty_conn)[3 := empty_conn\<lparr>c_id := 7, c_remote_name := str ''1.2.3.4''\<rparr>]\<rparr>"

lemma demo_scan: "scan_gate (h # str '' w :80 0 4'') = Some (h, str ''w'', str '':80'', 0, 4)"
  "scan_gate (h # str '' ! :80 0 4'') = Some (h, str ''!'', str '':80'', 0, 4)"
  by code_simp+

lemma demo_insert: "hashid_insert (hashid_init 4) 7 = Some (3, demo_hash)"
  by code_simp

lemma demo_listen_ok: "start_listen demo_listen g (str '':80'') = (0, g\<lparr>g_listen_id := 5\<rparr>, [Sock_Start 5])"
proof -
  have *: "length (takeWhile (\<lambda>b. b \<noteq> 58) (str '':80'')) = 0" "length (str '':80'') = 3" "to_int (strtol10 (drop (Suc 0) (str '':80''))) = 80"
    by code_simp+
  show ?thesis unfolding start_listen_def Let_def * by (simp add: demo_listen_def *)
qed

lemma demo_init:
  "gate_init demo_query demo_listen gate_create (Some (83 # str '' w :80 0 4'')) = (0, demo_gate 2 11, [Sock_Start 5])"
  "gate_init demo_query demo_listen gate_create (Some (83 # str '' ! :80 0 4'')) = (0, demo_gate 2 0, [Sock_Start 5])"
  "gate_init demo_query demo_listen gate_create (Some (76 # str '' w :80 0 4'')) = (0, demo_gate 4 11, [Sock_Start 5])"
proof -
  have *: "str ''w'' ! 0 = 119" "str ''!'' ! 0 = 33" by code_simp+
  note defs = gate_init_def demo_scan demo_listen_ok demo_query_def demo_gate_def * Let_def PTYPE_CLIENT_def
  show "gate_init demo_query demo_listen gate_create (Some (83 # str '' w :80 0 4'')) = (0, demo_gate 2 11, [Sock_Start 5])"
    "gate_init demo_query demo_listen gate_create (Some (83 # str '' ! :80 0 4'')) = (0, demo_gate 2 0, [Sock_Start 5])"
    "gate_init demo_query demo_listen gate_create (Some (76 # str '' w :80 0 4'')) = (0, demo_gate 4 11, [Sock_Start 5])"
    by (simp_all add: defs)
qed

lemma demo_accept:
  "dispatch_socket_message (demo_gate hs wd)
     \<lparr>sm_type = Sock_Accept, sm_id = 5, sm_ud = 7, sm_buffer = [], sm_extra = str ''1.2.3.4''\<rparr> =
     Some (demo_client hs wd, report (demo_gate hs wd) (str ''7 open 7 1.2.3.4:0'') @ [Log])"
proof -
  have *: "c_str (take 31 (str ''1.2.3.4'')) = str ''1.2.3.4''" "int_dec 7 @ str '' open '' @ int_dec 7 @ str '' '' @ str ''1.2.3.4'' @ str '':0'' = str ''7 open 7 1.2.3.4:0''"
    "hashid_full (hashid_init 4) = False" by code_simp+
  show ?thesis
    by (simp add: dispatch_socket_message_def accept_conn_def * demo_gate_def demo_client_def demo_insert)
qed

lemma demo_reachable:
  assumes "(hs, wd) \<in> {(2, 11), (2, 0), (4, 11)}"
  shows "gate_reachable demo_query demo_listen (demo_client hs wd)" "idle_conn (demo_client hs wd) 7 3"
    "g_conn (demo_client hs wd) ! 3 = empty_conn\<lparr>c_id := 7, c_remote_name := str ''1.2.3.4''\<rparr>"
proof -
  have g: "gate_reachable demo_query demo_listen (demo_gate hs wd)" using assms demo_init by (auto intro: gate_reachable.init)
  have "hid_slot (hashid_init 4) 7 = None" by code_simp
  with gate_reachable.socket[OF g _ demo_accept] show "gate_reachable demo_query demo_listen (demo_client hs wd)"
    by (simp add: sock_legal_def demo_gate_def hid_legal_def)
  show c: "g_conn (demo_client hs wd) ! 3 = empty_conn\<lparr>c_id := 7, c_remote_name := str ''1.2.3.4''\<rparr>"
    by (simp add: demo_client_def)
  have "hid_slot demo_hash 7 = Some 3" by code_simp
  with c show "idle_conn (demo_client hs wd) 7 3"
    by (simp add: idle_conn_def stream_of_def) (simp add: demo_client_def empty_conn_def databuffer_zero_def db_bytes_def)
qed

section \<open>Properties\<close>

text \<open>
  C16. Framing: when a connected client whose packets have a receiver sends packets of legal length, each
  behind its header, the gate forwards exactly those packets, in order, however the bytes are split
  over socket messages, and keeps nothing back.
\<close>

theorem gate_framing:
  assumes "gate_reachable query listen g" "idle_conn g i k" "rcv_of g (g_conn g ! k)"
    "\<forall>p \<in> set ps. fits (g_header_size g) p" "concat chunks = encode (g_header_size g) ps"
  shows "\<exists>g'. feed g i chunks = Some (g', map (packet_act g (g_conn g ! k)) ps) \<and> stream_of g' k = Wait 0 []"
proof -
  have ok: "gate_ok g" using assms(1) by (rule gate_reachable_ok)
  show ?thesis
    using feed_idle[OF ok assms(2,3)] frames_encode[OF gate_okD(9)[OF ok] assms(4)] assms(5) by metis
qed

theorem gate_framing_witness:
  "\<exists>g'. feed (demo_client 2 11) 7 [[0], [3, 104, 105], [33, 0, 1, 120]] =
     Some (g', [Send 0 11 0x10000 (str ''7 data hi!''), Send 0 11 0x10000 (str ''7 data x'')]) \<and> stream_of g' 3 = Wait 0 []"
proof -
  let ?g = "demo_client 2 11" and ?ps = "[[104, 105, 33], [120]] :: byte list list"
  note D = demo_reachable[of 2 11, simplified]
  have f: "g_header_size ?g = 2" "g_broker ?g = 0" "g_watchdog ?g = 11"
    by (simp_all add: demo_client_def demo_gate_def gate_create_def)
  have r: "forward_route ?g (g_conn ?g ! 3) = Some (0, 11, 0x10000, str ''7 data '')"
    unfolding forward_route_def D(3) f by (simp add: empty_conn_def PTYPE_TEXT_def PTYPE_TAG_DONTCOPY_def) code_simp
  have e: "concat [[0], [3, 104, 105], [33, 0, 1, 120]] = encode 2 ?ps" by code_simp
  have p: "\<forall>p \<in> set ?ps. fits (g_header_size ?g) p" by (simp add: fits_def f)
  have s: "str ''7 data '' @ [104, 105, 33] = str ''7 data hi!''" "str ''7 data '' @ [120] = str ''7 data x''" by code_simp+
  show ?thesis
    using gate_framing[OF D(1,2) _ p, of "[[0], [3, 104, 105], [33, 0, 1, 120]]"] r e s f by (simp add: rcv_of_def packet_act_def)
qed



text \<open>
  C36. The 16 MB limit does not cover lengths with the sign bit set: with four-byte headers, once a client has sent a
  header of \<open>0x80000000\<close> or more, whatever it sends is buffered: nothing is forwarded, and the connection is
  not closed.
\<close>

theorem gate_negative_length_stalls:
  assumes "gate_reachable query listen g" "idle_conn g i k" "rcv_of g (g_conn g ! k)" "g_header_size g = 4"
    "0x80 \<le> b0" "concat chunks = [b0, b1, b2, b3] @ rest"
  shows "\<exists>g'. feed g i chunks = Some (g', []) \<and> stream_of g' k = Wait (be_header [b0, b1, b2, b3]) rest"
proof -
  let ?h = "be_header [b0, b1, b2, b3]"
  have "unat b0 div 2 ^ 7 = 1" using assms(5) unsigned_less[of b0, where 'a = nat] by (simp add: word_le_nat_alt)
  then have "bit (unat b0) 7" by (simp add: bit_iff_odd)
  then have "bit b0 7" by (simp add: bit_unsigned_iff)
  then have "bit ?h 31" by (simp add: be_header_def bit_simps)
  then have n: "sint ?h < 0" using bit_last_iff[of ?h] by simp
  then have "?h \<noteq> 0" by auto
  have "frames True 4 0 (concat chunks) = frames True 4 ?h rest"
    using frames_header[of 4 "concat chunks" True] assms(6) by simp
  also have "\<dots> = ([], Wait ?h rest)" using n \<open>?h \<noteq> 0\<close> by (intro frames_wait) simp_all
  finally show ?thesis using feed_idle[OF gate_reachable_ok[OF assms(1)] assms(2,3)] assms(4) by fastforce
qed

theorem gate_negative_length_stalls_witness:
  "\<exists>g'. feed (demo_client 4 11) 7 [[0x80, 0], [0, 1, 104]] = Some (g', []) \<and> stream_of g' 3 = Wait (be_header [0x80, 0, 0, 1]) [104]"
proof -
  note D = demo_reachable[of 4 11, simplified]
  have f: "g_header_size (demo_client 4 11) = 4" "rcv_of (demo_client 4 11) c" for c
    by (simp_all add: demo_client_def demo_gate_def rcv_of_def forward_route_def)
  show ?thesis by (rule gate_negative_length_stalls[OF D(1,2) f(2,1)]) simp_all
qed



end
