(* ===== verification/Connection_Manager.thy ===== *)
theory Connection_Manager
  imports Cstring
begin

text \<open>
  The message envelope of the game protocol, \<open>Src/LuaInterface/lua_connectionManager.c\<close>: a request carries
  session, type and type name before its sproto body, a response session and type name.

  A \<open>char\<close> is signed, so a byte of the buffer is sign-extended when it is used as an \<open>int\<close>. A read outside
  a buffer gives \<^term>\<open>None\<close>. The bytes that the local array \<open>messageName\<close> happens to hold before it is
  written are the argument \<open>junk\<close>.
\<close>

section \<open>Unpacking\<close>

definition TYPE_STRING_MAX_LEN :: nat where "TYPE_STRING_MAX_LEN = 255"

record unpacked =
  u_session :: u32
  u_type :: int
  u_name :: "byte list"
  u_name_len :: int
  u_body :: int

text \<open>\<open>buf[i]\<close> as an \<open>int\<close>.\<close>

definition char_at :: "byte list \<Rightarrow> nat \<Rightarrow> u32 option" where
  "char_at buf i = (if i < length buf then Some (scast (buf ! i)) else None)"

text \<open>The name loop: the bytes it has read from \<open>buf + 7\<close>.\<close>

definition name_bytes :: "byte list \<Rightarrow> int \<Rightarrow> byte list option" where
  "name_bytes buf n =
     (let k = min (nat n) TYPE_STRING_MAX_LEN
      in if k = 0 then Some [] else if 7 + k \<le> length buf then Some (take k (drop 7 buf)) else None)"

definition unpackMessage :: "byte list \<Rightarrow> byte list \<Rightarrow> unpacked option" where
  "unpackMessage junk buf = do {
     b0 \<leftarrow> char_at buf 0; b1 \<leftarrow> char_at buf 1; b2 \<leftarrow> char_at buf 2; b3 \<leftarrow> char_at buf 3;
     let session = push_bit 24 b0 OR push_bit 16 b1 OR push_bit 8 b2 OR b3;
     ty \<leftarrow> char_at buf 4;
     b5 \<leftarrow> char_at buf 5; b6 \<leftarrow> char_at buf 6;
     let len = sint (push_bit 8 b5 OR b6);
     nm \<leftarrow> name_bytes buf len;
     name \<leftarrow> array_str (nm @ drop (length nm) (take TYPE_STRING_MAX_LEN junk));
     Some \<lparr>u_session = session, u_type = sint ty, u_name = name, u_name_len = len, u_body = 7 + len\<rparr>
   }"

section \<open>Packing\<close>

text \<open>\<open>session\<close> is the Lua integer that is cut to an \<open>int\<close>; the name ends at its first zero byte.\<close>

definition packMessage :: "byte list \<Rightarrow> int \<Rightarrow> byte list \<Rightarrow> byte list" where
  "packMessage messageName sess buf =
     (let name = c_str messageName; session = word_of_int sess :: u32; n = of_nat (length name) :: u32
      in [ucast (drop_bit 24 session), ucast (drop_bit 16 session), ucast (drop_bit 8 session), ucast session,
          ucast (drop_bit 8 n), ucast n] @ name @ buf)"

section \<open>The two formats\<close>

definition be32 :: "u32 \<Rightarrow> byte list" where
  "be32 w = [ucast (drop_bit 24 w), ucast (drop_bit 16 w), ucast (drop_bit 8 w), ucast w]"

definition be16 :: "nat \<Rightarrow> byte list" where
  "be16 n = [of_nat (drop_bit 8 n), of_nat n]"

text \<open>A request as the client writes it, and a response as it reads it.\<close>

definition request :: "u32 \<Rightarrow> byte \<Rightarrow> byte list \<Rightarrow> byte list \<Rightarrow> byte list" where
  "request session ty name body = be32 session @ [ty] @ be16 (length name) @ name @ body"

definition read_response :: "byte list \<Rightarrow> (u32 \<times> byte list \<times> byte list) option" where
  "read_response p =
     (if length p < 6 then None
      else
        let session = push_bit 24 (ucast (p ! 0)) OR push_bit 16 (ucast (p ! 1)) OR push_bit 8 (ucast (p ! 2)) OR ucast (p ! 3);
            n = 256 * unat (p ! 4) + unat (p ! 5)
        in if length p < 6 + n then None else Some (session, take n (drop 6 p), drop n (drop 6 p)))"

lemma be32_bytes: "push_bit 24 (ucast (be32 w ! 0)) OR push_bit 16 (ucast (be32 w ! 1)) OR push_bit 8 (ucast (be32 w ! 2)) OR ucast (be32 w ! 3) = w"
  (is "?l = w")
proof (rule bit_word_eqI)
  fix i assume "i < LENGTH(32)"
  then show "bit ?l i = bit w i"
    by (cases "i < 8"; cases "i < 16"; cases "i < 24") (auto simp: be32_def bit_simps)
qed

text \<open>Sign extension does no harm below \<open>0x80\<close>.\<close>

lemma byte_bit_le: "bit (b :: byte) i \<Longrightarrow> i \<le> 7"
  using bit_imp_le_length[of b i] by simp

lemma byte_bit_7: "bit (b :: byte) i \<Longrightarrow> 7 \<le> i \<Longrightarrow> bit b 7"
  using byte_bit_le[of b i] by (cases "i = 7") auto

lemma scast_small: "\<not> bit b 7 \<Longrightarrow> scast (b :: byte) = (ucast b :: u32)"
  by (rule bit_word_eqI) (auto simp: bit_simps min_def dest: byte_bit_7)

lemma scast_high: "bit b 7 \<Longrightarrow> 7 \<le> i \<Longrightarrow> i < 32 \<Longrightarrow> bit (scast (b :: byte) :: u32) i"
  by (auto simp: bit_simps min_def)

lemma sint_scast_byte: "sint (scast (b :: byte) :: u32) = sint b"
  by (rule sint_up_scast) (simp add: is_up)

lemma read_pack:
  assumes "length name < 0x10000" "0 \<notin> set name"
  shows "read_response (packMessage name sess body) = Some (word_of_int sess, name, body)"
proof -
  let ?w = "word_of_int sess :: u32" and ?n = "of_nat (length name) :: u32"
  have nm: "c_str name = name" using assms(2) by (auto simp: c_str_def takeWhile_eq_all_conv)
  have p: "packMessage name sess body = be32 ?w @ [ucast (drop_bit 8 ?n), ucast ?n] @ name @ body"
    by (simp add: packMessage_def nm be32_def Let_def)
  have u: "unat ?n = length name" using assms(1) by (simp add: unsigned_of_nat take_bit_nat_eq_self)
  have d: "unat (drop_bit 8 ?n) = length name div 256"
    unfolding unsigned_drop_bit_eq u using assms(1) by (simp add: drop_bit_eq_div take_bit_nat_eq_self)
  have n: "256 * unat (ucast (drop_bit 8 ?n) :: byte) + unat (ucast ?n :: byte) = length name"
    unfolding unsigned_ucast_eq d u using assms(1) by (simp add: take_bit_eq_mod)
  show ?thesis
    unfolding p using be32_bytes[of ?w] n by (simp add: read_response_def be32_def Let_def)
qed

lemma session_small:
  assumes "session AND 0x808080 = 0"
  shows "push_bit 24 (scast (be32 session ! 0)) OR push_bit 16 (scast (be32 session ! 1)) OR
      push_bit 8 (scast (be32 session ! 2)) OR scast (be32 session ! 3) = session"
proof -
  have b: "\<not> bit session 23 \<and> \<not> bit session 15 \<and> \<not> bit session 7"
  proof -
    have "\<not> bit (session AND 0x808080) i" for i using assms by simp
    from this[of 23] this[of 15] this[of 7] show ?thesis by (simp add: bit_simps)
  qed
  then have "scast (be32 session ! 1) = (ucast (be32 session ! 1) :: u32)" "scast (be32 session ! 2) = (ucast (be32 session ! 2) :: u32)"
    "scast (be32 session ! 3) = (ucast (be32 session ! 3) :: u32)"
    by (auto intro!: scast_small simp: be32_def bit_simps)
  moreover have "push_bit 24 (scast (x :: byte)) = (push_bit 24 (ucast x) :: u32)" for x
    by (rule bit_word_eqI) (auto simp: bit_simps)
  ultimately show ?thesis using be32_bytes[of session] by simp
qed

lemma name_len_small: "n \<le> 127 \<Longrightarrow> sint (push_bit 8 (scast (be16 n ! 0)) OR scast (be16 n ! 1) :: u32) = int n"
proof -
  assume n: "n \<le> 127"
  have d: "drop_bit 8 n = 0" using n by (simp add: drop_bit_eq_div)
  have "scast (of_nat n :: byte) = (of_nat n :: u32)"
    using n by (simp add: signed_of_nat signed_take_bit_int_eq_self)
  with n d show ?thesis by (simp add: be16_def signed_of_nat signed_take_bit_int_eq_self)
qed

section \<open>Properties\<close>

text \<open>
  C25. A request whose session has no byte of \<open>0x80\<close> or more but the first, whose type name has at most 127 bytes and none of them
  zero, is unpacked into its session, type, name and body, provided that the byte after the name in the
  uninitialised name array happens to be zero.
\<close>

theorem unpack_request:
  assumes "session AND 0x808080 = 0" "length name \<le> 127" "0 \<notin> set name" "length name < length junk" "junk ! length name = 0"
  shows "\<exists>u. unpackMessage junk (request session ty name body) = Some u \<and> u_session u = session \<and> u_type u = sint ty \<and>
    u_name u = name \<and> u_name_len u = int (length name) \<and> drop (nat (u_body u)) (request session ty name body) = body"
proof -
  let ?n = "length name" and ?m = "request session ty name body"
  have m: "?m ! 0 = be32 session ! 0" "?m ! 1 = be32 session ! 1" "?m ! 2 = be32 session ! 2" "?m ! 3 = be32 session ! 3"
    "?m ! 4 = ty" "?m ! 5 = be16 ?n ! 0" "?m ! 6 = be16 ?n ! 1" "length ?m = 7 + ?n + length body" "drop 7 ?m = name @ body"
    by (simp_all add: request_def be32_def be16_def)
  have nb: "name_bytes ?m (int ?n) = Some name"
    using assms(2) m(8,9) by (auto simp: name_bytes_def TYPE_STRING_MAX_LEN_def Let_def)
  have "drop ?n (take 255 junk) = 0 # drop (Suc ?n) (take 255 junk)"
    using assms(2,4,5) Cons_nth_drop_Suc[of ?n "take 255 junk"] by simp
  then have as: "array_str (name @ drop ?n (take TYPE_STRING_MAX_LEN junk)) = Some name"
    using assms(3) by (auto simp: array_str_def TYPE_STRING_MAX_LEN_def takeWhile_append takeWhile_eq_all_conv)
  have "drop (nat (7 + int ?n)) ?m = body" using m(9) by (metis append_eq_conv_conj drop_drop nat_int_add of_nat_numeral add.commute)
  then show ?thesis
    using session_small[OF assms(1)] name_len_small[OF assms(2)] nb as m by (simp add: unpackMessage_def char_at_def Let_def sint_scast_byte)
qed

theorem unpack_request_witness:
  "\<exists>u. unpackMessage (replicate 255 0) (request 0x01020304 2 (str ''Login'') [8, 9]) = Some u \<and> u_session u = 0x01020304 \<and>
    u_type u = 2 \<and> u_name u = str ''Login'' \<and> u_name_len u = 5 \<and>
    drop (nat (u_body u)) (request 0x01020304 2 (str ''Login'') [8, 9]) = [8, 9]"
proof -
  have l: "length (str ''Login'') = 5" "(0 :: byte) \<notin> set (str ''Login'')" by code_simp+
  show ?thesis
    using unpack_request[of "0x01020304" "str ''Login''" "replicate 255 0" 2 "[8, 9]"] l by simp
qed

text \<open>
  C38. A session number whose last byte is \<open>0x80\<close> or more is lost: the byte is sign-extended and its ones cover
  all the other bytes, so the server sees a negative session between -128 and -1.
\<close>

theorem unpack_session_lost:
  assumes "0x80 \<le> b3" "unpackMessage junk (b0 # b1 # b2 # b3 # rest) = Some u"
  shows "sint (u_session u) = sint b3 \<and> sint (u_session u) < 0"
proof -
  have "unat b3 div 2 ^ 7 = 1" using assms(1) unsigned_less[of b3, where 'a = nat] by (simp add: word_le_nat_alt)
  then have "bit (unat b3) 7" by (simp add: bit_iff_odd)
  then have b: "bit b3 7" by (simp add: bit_unsigned_iff)
  have "u_session u = push_bit 24 (scast b0) OR push_bit 16 (scast b1) OR push_bit 8 (scast b2) OR scast b3"
    using assms(2) by (auto simp: unpackMessage_def char_at_def Let_def split: bind_splits if_splits)
  also have "\<dots> = (scast b3 :: u32)"
    by (rule bit_word_eqI) (use scast_high[OF b] in \<open>auto simp: bit_push_bit_iff bit_or_iff not_le\<close>)
  finally have "sint (u_session u) = sint b3" by (simp add: sint_scast_byte)
  with b bit_last_iff[of b3] show ?thesis by simp
qed

theorem unpack_session_lost_witness:
  "\<exists>u. unpackMessage (replicate 255 0) [0, 0, 1, 200, 1, 0, 1, 65] = Some u \<and> sint (u_session u) = - 56"
proof -
  have "unpackMessage (replicate 255 0) [0, 0, 1, 200, 1, 0, 1, 65] \<noteq> None" by code_simp
  then obtain u where u: "unpackMessage (replicate 255 0) [0, 0, 1, 200, 1, 0, 1, 65] = Some u" by blast
  have "sint (200 :: byte) = - 56" by simp
  with unpack_session_lost[OF _ u] u show ?thesis by simp
qed

text \<open>
  C26. A response carries its content: what a client reads from a packed message is the session cut to 32 bits, the
  type name and the body, for names of fewer than 65536 bytes without a zero byte.
\<close>

theorem pack_response:
  assumes "length name < 0x10000" "0 \<notin> set name"
  shows "read_response (packMessage name sess body) = Some (word_of_int sess, name, body)"
  using assms by (rule read_pack)

theorem pack_response_witness:
  "read_response (packMessage (str ''Ack'') (- 1) [7]) = Some (0xFFFFFFFF, str ''Ack'', [7])"
proof -
  have l: "length (str ''Ack'') = 3" "(0 :: byte) \<notin> set (str ''Ack'')" by code_simp+
  then show ?thesis using pack_response[of "str ''Ack''" "- 1" "[7]"] by simp
qed

end
