(* ===== verification/Redis_Client.thy ===== *)
theory Redis_Client
  imports Cstring
begin

text \<open>
  The Redis binding of the game server, \<open>Src/Redis/hiredis.c\<close>.

  The client library is a parameter: \<open>connect k\<close> is the outcome of the \<open>k\<close>-th call of
  \<open>redisConnectWithTimeout\<close>, a context's address and whether its error field is set, or a null pointer;
  \<open>command\<close> is \<open>redisCommand\<close> on the state of the server, with the words of the command, and gives the
  string of the reply. A function returns the calls it makes on contexts; using a null reply gives \<^term>\<open>None\<close>.
\<close>

section \<open>Connecting\<close>

type_synonym ctx = nat
type_synonym redis_connect = "nat \<Rightarrow> (ctx \<times> bool) option"

datatype redis_act = Connect | Free ctx

definition MAX_RETRY_TIMES :: nat where "MAX_RETRY_TIMES = 3"

definition connectToRedis :: "redis_connect \<Rightarrow> nat \<Rightarrow> ctx option \<Rightarrow> ctx option \<times> redis_act list" where
  "connectToRedis connect k context =
     (let pre = (case context of None \<Rightarrow> [] | Some c \<Rightarrow> [Free c])
      in case connect k of
           None \<Rightarrow> (None, pre @ [Connect])
         | Some (c, err) \<Rightarrow> if err then (None, pre @ [Connect, Free c]) else (Some c, pre @ [Connect]))"

function retry_loop :: "redis_connect \<Rightarrow> nat \<Rightarrow> ctx option \<Rightarrow> nat \<times> ctx option \<times> redis_act list" where
  "retry_loop connect retryTime context =
     (if retryTime < MAX_RETRY_TIMES then
        let (c, acts) = connectToRedis connect retryTime context
        in if c \<noteq> None then (retryTime + 1, c, acts)
           else let (n, c', acts') = retry_loop connect (retryTime + 1) c in (n, c', acts @ acts')
      else (retryTime, context, []))"
  by pat_completeness auto
termination
  by (relation "measure (\<lambda>(_, n, _). MAX_RETRY_TIMES - n)") auto

definition connectToRedisWithRetry :: "redis_connect \<Rightarrow> ctx option \<times> redis_act list" where
  "connectToRedisWithRetry connect =
     (let (n, context, acts) = retry_loop connect 0 None
      in (context, acts @ (if MAX_RETRY_TIMES \<le> n then case context of None \<Rightarrow> [] | Some c \<Rightarrow> [Free c] else [])))"

text \<open>The values the Lua call returns.\<close>

datatype lua_ret = Ret_Bool bool | Ret_Ptr ctx | Ret_Str "byte list"

definition connectWithRetry :: "redis_connect \<Rightarrow> lua_ret list \<times> redis_act list" where
  "connectWithRetry connect =
     (case connectToRedisWithRetry connect of
        (None, acts) \<Rightarrow> ([Ret_Bool False], acts)
      | (Some c, acts) \<Rightarrow> ([Ret_Bool True, Ret_Ptr c], acts))"

definition disconnect :: "ctx \<Rightarrow> lua_ret list \<times> redis_act list" where
  "disconnect context = ([], [Free context])"

section \<open>Commands\<close>

text \<open>A reply: its string, which is null in a reply without one.\<close>

type_synonym reply = "byte list option"
type_synonym 's redis_command = "'s \<Rightarrow> ctx \<Rightarrow> byte list list \<Rightarrow> reply option \<times> 's"

definition isConnectedToRedis :: "'s redis_command \<Rightarrow> 's \<Rightarrow> ctx option \<Rightarrow> (bool \<times> 's) option" where
  "isConnectedToRedis command s context =
     (case context of
        None \<Rightarrow> Some (False, s)
      | Some c \<Rightarrow>
          (case command s c [str ''PING''] of
             (Some (Some r), s') \<Rightarrow> Some (c_str r = str ''PONG'', s')
           | _ \<Rightarrow> None))"

definition isConnected :: "'s redis_command \<Rightarrow> 's \<Rightarrow> ctx option \<Rightarrow> (lua_ret list \<times> 's) option" where
  "isConnected command s context = do {
     (r, s') \<leftarrow> isConnectedToRedis command s context;
     Some ([Ret_Bool r], s')
   }"

text \<open>\<open>lua_pushlstring(L, reply->str, reply->len)\<close>: a null string has length zero.\<close>

definition push_reply :: "reply option \<Rightarrow> lua_ret list option" where
  "push_reply r = (case r of None \<Rightarrow> None | Some None \<Rightarrow> Some [Ret_Str []] | Some (Some s) \<Rightarrow> Some [Ret_Str s])"

text \<open>
  \<open>%s\<close> reads the key up to its first zero byte, \<open>%b\<close> exactly \<open>sz\<close> bytes of the value, of which the byte after the
  end of a Lua string is the terminating zero.
\<close>

definition setByteString ::
    "'s redis_command \<Rightarrow> 's \<Rightarrow> ctx option \<Rightarrow> byte list \<Rightarrow> byte list \<Rightarrow> int \<Rightarrow> (lua_ret list \<times> 's) option" where
  "setByteString command s context key val sz =
     (case context of
        None \<Rightarrow> Some ([], s)
      | Some c \<Rightarrow>
          if to_int sz < 0 \<or> length val + 1 < nat (to_int sz) then None
          else do {
            let (r, s') = command s c [str ''SET'', c_str key, take (nat (to_int sz)) (val @ [0])];
            ret \<leftarrow> push_reply r;
            Some (ret, s')
          })"

definition getByteString :: "'s redis_command \<Rightarrow> 's \<Rightarrow> ctx option \<Rightarrow> byte list \<Rightarrow> (lua_ret list \<times> 's) option" where
  "getByteString command s context key =
     (case context of
        None \<Rightarrow> Some ([], s)
      | Some c \<Rightarrow> do {
          let (r, s') = command s c [str ''GET'', c_str key];
          ret \<leftarrow> push_reply r;
          Some (ret, s')
        })"

section \<open>Lemmas\<close>

definition good :: "redis_connect \<Rightarrow> nat \<Rightarrow> bool" where
  "good connect k \<longleftrightarrow> (\<exists>c. connect k = Some (c, False))"

definition broken :: "redis_connect \<Rightarrow> nat \<Rightarrow> ctx list" where
  "broken connect k = (case connect k of Some (c, True) \<Rightarrow> [c] | _ \<Rightarrow> [])"

lemma retry_unroll:
  "retry_loop connect k None =
     (if k < 3 then
        (case connect k of
           Some (c, False) \<Rightarrow> (k + 1, Some c, [Connect])
         | _ \<Rightarrow> let (n, c', acts') = retry_loop connect (k + 1) None in (n, c', Connect # map Free (broken connect k) @ acts'))
      else (k, None, []))"
  by (subst retry_loop.simps)
    (auto simp: connectToRedis_def MAX_RETRY_TIMES_def broken_def Let_def split: option.splits prod.splits bool.splits)

declare retry_loop.simps [simp del]

lemma retry_three:
  "retry_loop connect 0 None =
     (if good connect 0 then (1, map_option fst (connect 0), [Connect])
      else if good connect 1 then (2, map_option fst (connect 1), Connect # map Free (broken connect 0) @ [Connect])
      else if good connect 2 then (3, map_option fst (connect 2),
        Connect # map Free (broken connect 0) @ Connect # map Free (broken connect 1) @ [Connect])
      else (3, None, Connect # map Free (broken connect 0) @ Connect # map Free (broken connect 1) @ Connect # map Free (broken connect 2)))"
proof -
  have 3: "retry_loop connect 3 None = (3, None, [])" by (subst retry_unroll) simp
  have *: "retry_loop connect k None = (if good connect k then (k + 1, map_option fst (connect k), [Connect])
      else let (n, c', acts') = retry_loop connect (k + 1) None in (n, c', Connect # map Free (broken connect k) @ acts'))"
    if "k < 3" for k
    using that by (subst retry_unroll) (auto simp: good_def split: option.splits prod.splits bool.splits)
  show ?thesis using *[of 0] *[of 1] *[of 2] 3 by (simp add: numeral_2_eq_2 numeral_3_eq_3)
qed

section \<open>Properties\<close>



text \<open>
  C39. When the third attempt is the first to succeed, its context is released and then handed to the caller as a live
  connection.
\<close>

theorem third_connect_is_freed:
  assumes "\<not> good connect 0" "\<not> good connect 1" "connect 2 = Some (c, False)"
  shows "\<exists>acts. connectWithRetry connect = ([Ret_Bool True, Ret_Ptr c], acts @ [Free c])"
proof -
  have "good connect 2" using assms(3) by (simp add: good_def)
  then show ?thesis
    using retry_three[of connect] assms by (simp add: connectWithRetry_def connectToRedisWithRetry_def MAX_RETRY_TIMES_def)
qed

theorem third_connect_is_freed_witness:
  "\<exists>acts. connectWithRetry (\<lambda>k. if k < 2 then None else Some (40 + k, False)) = ([Ret_Bool True, Ret_Ptr 42], acts @ [Free 42])"
  using third_connect_is_freed[of "\<lambda>k. if k < 2 then None else Some (40 + k, False)" 42] by (simp add: good_def)


text \<open>A server with one table.\<close>

definition demo_server :: "(byte list \<times> byte list) list redis_command" where
  "demo_server s c w =
     (if length w = 3 \<and> w ! 0 = str ''SET'' then (Some (Some (str ''OK'')), (w ! 1, w ! 2) # s)
      else if length w = 2 \<and> w ! 0 = str ''GET'' then (Some (map_of s (w ! 1)), s)
      else (None, s))"


end
