(* ===== verification/DB_Objects.thy ===== *)
theory DB_Objects
  imports Cstring
begin

text \<open>
  The database objects of the game server, \<open>Src/DBObject/dbobjuseraccountlib.c\<close> and
  \<open>dbobjusergameinfolib.c\<close>: records of pointers into Lua strings, with getters and setters for Lua, and
  the Redis key and value of an account.

  \<open>strs\<close> maps the address of every Lua string that has not been collected to its bytes. A field that was
  never set is \<^term>\<open>None\<close>. The argument of a setter is the address of the Lua string, or \<^term>\<open>None\<close> for a value
  of another type, which raises an error and changes nothing; a setter gives \<^term>\<open>None\<close> when it raises. A getter
  gives \<^term>\<open>None\<close> when it reads an unset field or a collected string.
\<close>

section \<open>User account\<close>

type_synonym strings = "nat \<Rightarrow> byte list option"

record userAccount =
  ua_user_id :: "nat option"
  ua_account :: "nat option"
  ua_device :: "nat option"
  ua_facebook_account :: "nat option"
  ua_google_play_account :: "nat option"
  ua_identifier :: "nat option"

definition create_user_account :: userAccount where
  "create_user_account = \<lparr>ua_user_id = None, ua_account = None, ua_device = None, ua_facebook_account = None,
     ua_google_play_account = None, ua_identifier = None\<rparr>"

definition push_field :: "strings \<Rightarrow> nat option \<Rightarrow> byte list option" where
  "push_field strs f = do { p \<leftarrow> f; s \<leftarrow> strs p; Some (c_str s) }"

definition get_user_account_user_id :: "strings \<Rightarrow> userAccount \<Rightarrow> byte list option" where
  "get_user_account_user_id strs a = push_field strs (ua_user_id a)"

definition set_user_account_user_id :: "userAccount \<Rightarrow> nat option \<Rightarrow> userAccount option" where
  "set_user_account_user_id a pUserId = do { p \<leftarrow> pUserId; Some (a\<lparr>ua_user_id := Some p\<rparr>) }"

definition get_user_account_account :: "strings \<Rightarrow> userAccount \<Rightarrow> byte list option" where
  "get_user_account_account strs a = push_field strs (ua_account a)"

definition set_user_account_account :: "userAccount \<Rightarrow> nat option \<Rightarrow> userAccount option" where
  "set_user_account_account a pAccount = do { p \<leftarrow> pAccount; Some (a\<lparr>ua_account := Some p\<rparr>) }"

definition get_user_account_device :: "strings \<Rightarrow> userAccount \<Rightarrow> byte list option" where
  "get_user_account_device strs a = push_field strs (ua_device a)"

definition set_user_account_device :: "userAccount \<Rightarrow> nat option \<Rightarrow> userAccount option" where
  "set_user_account_device a pDevice = do { p \<leftarrow> pDevice; Some (a\<lparr>ua_device := Some p\<rparr>) }"

definition get_user_account_facebook_account :: "strings \<Rightarrow> userAccount \<Rightarrow> byte list option" where
  "get_user_account_facebook_account strs a = push_field strs (ua_facebook_account a)"

definition set_user_account_facebook_account :: "userAccount \<Rightarrow> nat option \<Rightarrow> userAccount option" where
  "set_user_account_facebook_account a pFacebookAccount =
     do { p \<leftarrow> pFacebookAccount; Some (a\<lparr>ua_facebook_account := Some p\<rparr>) }"

definition get_user_account_google_play_account :: "strings \<Rightarrow> userAccount \<Rightarrow> byte list option" where
  "get_user_account_google_play_account strs a = push_field strs (ua_google_play_account a)"

definition set_user_account_google_play_account :: "userAccount \<Rightarrow> nat option \<Rightarrow> userAccount option" where
  "set_user_account_google_play_account a pGooglePlayAccount =
     do { p \<leftarrow> pGooglePlayAccount; Some (a\<lparr>ua_google_play_account := Some p\<rparr>) }"

definition get_user_account_identifier :: "strings \<Rightarrow> userAccount \<Rightarrow> byte list option" where
  "get_user_account_identifier strs a = push_field strs (ua_identifier a)"

definition set_user_account_identifier :: "userAccount \<Rightarrow> nat option \<Rightarrow> userAccount option" where
  "set_user_account_identifier a pIdentifier = do { p \<leftarrow> pIdentifier; Some (a\<lparr>ua_identifier := Some p\<rparr>) }"

section \<open>The Redis key\<close>

definition HASH_KEY_LEN :: nat where "HASH_KEY_LEN = 27"
definition KEY_CHAR_POOL_LEN :: nat where "KEY_CHAR_POOL_LEN = 62"
definition KEY_CHAR_POOL :: "byte list" where
  "KEY_CHAR_POOL = str ''abcdefghijklmnopqrstuvwxyzABCDEFGHIJKLMNOPQRSTUVWXYZ0123456789''"
definition FIX_HASH_KEY_PREFIX :: "byte list" where "FIX_HASH_KEY_PREFIX = str ''redis''"

text \<open>
  \<open>rand i\<close> is the \<open>i\<close>-th random number. Neither the prefix nor the key has a terminating zero of its own:
  \<open>next\<close> are the bytes that follow the prefix in memory, \<open>block\<close> the bytes that \<open>malloc\<close> returns and \<open>behind\<close> the
  bytes that follow them.
\<close>

definition get_user_account_redis_item_key :: "(nat \<Rightarrow> nat) \<Rightarrow> byte list \<Rightarrow> byte list \<Rightarrow> byte list \<Rightarrow> byte list option" where
  "get_user_account_redis_item_key rand nxt block behind = do {
     pre \<leftarrow> array_str (FIX_HASH_KEY_PREFIX @ nxt);
     _ \<leftarrow> assert_opt (length pre + 1 \<le> HASH_KEY_LEN);
     let k0 = pre @ [0] @ drop (length pre + 1) block;
     let k1 = fold (\<lambda>i k. k[i := KEY_CHAR_POOL ! (rand (i - 5) mod KEY_CHAR_POOL_LEN)]) [5..<27] k0;
     let k2 = k1[5 := 45, 9 := 45, 14 := 45, 20 := 45];
     array_str (k2 @ behind)
   }"

section \<open>The Redis value\<close>

text \<open>\<open>strcat\<close> into a block: both the old end and the new one must be inside.\<close>

definition strcat :: "byte list \<Rightarrow> byte list \<Rightarrow> byte list option" where
  "strcat block s = do {
     old \<leftarrow> array_str block;
     _ \<leftarrow> assert_opt (length old + length s < length block);
     Some (old @ s @ [0] @ drop (length old + length s + 1) block)
   }"

fun strcat_all :: "byte list \<Rightarrow> byte list list \<Rightarrow> byte list option" where
  "strcat_all block [] = Some block"
| "strcat_all block (s # ss) = do { b \<leftarrow> strcat block s; strcat_all b ss }"

text \<open>A field that is not a null pointer; the string it points to must be alive.\<close>

definition opt_field :: "strings \<Rightarrow> nat option \<Rightarrow> byte list list option" where
  "opt_field strs f = (case f of None \<Rightarrow> Some [] | Some p \<Rightarrow> do { s \<leftarrow> strs p; Some [c_str s] })"

text \<open>
  \<open>junk\<close> are the bytes of the fresh block. Here an unset field is a null pointer.
\<close>

definition get_user_account_redis_item_value :: "strings \<Rightarrow> (nat \<Rightarrow> byte list) \<Rightarrow> userAccount \<Rightarrow> byte list option" where
  "get_user_account_redis_item_value strs junk a = do {
     f1 \<leftarrow> opt_field strs (ua_user_id a);
     f2 \<leftarrow> opt_field strs (ua_account a);
     f3 \<leftarrow> opt_field strs (ua_device a);
     f4 \<leftarrow> opt_field strs (ua_facebook_account a);
     f5 \<leftarrow> opt_field strs (ua_google_play_account a);
     f6 \<leftarrow> opt_field strs (ua_identifier a);
     let len = 72 + length (concat f1) + length (concat f2) + length (concat f3) + length (concat f4)
       + length (concat f5) + length (concat f6);
     b \<leftarrow> strcat_all (take len (junk len)) ([str ''userid:''] @ f1 @ [str '','', str ''account:''] @ f2 @
       [str '','', str ''device:''] @ f3 @ [str '','', str ''facebookaccount:''] @ f4 @
       [str '','', str ''googleplayaccount:''] @ f5 @ [str '','', str ''identifier:''] @ f6);
     array_str b
   }"

section \<open>User game info\<close>

record userGameInfo =
  gi_user_id :: "nat option"
  gi_level :: "int option"
  gi_exp :: "int option"
  gi_game_version :: "nat option"
  gi_last_login_time :: "nat option"

definition create_user_gameinfo :: userGameInfo where
  "create_user_gameinfo = \<lparr>gi_user_id = None, gi_level = None, gi_exp = None, gi_game_version = None, gi_last_login_time = None\<rparr>"

definition get_user_gameinfo_user_id :: "strings \<Rightarrow> userGameInfo \<Rightarrow> byte list option" where
  "get_user_gameinfo_user_id strs g = push_field strs (gi_user_id g)"

definition set_user_gameinfo_user_id :: "userGameInfo \<Rightarrow> nat option \<Rightarrow> userGameInfo option" where
  "set_user_gameinfo_user_id g pUserId = do { p \<leftarrow> pUserId; Some (g\<lparr>gi_user_id := Some p\<rparr>) }"

definition get_user_gameinfo_level :: "userGameInfo \<Rightarrow> int option" where
  "get_user_gameinfo_level g = gi_level g"

text \<open>The Lua integer is cut to an \<open>int\<close> before it is checked.\<close>

definition set_user_gameinfo_level :: "userGameInfo \<Rightarrow> int option \<Rightarrow> userGameInfo option" where
  "set_user_gameinfo_level g arg = do {
     v \<leftarrow> arg;
     let pLevel = to_int v;
     _ \<leftarrow> assert_opt (0 < pLevel);
     Some (g\<lparr>gi_level := Some pLevel\<rparr>)
   }"

definition get_user_gameinfo_exp :: "userGameInfo \<Rightarrow> int option" where
  "get_user_gameinfo_exp g = gi_exp g"

definition set_user_gameinfo_exp :: "userGameInfo \<Rightarrow> int option \<Rightarrow> userGameInfo option" where
  "set_user_gameinfo_exp g arg = do {
     v \<leftarrow> arg;
     let pExp = to_int v;
     _ \<leftarrow> assert_opt (0 < pExp);
     Some (g\<lparr>gi_exp := Some pExp\<rparr>)
   }"

definition get_user_gameinfo_game_version :: "strings \<Rightarrow> userGameInfo \<Rightarrow> byte list option" where
  "get_user_gameinfo_game_version strs g = push_field strs (gi_game_version g)"

definition set_user_gameinfo_game_version :: "userGameInfo \<Rightarrow> nat option \<Rightarrow> userGameInfo option" where
  "set_user_gameinfo_game_version g pGameVersion = do { p \<leftarrow> pGameVersion; Some (g\<lparr>gi_game_version := Some p\<rparr>) }"

definition get_user_gameinfo_last_login_time :: "strings \<Rightarrow> userGameInfo \<Rightarrow> byte list option" where
  "get_user_gameinfo_last_login_time strs g = push_field strs (gi_last_login_time g)"

definition set_user_gameinfo_last_login_time :: "userGameInfo \<Rightarrow> nat option \<Rightarrow> userGameInfo option" where
  "set_user_gameinfo_last_login_time g pLastLoginTime =
     do { p \<leftarrow> pLastLoginTime; Some (g\<lparr>gi_last_login_time := Some p\<rparr>) }"

section \<open>Lemmas\<close>

lemma takeWhile_short: "x \<in> set xs \<Longrightarrow> \<not> P x \<Longrightarrow> length (takeWhile P xs) < length xs"
  by (induction xs) auto

lemma strcat_len:
  assumes "strcat block s = Some b"
  shows "length b = length block" "\<exists>o1 o2. array_str block = Some o1 \<and> array_str b = Some o2 \<and>
     length o2 < length b \<and> (0 \<notin> set s \<longrightarrow> length o2 = length o1 + length s)"
proof -
  obtain o1 where o1: "array_str block = Some o1" "length o1 + length s < length block"
    "b = o1 @ s @ [0] @ drop (length o1 + length s + 1) block"
    using assms by (auto simp: strcat_def split: bind_splits)
  show l: "length b = length block" using o1(2,3) by simp
  have z: "0 \<notin> set o1" using o1(1) by (auto simp: array_str_def dest: set_takeWhileD split: if_splits)
  have "array_str b = Some (takeWhile (\<lambda>x. x \<noteq> 0) b)" using o1(3) by (simp add: array_str_def)
  moreover have "length (takeWhile (\<lambda>x. x \<noteq> 0) b) < length b"
    using o1(3) by (intro takeWhile_short[of 0]) auto
  moreover have "0 \<notin> set s \<longrightarrow> takeWhile (\<lambda>x. x \<noteq> 0) b = o1 @ s"
    using z unfolding o1(3) by (auto simp: takeWhile_append takeWhile_eq_all_conv)
  ultimately show "\<exists>o1 o2. array_str block = Some o1 \<and> array_str b = Some o2 \<and>
     length o2 < length b \<and> (0 \<notin> set s \<longrightarrow> length o2 = length o1 + length s)" using o1(1) by auto
qed

lemma strcat_all_len:
  "strcat_all block ss = Some b \<Longrightarrow> \<forall>s \<in> set ss. 0 \<notin> set s \<Longrightarrow> array_str block = Some o1 \<Longrightarrow>
   array_str b = Some o2 \<Longrightarrow> length b = length block \<and> length o2 = length o1 + length (concat ss)"
proof (induction ss arbitrary: block o1)
  case Nil
  then show ?case by simp
next
  case (Cons s ss)
  then obtain b1 where b1: "strcat block s = Some b1" "strcat_all b1 ss = Some b" by (auto split: bind_splits)
  from strcat_len[OF b1(1)] Cons.prems(2,3) obtain o3 where
    "array_str b1 = Some o3" "length b1 = length block" "length o3 = length o1 + length s" by auto
  with Cons.IH[OF b1(2) _ _ Cons.prems(4)] Cons.prems(2) show ?case by simp
qed

lemma array_str_less: "array_str b = Some r \<Longrightarrow> length r < length b"
  by (auto simp: array_str_def intro: takeWhile_short split: if_splits)

lemma opt_field_no_zero: "opt_field strs f = Some fs \<Longrightarrow> s \<in> set fs \<Longrightarrow> 0 \<notin> set s"
  by (auto simp: opt_field_def c_str_def dest: set_takeWhileD split: option.splits bind_splits)

lemma item_value_parts:
  assumes "opt_field strs f1 = Some g1" "opt_field strs f2 = Some g2" "opt_field strs f3 = Some g3"
    "opt_field strs f4 = Some g4" "opt_field strs f5 = Some g5" "opt_field strs f6 = Some g6"
  defines "parts \<equiv> [str ''userid:''] @ g1 @ [str '','', str ''account:''] @ g2 @
       [str '','', str ''device:''] @ g3 @ [str '','', str ''facebookaccount:''] @ g4 @
       [str '','', str ''googleplayaccount:''] @ g5 @ [str '','', str ''identifier:''] @ g6"
  shows "\<forall>s \<in> set parts. 0 \<notin> set s"
    "length (concat parts) = 72 + length (concat g1) + length (concat g2) + length (concat g3) + length (concat g4)
       + length (concat g5) + length (concat g6)"
proof -
  have z: "0 \<notin> set (str ''userid:'')" "0 \<notin> set (str '','')" "0 \<notin> set (str ''account:'')" "0 \<notin> set (str ''device:'')"
    "0 \<notin> set (str ''facebookaccount:'')" "0 \<notin> set (str ''googleplayaccount:'')" "0 \<notin> set (str ''identifier:'')"
    by code_simp+
  show "\<forall>s \<in> set parts. 0 \<notin> set s"
    using z assms(1-6)[THEN opt_field_no_zero] unfolding parts_def by auto
  show "length (concat parts) = 72 + length (concat g1) + length (concat g2) + length (concat g3) + length (concat g4)
       + length (concat g5) + length (concat g6)"
    unfolding parts_def by (simp add: str_def)
qed

lemma key_loop:
  "fold (\<lambda>i k. k[i := f i]) [a..<b] xs = map (\<lambda>j. if a \<le> j \<and> j < b then f j else xs ! j) [0..<length xs]"
proof (induction b)
  case 0
  then show ?case by (simp add: map_nth)
next
  case (Suc b)
  show ?case
  proof (cases "a \<le> b")
    case True
    then show ?thesis using Suc by (auto intro!: nth_equalityI simp: nth_list_update less_Suc_eq)
  next
    case False
    then show ?thesis by (auto intro!: nth_equalityI)
  qed
qed

text \<open>The random character at a position of the key.\<close>

definition key_char :: "(nat \<Rightarrow> nat) \<Rightarrow> nat \<Rightarrow> byte" where
  "key_char rand i = KEY_CHAR_POOL ! (rand (i - 5) mod KEY_CHAR_POOL_LEN)"

lemma key_char_pool: "key_char rand i \<in> set KEY_CHAR_POOL" "key_char rand i \<noteq> 0"
proof -
  have l: "length KEY_CHAR_POOL = 62" "0 \<notin> set KEY_CHAR_POOL" by code_simp+
  show p: "key_char rand i \<in> set KEY_CHAR_POOL" by (simp add: key_char_def KEY_CHAR_POOL_LEN_def l)
  with l(2) show "key_char rand i \<noteq> 0" by metis
qed

lemma key_block:
  assumes "length block = 27"
  shows "(fold (\<lambda>i k. k[i := key_char rand i]) [5..<27] (str ''redis'' @ [0] @ drop 6 block))[5 := 45, 9 := 45, 14 := 45, 20 := 45] =
    str ''redis-'' @ map (key_char rand) [6..<9] @ [45] @ map (key_char rand) [10..<14] @ [45] @
    map (key_char rand) [15..<20] @ [45] @ map (key_char rand) [21..<27]"
proof -
  have s: "str ''redis'' = [114, 101, 100, 105, 115]" "str ''redis-'' = [114, 101, 100, 105, 115, 45]" by code_simp+
  have u: "[0..<27] = [0, 1, 2, 3, 4] @ [5..<27]" by code_simp
  show ?thesis unfolding key_loop s using assms by (simp add: u)
qed

section \<open>Properties\<close>

text \<open>
  C40. Every call that builds the Redis value of an account writes outside its block: whatever the block contained, the
  concatenated text needs one byte more than the block has. Only a field whose Lua string has been
  collected ends the call earlier, with a wild read.
\<close>

theorem item_value_overflows:
  "get_user_account_redis_item_value strs junk a = None"
proof (rule ccontr)
  assume "get_user_account_redis_item_value strs junk a \<noteq> None"
  then obtain g1 g2 g3 g4 g5 g6 b r len where f:
    "opt_field strs (ua_user_id a) = Some g1" "opt_field strs (ua_account a) = Some g2" "opt_field strs (ua_device a) = Some g3"
    "opt_field strs (ua_facebook_account a) = Some g4" "opt_field strs (ua_google_play_account a) = Some g5"
    "opt_field strs (ua_identifier a) = Some g6" and
    len: "len = 72 + length (concat g1) + length (concat g2) + length (concat g3) + length (concat g4)
       + length (concat g5) + length (concat g6)" and
    b: "strcat_all (take len (junk len)) ([str ''userid:''] @ g1 @ [str '','', str ''account:''] @ g2 @
       [str '','', str ''device:''] @ g3 @ [str '','', str ''facebookaccount:''] @ g4 @
       [str '','', str ''googleplayaccount:''] @ g5 @ [str '','', str ''identifier:''] @ g6) = Some b" and r: "array_str b = Some r"
    by (auto simp: get_user_account_redis_item_value_def Let_def split: bind_splits)
  obtain o1 where o1: "array_str (take len (junk len)) = Some o1" using b by (auto simp: strcat_def split: bind_splits)
  from strcat_all_len[OF b item_value_parts(1)[OF f] o1 r] item_value_parts(2)[OF f] len
  have "len \<le> length r" "length b \<le> len" by simp_all
  with array_str_less[OF r] show False by simp
qed



end
