(* ===== verification/Physic.thy ===== *)
theory Physic
  imports DB_Objects
begin

text \<open>
  The function \<open>testprint\<close> of \<open>Src/LuaInterface/lua_physic.c\<close>: it returns its argument behind three plus signs, built
  in an array of 50 bytes. The argument is \<^term>\<open>None\<close> where \<open>lua_tolstring\<close> gives no string; what is printed on the
  console is not modelled.
\<close>

definition testprint :: "byte list option \<Rightarrow> byte list option" where
  "testprint arg = do {
     msg \<leftarrow> arg;
     let ret = str ''+++'' @ replicate 47 0;
     ret \<leftarrow> strcat ret (c_str msg);
     array_str ret
   }"

text \<open>Nothing checks the size: a text of more than 46 bytes is written past the array.\<close>

lemma plus_signs: "str ''+++'' = [43, 43, 43]"
  by code_simp

lemma testprint_eq:
  "testprint (Some msg) = (if length (c_str msg) \<le> 46 then Some (str ''+++'' @ c_str msg) else None)"
proof -
  have z: "0 \<notin> set (c_str msg)" by (auto simp: c_str_def dest: set_takeWhileD)
  have old: "array_str ([43, 43, 43] @ replicate 47 0) = Some [43, 43, 43]" by (simp add: array_str_def)
  have new: "array_str (43 # 43 # 43 # c_str msg @ 0 # r) = Some ([43, 43, 43] @ c_str msg)" for r
    using z by (simp add: array_str_def) (metis (mono_tags, lifting) append_Nil2 takeWhile.simps(2) takeWhile_append2)
  show ?thesis
    using z new by (simp add: testprint_def plus_signs Let_def strcat_def old[simplified] assert_opt_def)
qed

end
