(* ===== verification/Bytes.thy ===== *)
theory Bytes
  imports Skynet_Prelude
begin

text \<open>
  Four bytes as a 32-bit word, in the order of a little-endian host and in network order, with the round trips
  of both. The host of the modelled code is little-endian: where the C code reads an array of bytes through a
  pointer to \<open>uint32_t\<close>, the model uses the little-endian reading.
\<close>

subsection \<open>Readings and writings\<close>

definition le_word :: "byte list \<Rightarrow> u32" where
  "le_word b = ucast (b ! 0) OR push_bit 8 (ucast (b ! 1)) OR push_bit 16 (ucast (b ! 2)) OR push_bit 24 (ucast (b ! 3))"

definition word_le :: "u32 \<Rightarrow> byte list" where
  "word_le w = [ucast w, ucast (drop_bit 8 w), ucast (drop_bit 16 w), ucast (drop_bit 24 w)]"

definition be_word :: "byte list \<Rightarrow> u32" where
  "be_word b = push_bit 24 (ucast (b ! 0)) OR push_bit 16 (ucast (b ! 1)) OR push_bit 8 (ucast (b ! 2)) OR ucast (b ! 3)"

definition word_be :: "u32 \<Rightarrow> byte list" where
  "word_be w = [ucast (drop_bit 24 w), ucast (drop_bit 16 w), ucast (drop_bit 8 w), ucast w]"

definition rol :: "u32 \<Rightarrow> nat \<Rightarrow> u32" where
  "rol v n = push_bit n v OR drop_bit (32 - n) v"

subsection \<open>Round trips\<close>

lemma length_word_le [simp]: "length (word_le w) = 4"
  by (simp add: word_le_def)

lemma length_word_be [simp]: "length (word_be w) = 4"
  by (simp add: word_be_def)

lemma length_4E:
  assumes "length b = 4"
  obtains b0 b1 b2 b3 where "b = [b0, b1, b2, b3]"
  using assms by (auto simp: numeral_eq_Suc length_Suc_conv)

lemma be_word_rev: "length b = 4 \<Longrightarrow> be_word (rev b) = le_word b"
  by (elim length_4E) (simp add: be_word_def le_word_def or.commute or.left_commute)

lemma word_be_rev: "word_be w = rev (word_le w)"
  by (simp add: word_be_def word_le_def)

lemma le_word_le [byte_simps]: "le_word (word_le w) = w"
proof -
  have "bit (le_word (word_le w)) n = bit w n" if "n < 32" for n
    using that by (cases "n < 8"; cases "n < 16"; cases "n < 24") (auto simp: le_word_def word_le_def bit_simps)
  then show ?thesis by (intro bit_word_eqI) simp
qed

lemma byte_bitD: "bit (b :: byte) n \<Longrightarrow> n < 8"
  using bit_imp_le_length[of b n] by simp

lemma byte_bit_high: "8 \<le> m \<Longrightarrow> \<not> bit (b :: byte) (m + n)"
  using byte_bitD[of b "m + n"] by auto

lemma word_le_le [byte_simps]: "length b = 4 \<Longrightarrow> word_le (le_word b) = b"
  by (elim length_4E) (auto simp: le_word_def word_le_def bit_simps byte_bit_high intro!: bit_word_eqI)

lemma be_word_be [byte_simps]: "be_word (word_be w) = w"
  by (simp add: word_be_rev be_word_rev le_word_le)

lemma word_be_be [byte_simps]: "length b = 4 \<Longrightarrow> word_be (be_word b) = b"
  using be_word_rev[of "rev b"] by (simp add: word_be_rev word_le_le)

lemma byte_of_bit:
  assumes "n < (32 :: nat)"
  obtains r where "r < 8" "n = r" | r where "r < 8" "n = 8 + r" | r where "r < 8" "n = 16 + r" | r where "r < 8" "n = 24 + r"
proof -
  define q r where "q = n div 8" and "r = n mod 8"
  have "n = 8 * q + r" "r < 8" "q < 4" using assms by (simp_all add: q_def r_def)
  moreover from \<open>q < 4\<close> have "q = 0 \<or> q = 1 \<or> q = 2 \<or> q = 3" by linarith
  ultimately show ?thesis using that by auto
qed

text \<open>Reversing the bytes of a word with two rotations and two masks.\<close>

lemma byte_swap:
  assumes "length b = 4"
  shows "(rol (le_word b) 24 AND 0xFF00FF00) OR (rol (le_word b) 8 AND 0x00FF00FF) = be_word b"
proof -
  obtain b0 b1 b2 b3 where b: "b = [b0, b1, b2, b3]" using assms by (rule length_4E)
  have m: "(0xFF00FF00 :: u32) = push_bit 8 (mask 8) OR push_bit 24 (mask 8)"
    "(0x00FF00FF :: u32) = mask 8 OR push_bit 16 (mask 8)" by (simp_all add: mask_numeral)
  note simps = rol_def le_word_def be_word_def bit_simps byte_bit_high
  have "bit ((rol (le_word b) 24 AND 0xFF00FF00) OR (rol (le_word b) 8 AND 0x00FF00FF)) n = bit (be_word b) n"
    if "n < 32" for n
    using that
  proof (cases rule: byte_of_bit)
    case (1 r) then show ?thesis unfolding m b by (simp add: simps)
  next
    case (2 r) then show ?thesis unfolding m b by (simp add: simps)
  next
    case (3 r) then show ?thesis unfolding m b by (simp add: simps)
  next
    case (4 r) then show ?thesis unfolding m b by (simp add: simps)
  qed
  then show ?thesis by (intro bit_word_eqI) simp
qed

lemma bit_rol:
  assumes "0 < k" "k < 32"
  shows "bit (rol w k) n \<longleftrightarrow> n < 32 \<and> bit w ((n + (32 - k)) mod 32)"
proof (cases "n < k")
  case True
  then have "(n + (32 - k)) mod 32 = 32 - k + n" using assms by simp
  then show ?thesis using True assms by (auto simp: rol_def bit_simps)
next
  case False
  then have e: "n + (32 - k) = (n - k) + 32" using assms by linarith
  have "n < 32 \<Longrightarrow> (n + (32 - k)) mod 32 = n - k" unfolding e by simp
  moreover have "\<not> bit w (32 - k + n)" using False assms bit_imp_le_length[of w "32 - k + n"] by auto
  ultimately show ?thesis using False by (auto simp: rol_def bit_simps)
qed

subsection \<open>Eight bytes\<close>

lemma length_8E:
  assumes "length b = 8"
  obtains b0 b1 b2 b3 b4 b5 b6 b7 where "b = [b0, b1, b2, b3, b4, b5, b6, b7]"
  using assms by (auto simp: numeral_eq_Suc length_Suc_conv)

end
