(* ===== verification/Sha1.thy ===== *)
theory Sha1
  imports Bytes
begin

text \<open>
  The hash and the keyed hash that \<open>lualib-src/lsha1.c\<close> gives to the Lua services, and the standards they are
  to compute: SHA-1 of FIPS 180-4 and HMAC of FIPS 198-1.

  The C code keeps the five working variables in place and renames them from one of its eighty unrolled rounds
  to the next, expands the message schedule inside a window of sixteen words, reads the block through the host's
  byte order, and takes the message in pieces through a 64-byte buffer and a 64-bit count held in two words. The
  reference definitions do none of this.

  A context is a local variable of its caller, so its initial contents are not known: they are an argument.
\<close>

subsection \<open>The transform\<close>

record SHA1_CTX =
  sc_state :: "u32 list"
  sc_count0 :: u32
  sc_count1 :: u32
  sc_buffer :: "byte list"

text \<open>\<open>blk0\<close> and \<open>blk\<close> give the word of the schedule for round \<open>i\<close> and store it in the window.\<close>

definition blk0 :: "nat \<Rightarrow> u32 list \<Rightarrow> u32 \<times> u32 list" where
  "blk0 i l = (let v = (rol (l ! i) 24 AND 0xFF00FF00) OR (rol (l ! i) 8 AND 0x00FF00FF) in (v, l[i := v]))"

definition blk :: "nat \<Rightarrow> u32 list \<Rightarrow> u32 \<times> u32 list" where
  "blk i l = (let v = rol (l ! ((i + 13) mod 16) XOR l ! ((i + 8) mod 16) XOR l ! ((i + 2) mod 16) XOR l ! (i mod 16)) 1
              in (v, l[i mod 16 := v]))"

text \<open>
  The round macros. The working variables \<open>a\<close> to \<open>e\<close> are the entries 0 to 4 of a list, and \<open>v w x y z\<close> are the
  variables a call names.
\<close>

definition R0 :: "nat \<Rightarrow> nat \<Rightarrow> nat \<Rightarrow> nat \<Rightarrow> nat \<Rightarrow> nat \<Rightarrow> u32 list \<times> u32 list \<Rightarrow> u32 list \<times> u32 list" where
  "R0 v w x y z i = (\<lambda>(s, l).
     let (m, l') = blk0 i l;
         s1 = s[z := s ! z + (((s ! w AND (s ! x XOR s ! y)) XOR s ! y) + m + 0x5A827999 + rol (s ! v) 5)]
     in (s1[w := rol (s1 ! w) 30], l'))"

definition R1 :: "nat \<Rightarrow> nat \<Rightarrow> nat \<Rightarrow> nat \<Rightarrow> nat \<Rightarrow> nat \<Rightarrow> u32 list \<times> u32 list \<Rightarrow> u32 list \<times> u32 list" where
  "R1 v w x y z i = (\<lambda>(s, l).
     let (m, l') = blk i l;
         s1 = s[z := s ! z + (((s ! w AND (s ! x XOR s ! y)) XOR s ! y) + m + 0x5A827999 + rol (s ! v) 5)]
     in (s1[w := rol (s1 ! w) 30], l'))"

definition R2 :: "nat \<Rightarrow> nat \<Rightarrow> nat \<Rightarrow> nat \<Rightarrow> nat \<Rightarrow> nat \<Rightarrow> u32 list \<times> u32 list \<Rightarrow> u32 list \<times> u32 list" where
  "R2 v w x y z i = (\<lambda>(s, l).
     let (m, l') = blk i l;
         s1 = s[z := s ! z + ((s ! w XOR s ! x XOR s ! y) + m + 0x6ED9EBA1 + rol (s ! v) 5)]
     in (s1[w := rol (s1 ! w) 30], l'))"

definition R3 :: "nat \<Rightarrow> nat \<Rightarrow> nat \<Rightarrow> nat \<Rightarrow> nat \<Rightarrow> nat \<Rightarrow> u32 list \<times> u32 list \<Rightarrow> u32 list \<times> u32 list" where
  "R3 v w x y z i = (\<lambda>(s, l).
     let (m, l') = blk i l;
         s1 = s[z := s ! z + ((((s ! w OR s ! x) AND s ! y) OR (s ! w AND s ! x)) + m + 0x8F1BBCDC + rol (s ! v) 5)]
     in (s1[w := rol (s1 ! w) 30], l'))"

definition R4 :: "nat \<Rightarrow> nat \<Rightarrow> nat \<Rightarrow> nat \<Rightarrow> nat \<Rightarrow> nat \<Rightarrow> u32 list \<times> u32 list \<Rightarrow> u32 list \<times> u32 list" where
  "R4 v w x y z i = (\<lambda>(s, l).
     let (m, l') = blk i l;
         s1 = s[z := s ! z + ((s ! w XOR s ! x XOR s ! y) + m + 0xCA62C1D6 + rol (s ! v) 5)]
     in (s1[w := rol (s1 ! w) 30], l'))"

text \<open>
  The eighty calls. The variables of call 0 are \<open>a, b, c, d, e\<close>, those of call 1 are \<open>e, a, b, c, d\<close>, and so on:
  variable \<open>k\<close> of call \<open>i\<close> is \<open>var i k\<close>.
\<close>

definition var :: "nat \<Rightarrow> nat \<Rightarrow> nat" where
  "var i k = (k + 4 * i) mod 5"

definition SHA1_call :: "nat \<Rightarrow> u32 list \<times> u32 list \<Rightarrow> u32 list \<times> u32 list" where
  "SHA1_call i = (if i < 16 then R0 else if i < 20 then R1 else if i < 40 then R2 else if i < 60 then R3 else R4)
                 (var i 0) (var i 1) (var i 2) (var i 3) (var i 4) i"

definition SHA1_Transform :: "u32 list \<Rightarrow> byte list \<Rightarrow> u32 list" where
  "SHA1_Transform state buffer =
     (let l = map (\<lambda>i. le_word (take 4 (drop (4 * i) buffer))) [0..<16];
          (s, _) = fold SHA1_call [0..<80] (state, l)
      in map2 (+) state s)"

subsection \<open>The context\<close>

definition sat_SHA1_Init :: "SHA1_CTX \<Rightarrow> SHA1_CTX" where
  "sat_SHA1_Init c = c\<lparr>sc_state := [0x67452301, 0xEFCDAB89, 0x98BADCFE, 0x10325476, 0xC3D2E1F0],
                       sc_count0 := 0, sc_count1 := 0\<rparr>"

definition memcpy :: "byte list \<Rightarrow> nat \<Rightarrow> byte list \<Rightarrow> byte list" where
  "memcpy buf j d = take j buf @ d @ drop (j + length d) buf"

text \<open>The loop over the whole blocks of the data, from index \<open>i\<close>.\<close>

function update_blocks :: "u32 list \<Rightarrow> byte list \<Rightarrow> nat \<Rightarrow> u32 list \<times> nat" where
  "update_blocks state d i =
     (if i + 63 < length d then update_blocks (SHA1_Transform state (take 64 (drop i d))) d (i + 64) else (state, i))"
  by auto
termination by (relation "measure (\<lambda>(state, d, i). length d - i)") auto

definition sat_SHA1_Update :: "SHA1_CTX \<Rightarrow> byte list \<Rightarrow> SHA1_CTX" where
  "sat_SHA1_Update c d =
     (let len = of_nat (length d) :: u64;
          j = unat (drop_bit 3 (sc_count0 c) AND 63);
          c0 = sc_count0 c + ucast (push_bit 3 len);
          c1 = (if ucast c0 < push_bit 3 len then sc_count1 c + 1 else sc_count1 c) + ucast (drop_bit 29 len)
      in if j + length d > 63 then
           let b = memcpy (sc_buffer c) j (take (64 - j) d);
               (st, i) = update_blocks (SHA1_Transform (sc_state c) b) d (64 - j)
           in c\<lparr>sc_state := st, sc_count0 := c0, sc_count1 := c1, sc_buffer := memcpy b 0 (drop i d)\<rparr>
         else c\<lparr>sc_count0 := c0, sc_count1 := c1, sc_buffer := memcpy (sc_buffer c) j d\<rparr>)"

text \<open>The loop of zero bytes; not ending is \<^term>\<open>None\<close>.\<close>

partial_function (option) final_pad :: "SHA1_CTX \<Rightarrow> SHA1_CTX option" where
  "final_pad c = (if sc_count0 c AND 504 \<noteq> 448 then final_pad (sat_SHA1_Update c [0]) else Some c)"

declare final_pad.simps [code]

definition finalcount :: "SHA1_CTX \<Rightarrow> byte list" where
  "finalcount c = map (\<lambda>i. ucast (drop_bit ((3 - i mod 4) * 8) (if i \<ge> 4 then sc_count0 c else sc_count1 c) AND 255)) [0..<8]"

definition digest_of :: "SHA1_CTX \<Rightarrow> byte list" where
  "digest_of c = map (\<lambda>i. ucast (drop_bit ((3 - i mod 4) * 8) (sc_state c ! (i div 4)) AND 255)) [0..<20]"

definition sat_SHA1_Final :: "SHA1_CTX \<Rightarrow> (SHA1_CTX \<times> byte list) option" where
  "sat_SHA1_Final c =
     do {
       let fc = finalcount c;
       let c = sat_SHA1_Update c [0x80];
       c \<leftarrow> final_pad c;
       let c = sat_SHA1_Update c fc;
       Some (c\<lparr>sc_buffer := replicate 64 0, sc_state := replicate 5 0, sc_count0 := 0, sc_count1 := 0\<rparr>, digest_of c)
     }"

definition lsha1 :: "SHA1_CTX \<Rightarrow> byte list \<Rightarrow> byte list option" where
  "lsha1 ctx buffer =
     do {
       let ctx = sat_SHA1_Init ctx;
       let ctx = sat_SHA1_Update ctx buffer;
       (ctx, digest) \<leftarrow> sat_SHA1_Final ctx;
       Some digest
     }"

text \<open>The key is changed four bytes at a time.\<close>

definition xor_key :: "byte list \<Rightarrow> u32 \<Rightarrow> byte list" where
  "xor_key key x = concat (map (\<lambda>i. word_le (le_word (take 4 (drop (4 * i) key)) XOR x)) [0..<16])"

definition lhmac_sha1 :: "SHA1_CTX \<Rightarrow> SHA1_CTX \<Rightarrow> SHA1_CTX \<Rightarrow> byte list \<Rightarrow> byte list \<Rightarrow> byte list option" where
  "lhmac_sha1 ctx ctx1 ctx2 key txt =
     do {
       let rkey = replicate 64 0;
       rkey \<leftarrow> (if length key > 64 then
                 do {
                   let ctx = sat_SHA1_Init ctx;
                   let ctx = sat_SHA1_Update ctx key;
                   (ctx, digest) \<leftarrow> sat_SHA1_Final ctx;
                   Some (memcpy rkey 0 digest)
                 }
               else Some (memcpy rkey 0 key));
       let rkey = xor_key rkey 0x5c5c5c5c;
       let ctx1 = sat_SHA1_Update (sat_SHA1_Init ctx1) rkey;
       let rkey = xor_key rkey (0x5c5c5c5c XOR 0x36363636);
       let ctx2 = sat_SHA1_Update (sat_SHA1_Init ctx2) rkey;
       let ctx2 = sat_SHA1_Update ctx2 txt;
       (ctx2, digest2) \<leftarrow> sat_SHA1_Final ctx2;
       let ctx1 = sat_SHA1_Update ctx1 digest2;
       (ctx1, digest1) \<leftarrow> sat_SHA1_Final ctx1;
       Some digest1
     }"

subsection \<open>The standards\<close>

text \<open>FIPS 180-4: functions, constants and schedule of section 4 and 6.1.2.\<close>

definition sha_f :: "nat \<Rightarrow> u32 \<Rightarrow> u32 \<Rightarrow> u32 \<Rightarrow> u32" where
  "sha_f t x y z =
     (if t < 20 then (x AND y) XOR (NOT x AND z)
      else if 40 \<le> t \<and> t < 60 then (x AND y) XOR (x AND z) XOR (y AND z)
      else x XOR y XOR z)"

definition sha_K :: "nat \<Rightarrow> u32" where
  "sha_K t = (if t < 20 then 0x5a827999 else if t < 40 then 0x6ed9eba1 else if t < 60 then 0x8f1bbcdc else 0xca62c1d6)"

fun sha_W :: "byte list \<Rightarrow> nat \<Rightarrow> u32" where
  "sha_W M t = (if t < 16 then be_word (take 4 (drop (4 * t) M))
                else rol (sha_W M (t - 3) XOR sha_W M (t - 8) XOR sha_W M (t - 14) XOR sha_W M (t - 16)) 1)"

type_synonym sha_hash = "u32 \<times> u32 \<times> u32 \<times> u32 \<times> u32"

definition sha_step :: "byte list \<Rightarrow> nat \<Rightarrow> sha_hash \<Rightarrow> sha_hash" where
  "sha_step M t = (\<lambda>(a, b, c, d, e). (rol a 5 + sha_f t b c d + e + sha_K t + sha_W M t, a, rol b 30, c, d))"

definition sha_compress :: "sha_hash \<Rightarrow> byte list \<Rightarrow> sha_hash" where
  "sha_compress = (\<lambda>(h0, h1, h2, h3, h4) M.
     let (a, b, c, d, e) = fold (sha_step M) [0..<80] (h0, h1, h2, h3, h4)
     in (h0 + a, h1 + b, h2 + c, h3 + d, h4 + e))"

definition sha_init :: sha_hash where
  "sha_init = (0x67452301, 0xefcdab89, 0x98badcfe, 0x10325476, 0xc3d2e1f0)"

text \<open>The whole blocks of a message, and what is left after them.\<close>

fun sha_blocks :: "sha_hash \<Rightarrow> byte list \<Rightarrow> sha_hash" where
  "sha_blocks h M = (if 64 \<le> length M then sha_blocks (sha_compress h (take 64 M)) (drop 64 M) else h)"

fun sha_rest :: "byte list \<Rightarrow> byte list" where
  "sha_rest M = (if 64 \<le> length M then sha_rest (drop 64 M) else M)"

text \<open>Padding: a one bit, the fewest zero bits, and the length in bits as a 64-bit number.\<close>

definition sha_pad :: "byte list \<Rightarrow> byte list" where
  "sha_pad M =
     (let n = 8 * length M
      in M @ [0x80] @ replicate ((119 - length M mod 64) mod 64) 0 @ word_be (of_nat (n div 2 ^ 32)) @ word_be (of_nat n))"

definition hash_bytes :: "sha_hash \<Rightarrow> byte list" where
  "hash_bytes = (\<lambda>(a, b, c, d, e). word_be a @ word_be b @ word_be c @ word_be d @ word_be e)"

definition SHA1 :: "byte list \<Rightarrow> byte list" where
  "SHA1 M = hash_bytes (sha_blocks sha_init (sha_pad M))"

text \<open>FIPS 198-1.\<close>

definition HMAC_SHA1 :: "byte list \<Rightarrow> byte list \<Rightarrow> byte list" where
  "HMAC_SHA1 K txt =
     (let K0 = (if 64 < length K then SHA1 K else K);
          K0 = K0 @ replicate (64 - length K0) 0
      in SHA1 (map (\<lambda>b. b XOR 0x5c) K0 @ SHA1 (map (\<lambda>b. b XOR 0x36) K0 @ txt)))"

declare update_blocks.simps [simp del] sha_W.simps [simp del] sha_blocks.simps [simp del] sha_rest.simps [simp del]

subsection \<open>The transform computes the standard's compression\<close>

definition hash_list :: "sha_hash \<Rightarrow> u32 list" where
  "hash_list = (\<lambda>(a, b, c, d, e). [a, b, c, d, e])"

definition view :: "nat \<Rightarrow> u32 list \<Rightarrow> sha_hash" where
  "view i s = (s ! var i 0, s ! var i 1, s ! var i 2, s ! var i 3, s ! var i 4)"

lemma length_5E:
  assumes "length s = 5"
  obtains a b c d e where "s = [a, b, c, d, e]"
  using assms by (auto simp: numeral_eq_Suc length_Suc_conv)

lemma mod5_cases:
  obtains "i mod 5 = (0 :: nat)" | "i mod 5 = 1" | "i mod 5 = 2" | "i mod 5 = 3" | "i mod 5 = 4"
  using mod_less_divisor[of 5 i] by linarith

lemma var_mod: "var i k = (k + 4 * (i mod 5)) mod 5"
  unfolding var_def by (metis mod_add_right_eq mod_mult_right_eq)

lemma var_Suc_mod: "var (Suc i) k = (k + 4 + 4 * (i mod 5)) mod 5"
  using var_mod[of i "k + 4"] by (simp add: var_def add.assoc)

text \<open>Renaming the variables is the shift of the standard.\<close>

lemma view_round:
  assumes "length s = 5"
  shows "view (Suc i) (s[var i 4 := t, var i 1 := u]) = (t, s ! var i 0, u, s ! var i 2, s ! var i 3)"
proof -
  obtain a b c d e where s: "s = [a, b, c, d, e]" using assms by (rule length_5E)
  show ?thesis
    by (cases i rule: mod5_cases) (simp_all add: s view_def var_mod[of i] var_Suc_mod)
qed

lemma var_ne: "var i 1 \<noteq> var i 4"
  by (cases i rule: mod5_cases) (simp_all add: var_mod)

lemma sha_f_ch: "((w AND (x XOR y)) XOR y) = (w AND x) XOR (NOT w AND (y :: u32))"
  by (rule bit_word_eqI) (auto simp: bit_simps)

lemma sha_f_maj: "((w OR x) AND y) OR (w AND x) = (w AND x) XOR (w AND y) XOR (x AND (y :: u32))"
  by (rule bit_word_eqI) (auto simp: bit_simps)

text \<open>
  The window before round \<open>i\<close>: the last sixteen words of the schedule, or the words of the block that no round
  has used yet.
\<close>

definition window :: "byte list \<Rightarrow> nat \<Rightarrow> u32 list \<Rightarrow> bool" where
  "window M i l \<longleftrightarrow> length l = 16 \<and> (\<forall>t < i. i \<le> t + 16 \<longrightarrow> l ! (t mod 16) = sha_W M t) \<and>
     (\<forall>t < 16. i \<le> t \<longrightarrow> l ! t = le_word (take 4 (drop (4 * t) M)))"

definition sched :: "nat \<Rightarrow> u32 list \<Rightarrow> u32 \<times> u32 list" where
  "sched i = (if i < 16 then blk0 i else blk i)"

lemma mod16_ne: "t < i \<Longrightarrow> Suc i \<le> t + 16 \<Longrightarrow> t mod 16 \<noteq> i mod (16 :: nat)"
  using mod_eq_dvd_iff_nat[of t i 16] dvd_imp_le[of 16 "i - t"] by auto

lemma window_put:
  assumes "window M i l"
  shows "window M (Suc i) (l[i mod 16 := sha_W M i])"
  unfolding window_def
proof (intro conjI allI impI)
  show "length (l[i mod 16 := sha_W M i]) = 16" using assms by (simp add: window_def)
  show "l[i mod 16 := sha_W M i] ! (t mod 16) = sha_W M t" if "t < Suc i" "Suc i \<le> t + 16" for t
    using assms that mod16_ne[of t i] by (cases "t = i") (auto simp: window_def)
  show "l[i mod 16 := sha_W M i] ! t = le_word (take 4 (drop (4 * t) M))" if "t < 16" "Suc i \<le> t" for t
    using assms that by (auto simp: window_def)
qed

lemma window_sched:
  assumes "window M i l" "length M = 64"
  shows "sched i l = (sha_W M i, l[i mod 16 := sha_W M i])"
proof (cases "i < 16")
  case True
  then have "l ! i = le_word (take 4 (drop (4 * i) M))" "length (take 4 (drop (4 * i) M)) = 4"
    using assms by (auto simp: window_def)
  then show ?thesis using True by (simp add: sched_def blk0_def byte_swap sha_W.simps[of M i] Let_def)
next
  case False
  have w: "l ! ((i + j) mod 16) = sha_W M (i - k)" if "0 < k" "j + k = 16" for j k
  proof -
    have "i + j = (i - k) + 16" using that False by linarith
    then have "(i + j) mod 16 = (i - k) mod 16" by simp
    then show ?thesis using assms(1) that False by (auto simp: window_def)
  qed
  have "l ! ((i + 13) mod 16) = sha_W M (i - 3)" "l ! ((i + 8) mod 16) = sha_W M (i - 8)"
    "l ! ((i + 2) mod 16) = sha_W M (i - 14)" "l ! (i mod 16) = sha_W M (i - 16)"
    using w[of 3 13] w[of 8 8] w[of 14 2] w[of 16 0] by simp_all
  then show ?thesis using False by (simp add: sched_def blk_def sha_W.simps[of M i] Let_def)
qed

lemma SHA1_call_sched:
  assumes "length s = 5" "sched i l = (m, l')"
  shows "SHA1_call i (s, l) =
    (s[var i 4 := rol (s ! var i 0) 5 + sha_f i (s ! var i 1) (s ! var i 2) (s ! var i 3) + s ! var i 4 + sha_K i + m,
       var i 1 := rol (s ! var i 1) 30], l')"
  using assms(2) var_ne[of i]
  by (auto simp: SHA1_call_def R0_def R1_def R2_def R3_def R4_def sched_def sha_f_def sha_K_def sha_f_ch sha_f_maj add_ac)

lemma SHA1_calls:
  assumes "length M = 64" "length s = 5" "window M 0 l"
  shows "\<exists>s' l'. fold SHA1_call [0..<n] (s, l) = (s', l') \<and> length s' = 5 \<and> window M n l' \<and>
    view n s' = fold (sha_step M) [0..<n] (view 0 s)"
proof (induction n)
  case 0
  then show ?case using assms by simp
next
  case (Suc n)
  then obtain s' l' where *: "fold SHA1_call [0..<n] (s, l) = (s', l')" "length s' = 5" "window M n l'"
    "view n s' = fold (sha_step M) [0..<n] (view 0 s)" by auto
  let ?s = "s'[var n 4 := rol (s' ! var n 0) 5 + sha_f n (s' ! var n 1) (s' ! var n 2) (s' ! var n 3) + s' ! var n 4 + sha_K n + sha_W M n,
    var n 1 := rol (s' ! var n 1) 30]"
  have "SHA1_call n (s', l') = (?s, l'[n mod 16 := sha_W M n])"
    using SHA1_call_sched[OF *(2) window_sched[OF *(3) assms(1)]] .
  moreover have "view (Suc n) ?s = sha_step M n (view n s')"
    unfolding view_round[OF *(2)] by (simp add: view_def sha_step_def)
  ultimately show ?case using window_put[OF *(3)] * by simp
qed

lemma SHA1_Transform_compress:
  assumes "length M = 64"
  shows "SHA1_Transform (hash_list h) M = hash_list (sha_compress h M)"
proof -
  obtain h0 h1 h2 h3 h4 where h: "h = (h0, h1, h2, h3, h4)" by (cases h)
  let ?l = "map (\<lambda>i. le_word (take 4 (drop (4 * i) M))) [0..<16]"
  have "window M 0 ?l" by (simp add: window_def)
  then obtain s' l' where s: "fold SHA1_call [0..<80] (hash_list h, ?l) = (s', l')" "length s' = 5"
    "view 80 s' = fold (sha_step M) [0..<80] (view 0 (hash_list h))"
    using SHA1_calls[OF assms, of "hash_list h" ?l 80] by (auto simp: hash_list_def h)
  from s(2) obtain a b c d e where s': "s' = [a, b, c, d, e]" by (rule length_5E)
  have "view 0 (hash_list h) = h" by (simp add: view_def var_def hash_list_def h)
  moreover have "view 80 s' = (a, b, c, d, e)" by (simp add: view_def var_def s')
  ultimately have "fold (sha_step M) [0..<80] (h0, h1, h2, h3, h4) = (a, b, c, d, e)" using s(3) h by metis
  then show ?thesis using s(1) s' h by (simp add: SHA1_Transform_def sha_compress_def hash_list_def)
qed

subsection \<open>The buffer and the count\<close>

lemma sha_blocks_short: "length M < 64 \<Longrightarrow> sha_blocks h M = h"
  by (simp add: sha_blocks.simps)

lemma length_sha_rest: "length (sha_rest M) = length M mod 64"
proof (induction M rule: sha_rest.induct)
  case (1 M)
  then show ?case by (auto simp: sha_rest.simps[of M] le_mod_geq)
qed

lemma sha_blocks_append: "sha_blocks h (M @ d) = sha_blocks (sha_blocks h M) (sha_rest M @ d)"
proof (induction h M rule: sha_blocks.induct)
  case (1 h M)
  then show ?case
    by (cases "64 \<le> length M") (simp_all add: sha_blocks.simps[of h M] sha_blocks.simps[of h "M @ d"] sha_rest.simps[of M])
qed

lemma sha_rest_append: "sha_rest (M @ d) = sha_rest (sha_rest M @ d)"
proof (induction M rule: sha_rest.induct)
  case (1 M)
  then show ?case
    by (cases "64 \<le> length M") (simp_all add: sha_rest.simps[of M] sha_rest.simps[of "M @ d"])
qed

lemma update_blocks_eq:
  "update_blocks (hash_list h) d i = (st, k) \<Longrightarrow> i \<le> length d \<Longrightarrow>
   st = hash_list (sha_blocks h (drop i d)) \<and> drop k d = sha_rest (drop i d)"
proof (induction "length d - i" arbitrary: h i rule: less_induct)
  case less
  note unf = update_blocks.simps[of "hash_list h" d i] sha_blocks.simps[of h "drop i d"] sha_rest.simps[of "drop i d"]
  show ?case
  proof (cases "i + 63 < length d")
    case True
    then have "SHA1_Transform (hash_list h) (take 64 (drop i d)) = hash_list (sha_compress h (take 64 (drop i d)))"
      by (intro SHA1_Transform_compress) simp
    moreover have "64 \<le> length d - i" using True by linarith
    ultimately show ?thesis
      using less.hyps[of "i + 64" "sha_compress h (take 64 (drop i d))"] less.prems True by (simp add: unf add.commute)
  next
    case False
    then have "\<not> 64 \<le> length (drop i d)" by auto
    then have "sha_blocks h (drop i d) = h" "sha_rest (drop i d) = drop i d" by (simp_all only: unf if_False)
    then show ?thesis using less.prems(1) False unf(1) by auto
  qed
qed

text \<open>A context that has taken the message \<open>M\<close>.\<close>

definition taken :: "byte list \<Rightarrow> SHA1_CTX \<Rightarrow> bool" where
  "taken M c \<longleftrightarrow> sc_state c = hash_list (sha_blocks sha_init M) \<and> length (sc_buffer c) = 64 \<and>
     take (length M mod 64) (sc_buffer c) = sha_rest M \<and>
     sc_count0 c = of_nat (8 * length M) \<and> sc_count1 c = of_nat (8 * length M div 2 ^ 32)"

lemma taken_init: "length (sc_buffer c) = 64 \<Longrightarrow> taken [] (sat_SHA1_Init c)"
  by (simp add: taken_def sat_SHA1_Init_def sha_blocks_short hash_list_def sha_init_def sha_rest.simps)

lemma count_index: "unat (drop_bit 3 (of_nat (8 * n) :: u32) AND 63) = n mod 64"
proof -
  have m: "w AND 63 = take_bit 6 w" for w :: u32 by (simp add: take_bit_eq_mask mask_numeral)
  have "unat (drop_bit 3 (of_nat (8 * n) :: u32) AND 63) = (8 * n mod 2 ^ 32 div 8) mod 64"
    unfolding m unat_take_bit_mod unat_drop_bit_div unat_of_nat by simp
  also have "8 * n mod 2 ^ 32 div 8 = n mod 2 ^ 29" using mult_mod_right[of 8 n "2 ^ 29"] by simp
  also have "n mod 2 ^ 29 mod 64 = n mod 64" using mod_mod_pow2[of 6 29 n] by simp
  finally show ?thesis .
qed

lemma carry_div:
  assumes "k < (m :: nat)"
  shows "(n + k) div m = (if (n + k) mod m < k then n div m + 1 else n div m)"
proof -
  let ?r = "n mod m + k"
  have n: "n + k = ?r + m * (n div m)" by simp
  have d: "(n + k) div m = n div m + ?r div m" by (subst n) (use assms in \<open>simp only: div_mult_self2\<close>)
  have md: "(n + k) mod m = ?r mod m" by (simp add: mod_simps)
  have r: "n mod m < m" using assms by simp
  show ?thesis
  proof (cases "?r < m")
    case True
    then show ?thesis unfolding d md by simp
  next
    case False
    then have "?r - m < m" "?r - m < k" using r assms by linarith+
    then have "?r div m = 1" "?r mod m = ?r - m" using False by (simp_all add: le_div_geq le_mod_geq)
    then show ?thesis unfolding d md using \<open>?r - m < k\<close> by simp
  qed
qed

lemma unat_ucast_32_64: "unat (ucast (w :: u32) :: u64) = unat w"
  using unsigned_less[of w, where ?'a = nat] by (simp add: unsigned_ucast_eq take_bit_nat_eq_self)

lemma count_carry:
  assumes "k < 2 ^ 29"
  shows "of_nat (8 * n) + ucast (push_bit 3 (of_nat k :: u64)) = (of_nat (8 * (n + k)) :: u32)"
    and "(if ucast (of_nat (8 * (n + k)) :: u32) < push_bit 3 (of_nat k :: u64)
          then of_nat (8 * n div 2 ^ 32) + 1 else of_nat (8 * n div 2 ^ 32)) + ucast (drop_bit 29 (of_nat k :: u64))
         = (of_nat (8 * (n + k) div 2 ^ 32) :: u32)"
proof -
  have u: "unat (of_nat k :: u64) = k" using assms by (simp add: unat_of_nat)
  have s: "push_bit 3 (of_nat k :: u64) = of_nat (8 * k)" by (simp add: push_bit_eq_mult)
  have s': "unat (of_nat (8 * k) :: u64) = 8 * k" using assms by (subst unat_of_nat) simp
  have z: "drop_bit 29 (of_nat k :: u64) = 0"
    using assms u by (intro word_unat_eq_iff[THEN iffD2]) (simp add: unat_drop_bit_div)
  have l: "ucast (of_nat (8 * (n + k)) :: u32) < (of_nat (8 * k) :: u64) \<longleftrightarrow> 8 * (n + k) mod 2 ^ 32 < 8 * k"
    unfolding word_less_nat_alt s' unat_ucast_32_64 unat_of_nat[where 'a = 32] by simp
  have "(ucast (of_nat (8 * k) :: u64) :: u32) = of_nat (8 * k)"
    unfolding word_unat_eq_iff unsigned_ucast_eq s' unat_of_nat[where 'a = 32] take_bit_eq_mod by simp
  then show "of_nat (8 * n) + ucast (push_bit 3 (of_nat k :: u64)) = (of_nat (8 * (n + k)) :: u32)"
    unfolding s by (simp add: distrib_left)
  show "(if ucast (of_nat (8 * (n + k)) :: u32) < push_bit 3 (of_nat k :: u64)
          then of_nat (8 * n div 2 ^ 32) + 1 else of_nat (8 * n div 2 ^ 32)) + ucast (drop_bit 29 (of_nat k :: u64))
         = (of_nat (8 * (n + k) div 2 ^ 32) :: u32)"
    unfolding s z l using carry_div[of "8 * k" "2 ^ 32" "8 * n"] assms by (simp add: distrib_left)
qed

lemma length_memcpy: "j + length d \<le> length buf \<Longrightarrow> length (memcpy buf j d) = length buf"
  by (simp add: memcpy_def)

lemma take_memcpy: "j \<le> length buf \<Longrightarrow> take (j + length d) (memcpy buf j d) = take j buf @ d"
  by (simp add: memcpy_def)

lemma taken_counts:
  assumes "taken M c" "length d < 2 ^ 29"
  shows "sc_count0 (sat_SHA1_Update c d) = of_nat (8 * length (M @ d))"
    and "sc_count1 (sat_SHA1_Update c d) = of_nat (8 * length (M @ d) div 2 ^ 32)"
  using assms(1) count_carry[OF assms(2), of "length M"]
  by (simp_all only: sat_SHA1_Update_def taken_def Let_def length_append)
     (simp_all split: prod.splits del: of_nat_mult)

lemma taken_update_state:
  assumes "taken M c"
  shows "let c' = sat_SHA1_Update c d in
    sc_state c' = hash_list (sha_blocks sha_init (M @ d)) \<and> length (sc_buffer c') = 64 \<and>
    take (length (M @ d) mod 64) (sc_buffer c') = sha_rest (M @ d)"
proof -
  let ?j = "length M mod 64" and ?h = "sha_blocks sha_init M"
  have j: "unat (drop_bit 3 (sc_count0 c) AND 63) = ?j"
    using assms count_index[of "length M"] by (simp only: taken_def)
  have c: "sc_state c = hash_list ?h" "length (sc_buffer c) = 64" "take ?j (sc_buffer c) = sha_rest M"
    using assms by (simp_all add: taken_def)
  have ll: "length (sha_rest M @ d) = ?j + length d" by (simp add: length_sha_rest)
  have lr: "length (M @ d) mod 64 = length (sha_rest (M @ d))" by (simp only: length_sha_rest)
  show ?thesis
  proof (cases "?j + length d > 63")
    case False
    then have "sha_blocks ?h (sha_rest M @ d) = ?h" "sha_rest (sha_rest M @ d) = sha_rest M @ d"
      using ll by (simp_all add: sha_blocks.simps sha_rest.simps)
    then show ?thesis
      using False c take_memcpy[of ?j "sc_buffer c" d] length_memcpy[of ?j d "sc_buffer c"] unfolding lr sha_blocks_append[of _ M] sha_rest_append[of M]
      by (simp add: sat_SHA1_Update_def Let_def j length_sha_rest)
  next
    case True
    let ?b = "memcpy (sc_buffer c) ?j (take (64 - ?j) d)" and ?r = "drop (64 - ?j) d"
    have b: "?b = take 64 (sha_rest M @ d)" "length ?b = 64"
      using True c ll by (simp_all add: memcpy_def length_sha_rest)
    obtain st i where u: "update_blocks (SHA1_Transform (sc_state c) ?b) d (64 - ?j) = (st, i)" by fastforce
    have s: "st = hash_list (sha_blocks (sha_compress ?h ?b) ?r)" "drop i d = sha_rest ?r"
      using update_blocks_eq[of "sha_compress ?h ?b" d "64 - ?j" st i] u True c(1) SHA1_Transform_compress[OF b(2), of ?h] by auto
    have e: "sha_blocks ?h (sha_rest M @ d) = sha_blocks (sha_compress ?h ?b) ?r" "sha_rest (sha_rest M @ d) = sha_rest ?r"
      using True ll b(1) by (simp_all add: sha_blocks.simps[of ?h "sha_rest M @ d"] sha_rest.simps[of "sha_rest M @ d"] length_sha_rest)
    have "length (sha_rest ?r) \<le> 64" unfolding length_sha_rest by simp
    then show ?thesis
      using True u s e c(2) b(2) take_memcpy[of 0 ?b "sha_rest ?r"] length_memcpy[of 0 "sha_rest ?r" ?b]
      unfolding lr sha_blocks_append[of _ M] sha_rest_append[of M]
      by (simp add: sat_SHA1_Update_def Let_def j)
  qed
qed

lemma taken_update: "taken M c \<Longrightarrow> length d < 2 ^ 29 \<Longrightarrow> taken (M @ d) (sat_SHA1_Update c d)"
  using taken_update_state[of M c d] taken_counts[of M c d] unfolding taken_def[of "M @ d"] Let_def by blast

subsection \<open>Padding and digest\<close>

lemma and_504: "(w :: u32) AND 504 = push_bit 3 (drop_bit 3 w AND 63)"
proof -
  have "(504 :: u32) = push_bit 3 (mask 6)" "(63 :: u32) = mask 6" by (simp_all add: mask_numeral)
  then show ?thesis by (simp only: bit_eq_iff) (auto simp: bit_simps)
qed

lemma count_padded: "(of_nat (8 * n) :: u32) AND 504 = 448 \<longleftrightarrow> n mod 64 = 56"
proof -
  let ?x = "drop_bit 3 (of_nat (8 * n) :: u32) AND 63"
  have x: "unat ?x = n mod 64" by (rule count_index)
  have "unat (push_bit 3 ?x) = 8 * (n mod 64)"
    unfolding unsigned_push_bit_eq x by (simp add: push_bit_eq_mult take_bit_nat_eq_self)
  then have "unat (of_nat (8 * n) AND 504 :: u32) = 8 * (n mod 64)" by (simp only: and_504)
  then have "(of_nat (8 * n) AND 504 :: u32) = 448 \<longleftrightarrow> 8 * (n mod 64) = 448"
    by (simp add: word_unat_eq_iff del: of_nat_mult)
  also have "\<dots> \<longleftrightarrow> n mod 64 = 56" by auto
  finally show ?thesis .
qed

text \<open>The zero bytes are added until 56 bytes of a block are full; the loop ends.\<close>

lemma final_pad_eq:
  "taken M c \<Longrightarrow> k < 64 \<Longrightarrow> (length M + k) mod 64 = 56 \<Longrightarrow> \<exists>c'. final_pad c = Some c' \<and> taken (M @ replicate k 0) c'"
proof (induction k arbitrary: M c)
  case 0
  then have "sc_count0 c AND 504 = 448" using count_padded[of "length M"] by (simp add: taken_def)
  then show ?case using 0 by (simp add: final_pad.simps[of c])
next
  case (Suc k)
  have "length M mod 64 \<noteq> 56"
  proof
    assume "length M mod 64 = 56"
    then have "(56 + Suc k) mod 64 = 56" using Suc.prems(3) by (metis mod_add_left_eq)
    then show False using Suc.prems(2) by (cases "56 + Suc k < 64") (simp_all add: le_mod_geq)
  qed
  then have n: "sc_count0 c AND 504 \<noteq> 448" using Suc.prems(1) count_padded[of "length M"] by (simp add: taken_def)
  have "taken (M @ [0]) (sat_SHA1_Update c [0])" using Suc.prems(1) by (rule taken_update) simp
  from Suc.IH[OF this] Suc.prems show ?case by (simp add: final_pad.simps[of c] n)
qed

lemma ucast_and_255: "(ucast (w AND 255 :: u32) :: byte) = ucast w"
proof -
  have m: "(255 :: u32) = mask 8" by (simp add: mask_numeral)
  show ?thesis unfolding m by (intro bit_word_eqI) (auto simp: bit_simps)
qed

lemma finalcount_eq: "finalcount c = word_be (sc_count1 c) @ word_be (sc_count0 c)"
  unfolding finalcount_def ucast_and_255 by (simp add: word_be_def upt_rec)

lemma digest_eq: "sc_state c = hash_list h \<Longrightarrow> digest_of c = hash_bytes h"
  unfolding digest_of_def ucast_and_255 by (cases h) (simp add: hash_bytes_def hash_list_def word_be_def upt_rec)

lemma length_hash_bytes [simp]: "length (hash_bytes h) = 20"
  by (cases h) (simp add: hash_bytes_def)

lemma sat_SHA1_Final_eq:
  assumes "taken M c"
  shows "\<exists>c'. sat_SHA1_Final c = Some (c', SHA1 M)"
proof -
  let ?z = "(119 - length M mod 64) mod 64"
  have "(length M + 1 + ?z) mod 64 = (length M mod 64 + 1 + (119 - length M mod 64)) mod 64"
    by (metis (no_types) mod_add_left_eq mod_add_right_eq)
  then have z: "(length (M @ [0x80 :: byte]) + ?z) mod 64 = 56" by simp
  have "taken (M @ [0x80]) (sat_SHA1_Update c [0x80])" using assms by (rule taken_update) simp
  from final_pad_eq[OF this _ z] obtain c1 where
    c1: "final_pad (sat_SHA1_Update c [0x80]) = Some c1" "taken ((M @ [0x80]) @ replicate ?z 0) c1" by auto
  have fc: "finalcount c = word_be (of_nat (8 * length M div 2 ^ 32)) @ word_be (of_nat (8 * length M))"
    using assms by (simp add: finalcount_eq taken_def)
  then have "taken (sha_pad M) (sat_SHA1_Update c1 (finalcount c))"
    using taken_update[OF c1(2), of "finalcount c"] by (simp add: sha_pad_def Let_def)
  then have "digest_of (sat_SHA1_Update c1 (finalcount c)) = SHA1 M"
    unfolding SHA1_def by (intro digest_eq) (simp add: taken_def)
  then show ?thesis using c1(1) by (simp add: sat_SHA1_Final_def Let_def)
qed

lemma sha1_run:
  assumes "length (sc_buffer c) = 64" "length d < 2 ^ 29"
  obtains c' where "sat_SHA1_Final (sat_SHA1_Update (sat_SHA1_Init c) d) = Some (c', SHA1 d)"
proof -
  have "taken ([] @ d) (sat_SHA1_Update (sat_SHA1_Init c) d)"
    using taken_init[OF assms(1)] assms(2) by (rule taken_update)
  from sat_SHA1_Final_eq[OF this] show ?thesis using that by auto
qed

lemma length_SHA1 [simp]: "length (SHA1 M) = 20"
  by (simp add: SHA1_def)

text \<open>
  C19. \<open>lsha1\<close> computes SHA-1: whatever its local context holds at entry, the digest it gives for a string of
  fewer than \<open>2 ^ 29\<close> bytes is that of FIPS 180-4.
\<close>

theorem lsha1_is_SHA1:
  assumes "length (sc_buffer ctx) = 64" "length buffer < 2 ^ 29"
  shows "lsha1 ctx buffer = Some (SHA1 buffer)"
proof -
  obtain c' where "sat_SHA1_Final (sat_SHA1_Update (sat_SHA1_Init ctx) buffer) = Some (c', SHA1 buffer)"
    using assms by (rule sha1_run)
  then show ?thesis by (simp add: lsha1_def Let_def)
qed

theorem lsha1_is_SHA1_witness:
  "let ctx = \<lparr>sc_state = [], sc_count0 = 7, sc_count1 = 9, sc_buffer = replicate 64 1\<rparr>
   in length (sc_buffer ctx) = 64 \<and> length [0x61, 0x62, 0x63 :: byte] < 2 ^ 29 \<and>
      lsha1 ctx [0x61, 0x62, 0x63] = Some (SHA1 [0x61, 0x62, 0x63])"
  using lsha1_is_SHA1[of "\<lparr>sc_state = [], sc_count0 = 7, sc_count1 = 9, sc_buffer = replicate 64 1\<rparr>" "[0x61, 0x62, 0x63]"]
  by simp

subsection \<open>The keyed hash\<close>

lemma concat_fours: "concat (map (\<lambda>i. take 4 (drop (4 * i) xs)) [0..<n]) = take (4 * n) xs"
proof (induction n)
  case (Suc n)
  have "take (4 * Suc n) xs = take (4 * n) xs @ take 4 (drop (4 * n) xs)"
    using take_add[of "4 * n" 4 xs] by (simp add: add.commute)
  then show ?case using Suc by simp
qed simp

lemma word_le_xor: "word_le (v XOR w) = map2 (XOR) (word_le v) (word_le w)"
  by (simp add: word_le_def drop_bit_xor unsigned_xor_eq)

lemma replicate_4: "replicate 4 b = [b, b, b, b]"
  by (simp add: numeral_eq_Suc)

lemma xor_key_eq:
  assumes "length key = 64" "word_le x = replicate 4 b"
  shows "xor_key key x = map (\<lambda>k. k XOR b) key"
proof -
  have "word_le (le_word t XOR x) = map (\<lambda>k. k XOR b) t" if "length t = 4" for t
    using that assms(2) by (elim length_4E) (simp add: word_le_xor word_le_le replicate_4)
  then have "map (\<lambda>i. word_le (le_word (take 4 (drop (4 * i) key)) XOR x)) [0..<16] =
    map (\<lambda>i. map (\<lambda>k. k XOR b) (take 4 (drop (4 * i) key))) [0..<16]"
    using assms(1) by (intro map_cong) auto
  then have "xor_key key x = map (\<lambda>k. k XOR b) (concat (map (\<lambda>i. take 4 (drop (4 * i) key)) [0..<16]))"
    unfolding xor_key_def map_concat map_map comp_def by (simp only:)
  then show ?thesis using assms(1) by (simp add: concat_fours)
qed

text \<open>
  C21. \<open>lhmac_sha1\<close> computes HMAC with SHA-1 of FIPS 198-1 for keys of any length up to \<open>2 ^ 29\<close> bytes, those of
  at most and those of more than a block included, whatever its three local contexts hold at entry.
\<close>

theorem lhmac_sha1_is_HMAC:
  assumes "length (sc_buffer ctx) = 64" "length (sc_buffer ctx1) = 64" "length (sc_buffer ctx2) = 64"
    and "length key < 2 ^ 29" "length txt < 2 ^ 29"
  shows "lhmac_sha1 ctx ctx1 ctx2 key txt = Some (HMAC_SHA1 key txt)"
proof -
  let ?K = "if 64 < length key then SHA1 key else key"
  let ?K0 = "?K @ replicate (64 - length ?K) 0"
  let ?o = "map (\<lambda>b. b XOR 0x5c) ?K0" and ?i = "map (\<lambda>b. b XOR 0x36) ?K0"
  obtain c0 where c0: "sat_SHA1_Final (sat_SHA1_Update (sat_SHA1_Init ctx) key) = Some (c0, SHA1 key)"
    using assms(1,4) by (rule sha1_run)
  have l: "length ?K0 = 64" by simp
  have rk: "(if length key > 64 then Some (memcpy (replicate 64 0) 0 (SHA1 key)) else Some (memcpy (replicate 64 0) 0 key)) = Some ?K0"
    by (simp add: memcpy_def)
  have w: "word_le 0x5c5c5c5c = replicate 4 0x5c" "word_le (0x5c5c5c5c XOR 0x36363636) = replicate 4 (0x5c XOR 0x36)"
    by (simp_all add: word_le_def replicate_4)
  have o: "xor_key ?K0 0x5c5c5c5c = ?o" by (rule xor_key_eq[OF l w(1)])
  have "xor_key ?o (0x5c5c5c5c XOR 0x36363636) = map (\<lambda>k. k XOR (0x5c XOR 0x36)) ?o"
    using l w(2) by (intro xor_key_eq) simp_all
  also have "\<dots> = ?i" by (simp add: comp_def xor.assoc)
  finally have i: "xor_key ?o (0x5c5c5c5c XOR 0x36363636) = ?i" .
  have "taken ([] @ ?i) (sat_SHA1_Update (sat_SHA1_Init ctx2) ?i)"
    using taken_init[OF assms(3)] by (rule taken_update) simp
  from taken_update[OF this assms(5)] obtain c2 where
    c2: "sat_SHA1_Final (sat_SHA1_Update (sat_SHA1_Update (sat_SHA1_Init ctx2) ?i) txt) = Some (c2, SHA1 (?i @ txt))"
    using sat_SHA1_Final_eq by fastforce
  have "taken ([] @ ?o) (sat_SHA1_Update (sat_SHA1_Init ctx1) ?o)"
    using taken_init[OF assms(2)] by (rule taken_update) simp
  from taken_update[OF this, of "SHA1 (?i @ txt)"] obtain c1 where
    c1: "sat_SHA1_Final (sat_SHA1_Update (sat_SHA1_Update (sat_SHA1_Init ctx1) ?o) (SHA1 (?i @ txt))) =
      Some (c1, SHA1 (?o @ SHA1 (?i @ txt)))"
    using sat_SHA1_Final_eq by fastforce
  show ?thesis
    unfolding lhmac_sha1_def HMAC_SHA1_def Let_def c0 bind.bind_lunit prod.case rk o i c2 c1 ..
qed

theorem lhmac_sha1_is_HMAC_witness:
  "let ctx = \<lparr>sc_state = [], sc_count0 = 7, sc_count1 = 9, sc_buffer = replicate 64 1\<rparr>; key = replicate 80 0xaa
   in length (sc_buffer ctx) = 64 \<and> 64 < length key \<and> length key < 2 ^ 29 \<and>
      lhmac_sha1 ctx ctx ctx key [0x48, 0x69] = Some (HMAC_SHA1 key [0x48, 0x69])"
  using lhmac_sha1_is_HMAC[of "\<lparr>sc_state = [], sc_count0 = 7, sc_count1 = 9, sc_buffer = replicate 64 1\<rparr>"
      "\<lparr>sc_state = [], sc_count0 = 7, sc_count1 = 9, sc_buffer = replicate 64 1\<rparr>"
      "\<lparr>sc_state = [], sc_count0 = 7, sc_count1 = 9, sc_buffer = replicate 64 1\<rparr>" "replicate 80 0xaa" "[0x48, 0x69]"]
  by simp

text \<open>
  The bound of \<open>2 ^ 29\<close> bytes cannot be dropped: \<open>len << 3\<close> is a \<open>size_t\<close>, so for a longer piece the sum in 32 bits is
  always the smaller one and the carry is counted although \<open>len >> 29\<close> holds all of the high part.
\<close>

lemma update_counts_long:
  assumes "2 ^ 29 \<le> length d" "length d < 2 ^ 61"
  shows "sc_count1 (sat_SHA1_Update (sat_SHA1_Init c) d) = of_nat (8 * length d div 2 ^ 32) + 1"
proof -
  let ?k = "length d"
  have u: "unat (push_bit 3 (of_nat ?k :: u64)) = 8 * ?k"
    using assms(2) unat_of_nat[of "8 * ?k", where 'a = 64] by (simp add: push_bit_eq_mult mult.commute)
  have lt: "ucast (x :: u32) < push_bit 3 (of_nat ?k :: u64)" for x
    unfolding word_less_nat_alt u unat_ucast_32_64 using unsigned_less[of x, where 'a = nat] assms(1) by simp
  have "unat (drop_bit 29 (of_nat ?k :: u64)) = ?k div 2 ^ 29"
    using assms(2) by (simp add: unat_drop_bit_div unat_of_nat)
  then have "ucast (drop_bit 29 (of_nat ?k :: u64)) = (of_nat (?k div 2 ^ 29) :: u32)"
    unfolding word_unat_eq_iff unsigned_ucast_eq by (simp add: unat_of_nat take_bit_eq_mod)
  moreover have "8 * ?k div 2 ^ 32 = ?k div 2 ^ 29" using div_mult_mult1[of 8 ?k "2 ^ 29"] by simp
  ultimately show ?thesis
    using lt by (simp add: sat_SHA1_Update_def sat_SHA1_Init_def Let_def split: prod.splits)
qed

end
