(* ===== verification/Crypt.thy ===== *)
theory Crypt
  imports Bytes
begin

text \<open>
  The number-theoretic and hashing half of \<open>lualib-src/lua-crypt.c\<close>: the string hash, the 64-bit keyed hash built
  from one MD5 transform, random keys and the Diffie-Hellman exchange modulo the largest 64-bit prime.

  A call of \<open>luaL_error\<close> leaves the function with an error, \<^term>\<open>Inl\<close>; a call that would not return is \<^term>\<open>None\<close>.
  Lua strings are lists of bytes, of fewer than \<open>2 ^ 31\<close> bytes since the code indexes them with an \<open>int\<close>.
\<close>

subsection \<open>Errors and 64-bit numbers as strings\<close>

datatype crypt_error =
    Invalid_key_size nat
  | Invalid_des_length nat
  | Invalid_des_text
  | Invalid_hex_size nat
  | Invalid_hex_text
  | Invalid_uint64_x
  | Invalid_uint64_y
  | Invalid_uint64_key
  | Invalid_dh_key
  | Cant_be_0
  | Invalid_base64
  | Cant_xor_empty

type_synonym 'a lua = "crypt_error + 'a"

text \<open>Two 32-bit words of eight bytes.\<close>

definition words2 :: "byte list \<Rightarrow> u32 \<times> u32" where
  "words2 x = (le_word (take 4 x), le_word (drop 4 x))"

definition read64 :: "byte list \<Rightarrow> byte list \<Rightarrow> ((u32 \<times> u32) \<times> (u32 \<times> u32)) lua" where
  "read64 x y =
     (if length x \<noteq> 8 then Inl Invalid_uint64_x
      else if length y \<noteq> 8 then Inl Invalid_uint64_y
      else Inr (words2 x, words2 y))"

definition pushqword :: "u32 \<times> u32 \<Rightarrow> byte list" where
  "pushqword = (\<lambda>(r0, r1).
     [ucast r0, ucast (drop_bit 8 r0), ucast (drop_bit 16 r0), ucast (drop_bit 24 r0),
      ucast r1, ucast (drop_bit 8 r1), ucast (drop_bit 16 r1), ucast (drop_bit 24 r1)])"

definition push64 :: "u64 \<Rightarrow> byte list" where
  "push64 r =
     [ucast r, ucast (drop_bit 8 r), ucast (drop_bit 16 r), ucast (drop_bit 24 r),
      ucast (drop_bit 32 r), ucast (drop_bit 40 r), ucast (drop_bit 48 r), ucast (drop_bit 56 r)]"

subsection \<open>Hashes\<close>

definition Hash :: "byte list \<Rightarrow> byte list" where
  "Hash str =
     (let (djb, js) = fold (\<lambda>c (djb, js). (djb + (push_bit 5 djb + ucast c), js XOR (push_bit 5 js + ucast c + drop_bit 2 js)))
                           str (5381 :: u32, 1315423911 :: u32)
      in [ucast djb, ucast (drop_bit 8 djb), ucast (drop_bit 16 djb), ucast (drop_bit 24 djb),
          ucast js, ucast (drop_bit 8 js), ucast (drop_bit 16 js), ucast (drop_bit 24 js)])"

definition lhashkey :: "byte list \<Rightarrow> byte list" where
  "lhashkey key = Hash key"

definition md5_k :: "u32 list" where
  "md5_k = [
0xd76aa478, 0xe8c7b756, 0x242070db, 0xc1bdceee ,
0xf57c0faf, 0x4787c62a, 0xa8304613, 0xfd469501 ,
0x698098d8, 0x8b44f7af, 0xffff5bb1, 0x895cd7be ,
0x6b901122, 0xfd987193, 0xa679438e, 0x49b40821 ,
0xf61e2562, 0xc040b340, 0x265e5a51, 0xe9b6c7aa ,
0xd62f105d, 0x02441453, 0xd8a1e681, 0xe7d3fbc8 ,
0x21e1cde6, 0xc33707d6, 0xf4d50d87, 0x455a14ed ,
0xa9e3e905, 0xfcefa3f8, 0x676f02d9, 0x8d2a4c8a ,
0xfffa3942, 0x8771f681, 0x6d9d6122, 0xfde5380c ,
0xa4beea44, 0x4bdecfa9, 0xf6bb4b60, 0xbebfbc70 ,
0x289b7ec6, 0xeaa127fa, 0xd4ef3085, 0x04881d05 ,
0xd9d4d039, 0xe6db99e5, 0x1fa27cf8, 0xc4ac5665 ,
0xf4292244, 0x432aff97, 0xab9423a7, 0xfc93a039 ,
0x655b59c3, 0x8f0ccc92, 0xffeff47d, 0x85845dd1 ,
0x6fa87e4f, 0xfe2ce6e0, 0xa3014314, 0x4e0811a1 ,
0xf7537e82, 0xbd3af235, 0x2ad7d2bb, 0xeb86d391 ]"

definition md5_r :: "nat list" where
  "md5_r = [7, 12, 17, 22, 7, 12, 17, 22, 7, 12, 17, 22, 7, 12, 17, 22,
            5,  9, 14, 20, 5,  9, 14, 20, 5,  9, 14, 20, 5,  9, 14, 20,
            4, 11, 16, 23, 4, 11, 16, 23, 4, 11, 16, 23, 4, 11, 16, 23,
            6, 10, 15, 21, 6, 10, 15, 21, 6, 10, 15, 21, 6, 10, 15, 21]"

text \<open>The body of the loop of \<open>hmac\<close>; its \<open>LEFTROTATE\<close> is the rotation \<^const>\<open>rol\<close>.\<close>

definition hmac_round :: "u32 list \<Rightarrow> nat \<Rightarrow> u32 \<times> u32 \<times> u32 \<times> u32 \<Rightarrow> u32 \<times> u32 \<times> u32 \<times> u32" where
  "hmac_round w i = (\<lambda>(a, b, c, d).
     let (f, g) =
       (if i < 16 then ((b AND c) OR (NOT b AND d), i)
        else if i < 32 then ((d AND b) OR (NOT d AND c), (5 * i + 1) mod 16)
        else if i < 48 then (b XOR c XOR d, (3 * i + 5) mod 16)
        else (c XOR (b OR NOT d), (7 * i) mod 16))
     in (d, b + rol (a + f + md5_k ! i + w ! g) (md5_r ! i), b, c))"

definition hmac :: "u32 \<times> u32 \<Rightarrow> u32 \<times> u32 \<Rightarrow> u32 \<times> u32" where
  "hmac x y =
     (let w = concat (replicate 4 [snd x, fst x, snd y, fst y]);
          (a, b, c, d) = fold (hmac_round w) [0..<64] (0x67452301, 0xefcdab89, 0x98badcfe, 0x10325476)
      in (c XOR d, a XOR b))"

definition lhmac64 :: "byte list \<Rightarrow> byte list \<Rightarrow> byte list lua" where
  "lhmac64 x y = (case read64 x y of Inl e \<Rightarrow> Inl e | Inr (x, y) \<Rightarrow> Inr (pushqword (hmac x y)))"

definition lhmac_hash :: "byte list \<Rightarrow> byte list \<Rightarrow> byte list lua" where
  "lhmac_hash x txt =
     (if length x \<noteq> 8 then Inl Invalid_uint64_key
      else let key = words2 x; h = Hash txt; htext = words2 h in Inr (pushqword (hmac htext key)))"

text \<open>\<open>rnd i\<close> is the value of the call \<open>i\<close> of \<open>random\<close>.\<close>

definition lrandomkey :: "(nat \<Rightarrow> u64) \<Rightarrow> byte list" where
  "lrandomkey rnd =
     (let tmp = map (\<lambda>i. ucast (rnd i AND 0xff)) [0..<8];
          x = fold (XOR) tmp 0
      in if x = 0 then tmp[0 := tmp ! 0 OR 1] else tmp)"

subsection \<open>Diffie-Hellman\<close>

definition P :: u64 where
  "P = 0xffffffffffffffc5"

definition G :: u64 where
  "G = 5"

function mul_loop :: "u64 \<Rightarrow> u64 \<Rightarrow> u64 \<Rightarrow> u64" where
  "mul_loop a b m =
     (if b \<noteq> 0 then
        let m = (if b AND 1 \<noteq> 0 then let t = P - a in if m \<ge> t then m - t else m + a else m);
            a = (if a \<ge> P - a then a * 2 - P else a * 2)
        in mul_loop a (drop_bit 1 b) m
      else m)"
  by auto
termination
proof (relation "measure (\<lambda>(a, b, m). unat b)")
  show "wf (measure (\<lambda>(a, b, m). unat b))" by simp
next
  fix a b m x xa
  assume "(b :: u64) \<noteq> 0"
  then have "unat (drop_bit 1 b) < unat b" unfolding unat_drop_bit_div by (simp add: unat_gt_0)
  then show "((xa, drop_bit 1 b, x), a, b, m) \<in> measure (\<lambda>(a, b, m). unat b)" by simp
qed

definition mul_mod_p :: "u64 \<Rightarrow> u64 \<Rightarrow> u64" where
  "mul_mod_p a b = mul_loop a b 0"

text \<open>The recursion on \<open>b >> 1\<close> ends at 1; from 0 it would not.\<close>

partial_function (option) pow_mod_p :: "u64 \<Rightarrow> u64 \<Rightarrow> u64 option" where
  "pow_mod_p a b =
     (if b = 1 then Some a
      else do {
        t \<leftarrow> pow_mod_p a (drop_bit 1 b);
        let t = mul_mod_p t t;
        Some (if b mod 2 \<noteq> 0 then mul_mod_p t a else t)
      })"

declare pow_mod_p.simps [code]

definition powmodp :: "u64 \<Rightarrow> u64 \<Rightarrow> u64 option" where
  "powmodp a b = pow_mod_p (if a > P then a mod P else a) b"

definition u64_of :: "u32 \<times> u32 \<Rightarrow> u64" where
  "u64_of x = ucast (fst x) OR push_bit 32 (ucast (snd x))"

definition ldhsecret :: "byte list \<Rightarrow> byte list \<Rightarrow> byte list lua option" where
  "ldhsecret x y =
     (case read64 x y of
        Inl e \<Rightarrow> Some (Inl e)
      | Inr (x, y) \<Rightarrow>
          let xx = u64_of x; yy = u64_of y
          in if xx = 0 \<or> yy = 0 then Some (Inl Cant_be_0)
             else do { r \<leftarrow> powmodp xx yy; Some (Inr (push64 r)) })"

definition ldhexchange :: "byte list \<Rightarrow> byte list lua option" where
  "ldhexchange x =
     (if length x \<noteq> 8 then Some (Inl Invalid_dh_key)
      else let x64 = u64_of (words2 x)
           in if x64 = 0 then Some (Inl Cant_be_0)
              else do { r \<leftarrow> powmodp G x64; Some (Inr (push64 r)) })"

declare mul_loop.simps [simp del]

subsection \<open>Multiplication and power modulo P\<close>

abbreviation p64 :: nat where
  "p64 \<equiv> 18446744073709551557"

lemma unat_P: "unat P = p64"
  by (simp add: P_def)

lemma less_P: "a < P \<longleftrightarrow> unat a < p64"
  by (simp add: word_less_nat_alt unat_P)

lemma unat_minus_le: "b \<le> a \<Longrightarrow> unat (a - b) = unat a - unat (b :: 'a::len word)"
  by (rule unat_sub) simp

text \<open>The sum of two residues, without leaving 64 bits.\<close>

lemma add_mod_P:
  assumes "x < P" "y < P"
  defines "s \<equiv> if x \<ge> P - y then x - (P - y) else x + y"
  shows "unat s = (unat x + unat y) mod p64" "s < P"
proof -
  have xy: "unat x < p64" "unat y < p64" using assms(1,2) by (simp_all add: less_P)
  have t: "unat (P - y) = p64 - unat y" using unat_minus_le[of y P] assms(2) by (simp add: unat_P)
  have "unat s = (unat x + unat y) mod p64"
  proof (cases "P - y \<le> x")
    case True
    then have "p64 - unat y \<le> unat x" by (simp add: word_le_nat_alt t)
    moreover have "unat s = unat x - (p64 - unat y)" using True unat_minus_le[OF True] t by (simp add: s_def)
    ultimately show ?thesis using xy by (simp add: le_mod_geq)
  next
    case False
    then have l: "unat x + unat y < p64" using xy by (simp add: word_le_nat_alt t)
    then have "unat (x + y) = unat x + unat y" by (intro unat_add_lem[THEN iffD1]) simp
    then show ?thesis using False l by (simp add: s_def)
  qed
  then show "unat s = (unat x + unat y) mod p64" "s < P" by (simp_all add: less_P)
qed

lemma mul_loop_eq: "a < P \<Longrightarrow> m < P \<Longrightarrow> unat (mul_loop a b m) = (unat m + unat a * unat b) mod p64 \<and> mul_loop a b m < P"
proof (induction a b m rule: mul_loop.induct)
  case (1 a b m)
  show ?case
  proof (cases "b = 0")
    case True
    then show ?thesis using 1(3) by (simp add: mul_loop.simps[of a 0 m] less_P)
  next
    case False
    let ?m = "if b AND 1 \<noteq> 0 then let t = P - a in if m \<ge> t then m - t else m + a else m"
    let ?a = "if a \<ge> P - a then a * 2 - P else a * 2"
    let ?b = "drop_bit 1 b"
    have e: "?a = (if a \<ge> P - a then a - (P - a) else a + a)" by (simp add: algebra_simps)
    have a: "unat ?a = (unat a + unat a) mod p64" "?a < P" unfolding e by (rule add_mod_P[OF 1(2) 1(2)])+
    have odd: "b AND 1 \<noteq> 0 \<longleftrightarrow> unat b mod 2 = 1" by (simp add: and_one_eq odd_iff_mod_2_eq_one word_unat_eq_iff unat_mod)
    have m: "unat ?m = (unat m + unat a * (unat b mod 2)) mod p64" "?m < P"
      using add_mod_P[OF 1(3) 1(2)] 1(3) odd by (auto simp: Let_def less_P)
    have b: "unat b = 2 * unat ?b + unat b mod 2" unfolding unat_drop_bit_div by simp
    have "mul_loop a b m = mul_loop ?a ?b ?m" using False by (simp add: mul_loop.simps[of a b m] Let_def)
    moreover have "unat (mul_loop ?a ?b ?m) = (unat ?m + unat ?a * unat ?b) mod p64 \<and> mul_loop ?a ?b ?m < P"
      using 1(1)[OF False refl refl] a(2) m(2) by blast
    moreover have "(unat ?m + unat ?a * unat ?b) mod p64 = (unat m + unat a * (unat b mod 2) + (unat a + unat a) * unat ?b) mod p64"
      unfolding m(1) a(1) by (intro mod_add_cong mod_mult_cong) (simp_all only: mod_mod_trivial)
    moreover have "unat m + unat a * (unat b mod 2) + (unat a + unat a) * unat ?b = unat m + unat a * unat b"
      using arg_cong[OF b, of "\<lambda>x. unat a * x"] by (simp add: algebra_simps)
    ultimately show ?thesis by (simp only:)
  qed
qed

lemma mul_mod_p_eq: "a < P \<Longrightarrow> unat (mul_mod_p a b) = unat a * unat b mod p64 \<and> mul_mod_p a b < P"
  using mul_loop_eq[of a 0 b] by (simp add: mul_mod_p_def less_P)

text \<open>The power is found for every exponent but 0.\<close>

lemma pow_mod_p_eq:
  "a < P \<Longrightarrow> b \<noteq> 0 \<Longrightarrow> \<exists>r. pow_mod_p a b = Some r \<and> unat r = unat a ^ unat b mod p64 \<and> r < P"
proof (induction "unat b" arbitrary: b rule: less_induct)
  case less
  show ?case
  proof (cases "b = 1")
    case True
    then show ?thesis using less.prems(1) by (simp add: pow_mod_p.simps[of a 1] less_P)
  next
    case False
    let ?b = "drop_bit 1 b"
    have "unat b \<noteq> 0" "unat b \<noteq> 1" using False less.prems(2) by (simp_all add: word_unat_eq_iff)
    then have "unat ?b < unat b" "unat ?b \<noteq> 0" unfolding unat_drop_bit_div by auto
    then obtain t where t: "pow_mod_p a ?b = Some t" "unat t = unat a ^ unat ?b mod p64" "t < P"
      using less.hyps[of ?b] less.prems(1) by (auto simp: unat_eq_0)
    have odd: "b mod 2 \<noteq> 0 \<longleftrightarrow> unat b mod 2 = 1" by (simp add: word_unat_eq_iff unat_mod)
    let ?t = "mul_mod_p t t"
    have sq: "unat ?t = unat a ^ (2 * unat ?b) mod p64" "?t < P"
      using mul_mod_p_eq[OF t(3), of t] by (simp_all add: t(2) mod_simps power_add[symmetric] mult_2)
    have "unat (mul_mod_p ?t a) = unat a ^ Suc (2 * unat ?b) mod p64" "mul_mod_p ?t a < P"
      using mul_mod_p_eq[OF sq(2), of a] by (simp_all add: sq(1) mod_simps mult.commute)
    moreover have "unat b = 2 * unat ?b + unat b mod 2" unfolding unat_drop_bit_div by simp
    ultimately show ?thesis
      using False t(1) sq odd by (cases "unat b mod 2 = 1") (simp_all add: pow_mod_p.simps[of a b] Let_def)
  qed
qed

subsection \<open>The exchange\<close>

lemma push64_words: "push64 r = word_le (ucast r) @ word_le (ucast (drop_bit 32 r))"
  by (simp add: push64_def word_le_def) (auto simp: bit_simps intro!: bit_word_eqI)

lemma length_push64 [simp]: "length (push64 r) = 8"
  by (simp add: push64_def)

lemma u64_of_push64: "u64_of (words2 (push64 r)) = r"
proof -
  have "ucast (ucast r :: u32) OR push_bit 32 (ucast (ucast (drop_bit 32 r) :: u32)) = r"
    by (rule bit_word_eqI) (auto simp: bit_simps)
  then show ?thesis by (simp add: push64_words words2_def u64_of_def le_word_le)
qed

text \<open>The number a string of eight bytes stands for.\<close>

definition dh_num :: "byte list \<Rightarrow> nat" where
  "dh_num x = unat (u64_of (words2 x))"

lemma powmodp_eq:
  assumes "a \<noteq> P" "b \<noteq> 0"
  obtains r where "powmodp a b = Some r" "unat r = unat a ^ unat b mod p64" "r < P"
proof -
  let ?a = "if a > P then a mod P else a"
  have "unat ?a = unat a mod p64" "?a < P"
  proof -
    have "unat a < p64" if "\<not> P < a" using that assms(1) less_P[of a] by auto
    then show "unat ?a = unat a mod p64" by (auto simp: unat_mod unat_P)
    then show "?a < P" by (simp add: less_P)
  qed
  then obtain r where "pow_mod_p ?a b = Some r" "unat r = unat ?a ^ unat b mod p64" "r < P"
    using pow_mod_p_eq[OF _ assms(2)] by blast
  then show ?thesis using that \<open>unat ?a = _\<close> by (simp add: powmodp_def power_mod)
qed

lemma G_power_nonzero: "unat G ^ n mod p64 \<noteq> 0"
proof
  assume "unat G ^ n mod p64 = 0"
  then have "p64 dvd 5 ^ n" by (simp add: G_def dvd_eq_mod_eq_0)
  moreover have "coprime (5 ^ n) p64"
  proof (rule coprime_power_left_iff[THEN iffD2], rule disjI1)
    show "coprime 5 p64" by (simp add: coprime_iff_gcd_eq_1 gcd_nat.simps)
  qed
  ultimately show False using coprime_common_divisor[of "5 ^ n" p64 p64] by simp
qed

lemma dh_num_nonzero: "u64_of (words2 x) \<noteq> 0 \<longleftrightarrow> dh_num x \<noteq> 0"
  by (simp add: dh_num_def unat_eq_0)

lemma ldhexchange_eq:
  assumes "length x = 8" "dh_num x \<noteq> 0"
  obtains r where "ldhexchange x = Some (Inr (push64 r))" "unat r = 5 ^ dh_num x mod p64" "r < P" "r \<noteq> 0"
proof -
  let ?x = "u64_of (words2 x)"
  have x: "?x \<noteq> 0" using assms(2) dh_num_nonzero by blast
  have "G \<noteq> P" by (simp add: G_def P_def)
  then obtain r where r: "powmodp G ?x = Some r" "unat r = unat G ^ unat ?x mod p64" "r < P"
    using x by (rule powmodp_eq)
  then have "r \<noteq> 0" using G_power_nonzero[of "unat ?x"] by (metis unat_0)
  then show ?thesis
    using that[of r] r x assms(1) by (auto simp: ldhexchange_def dh_num_def Let_def G_def)
qed

lemma ldhsecret_eq:
  assumes "r < P" "r \<noteq> 0" "length y = 8" "dh_num y \<noteq> 0"
  shows "ldhsecret (push64 r) y = Some (Inr (push64 (of_nat (unat r ^ dh_num y mod p64))))"
proof -
  let ?y = "u64_of (words2 y)"
  have y: "?y \<noteq> 0" using assms(4) dh_num_nonzero by blast
  have "r \<noteq> P" using assms(1) by simp
  then obtain t where t: "powmodp r ?y = Some t" "unat t = unat r ^ unat ?y mod p64"
    using y by (rule powmodp_eq)
  have "t = of_nat (unat r ^ unat ?y mod p64)" using t(2)[symmetric] by simp
  then show ?thesis
    using t(1) y assms by (simp add: ldhsecret_def read64_def u64_of_push64 Let_def dh_num_def)
qed

text \<open>
  C22. Diffie-Hellman: from secrets of eight bytes that are not zero, both sides of an exchange get a public key from
  \<open>ldhexchange\<close>, and \<open>ldhsecret\<close> gives both of them the same secret, the generator 5 raised to the product of the two
  secrets modulo the prime.
\<close>

theorem dh_agreement:
  assumes "length x = 8" "length y = 8" "dh_num x \<noteq> 0" "dh_num y \<noteq> 0"
  shows "\<exists>px py. ldhexchange x = Some (Inr px) \<and> ldhexchange y = Some (Inr py) \<and>
    (let s = push64 (of_nat (5 ^ (dh_num x * dh_num y) mod 18446744073709551557))
     in ldhsecret py x = Some (Inr s) \<and> ldhsecret px y = Some (Inr s))"
proof -
  obtain r where r: "ldhexchange x = Some (Inr (push64 r))" "unat r = 5 ^ dh_num x mod p64" "r < P" "r \<noteq> 0"
    using assms(1,3) by (rule ldhexchange_eq)
  obtain s where s: "ldhexchange y = Some (Inr (push64 s))" "unat s = 5 ^ dh_num y mod p64" "s < P" "s \<noteq> 0"
    using assms(2,4) by (rule ldhexchange_eq)
  have "unat r ^ dh_num y mod p64 = 5 ^ (dh_num x * dh_num y) mod p64"
    "unat s ^ dh_num x mod p64 = 5 ^ (dh_num x * dh_num y) mod p64"
    unfolding r(2) s(2) power_mod power_mult[symmetric] by (simp_all add: mult.commute)
  then show ?thesis
    using r(1) s(1) ldhsecret_eq[OF r(3,4) assms(2,4)] ldhsecret_eq[OF s(3,4) assms(1,3)] by (simp add: Let_def)
qed

theorem dh_agreement_witness:
  "let x = [3, 0, 0, 0, 0, 0, 0, 0]; y = [2, 0, 0, 0, 0, 0, 0, 0]
   in dh_num x = 3 \<and> dh_num y = 2 \<and>
     (\<exists>px py. ldhexchange x = Some (Inr px) \<and> ldhexchange y = Some (Inr py) \<and>
        ldhsecret py x = Some (Inr (push64 15625)) \<and> ldhsecret px y = Some (Inr (push64 15625)))"
proof -
  have n: "dh_num [3, 0, 0, 0, 0, 0, 0, 0] = 3" "dh_num [2, 0, 0, 0, 0, 0, 0, 0] = 2"
    by (simp_all add: dh_num_def words2_def le_word_def u64_of_def)
  show ?thesis
    using dh_agreement[of "[3, 0, 0, 0, 0, 0, 0, 0]" "[2, 0, 0, 0, 0, 0, 0, 0]"] by (simp add: n Let_def)
qed

text \<open>The comparison \<open>a > P\<close> leaves the argument \<open>P\<close> itself unreduced.\<close>

lemma powmodp_P: "powmodp P 1 = Some P"
  by (simp add: powmodp_def pow_mod_p.simps)

subsection \<open>Keys and hashes\<close>

text \<open>A random key is never zero, so it can be the secret of an exchange.\<close>

lemma push64_u64_of: "length x = 8 \<Longrightarrow> push64 (u64_of (words2 x)) = x"
proof -
  assume l: "length x = 8"
  have "ucast (u64_of (v, w)) = v" "ucast (drop_bit 32 (u64_of (v, w))) = w" for v w
    by (rule bit_word_eqI, auto simp: u64_of_def bit_simps dest: bit_imp_le_length)+
  then show ?thesis using l by (simp add: push64_words words2_def word_le_le)
qed

lemma dh_num_zero: "length x = 8 \<Longrightarrow> dh_num x = 0 \<Longrightarrow> x = replicate 8 0"
  using push64_u64_of[of x] by (simp add: dh_num_def unat_eq_0 push64_def numeral_eq_Suc)

lemma lrandomkey_nonzero: "length (lrandomkey rnd) = 8" "lrandomkey rnd \<noteq> replicate 8 0"
proof -
  let ?t = "map (\<lambda>i. ucast (rnd i AND 0xff)) [0..<8] :: byte list"
  have or1: "b OR 1 \<noteq> (0 :: byte)" for b by (simp add: or_eq_0_iff)
  have "fold (XOR) (replicate 8 0) (0 :: byte) = 0" by (simp add: numeral_eq_Suc)
  then have "?t \<noteq> replicate 8 0" if "fold (XOR) ?t 0 \<noteq> 0" using that by metis
  moreover have "?t[0 := ?t ! 0 OR 1] ! 0 \<noteq> 0" using or1 by simp
  then have "?t[0 := ?t ! 0 OR 1] \<noteq> replicate 8 0" by (metis nth_replicate zero_less_numeral)
  ultimately show "lrandomkey rnd \<noteq> replicate 8 0" by (simp only: lrandomkey_def Let_def split: if_splits) simp
  show "length (lrandomkey rnd) = 8" by (simp add: lrandomkey_def Let_def)
qed

lemma randomkey_exchanges: "\<exists>r. ldhexchange (lrandomkey rnd) = Some (Inr r)"
proof -
  have "dh_num (lrandomkey rnd) \<noteq> 0" using lrandomkey_nonzero[of rnd] dh_num_zero by blast
  then show ?thesis using lrandomkey_nonzero(1)[of rnd] ldhexchange_eq by metis
qed

text \<open>The keyed hash of a text is the 64-bit keyed hash of its string hash.\<close>

lemma lhmac_hash_eq: "length key = 8 \<Longrightarrow> lhmac_hash key txt = lhmac64 (lhashkey txt) key"
  by (simp add: lhmac_hash_def lhmac64_def read64_def lhashkey_def Hash_def Let_def split: prod.splits)

end
