(* ===== verification/Crypt_Codec.thy ===== *)
theory Crypt_Codec
  imports Crypt Cstring
begin

text \<open>
  The codecs of \<open>lualib-src/lua-crypt.c\<close>: hexadecimal text, base64 and the exclusive or of two strings, with what
  decoding makes of encoded text. The buffers of fixed size that short strings use, and the userdata that long ones
  use in their place, hold the same bytes and are not distinguished.
\<close>

subsection \<open>Hexadecimal text\<close>

definition hex_digits :: "byte list" where
  "hex_digits = str ''0123456789abcdef''"

definition ltohex :: "byte list \<Rightarrow> byte list" where
  "ltohex tx = concat (map (\<lambda>t. [hex_digits ! unat (drop_bit 4 t), hex_digits ! unat (t AND 0xf)]) tx)"

text \<open>The macro \<open>HEX\<close>; the result is cut to a \<open>uint8_t\<close>.\<close>

definition HEX :: "byte \<Rightarrow> byte" where
  "HEX c = (if 0x30 \<le> c \<and> c \<le> 0x39 then c - 0x30 else c - 0x61 + 10)"

text \<open>The loop: for a text of odd length its last step reads the zero byte that ends a Lua string.\<close>

fun fromhex_loop :: "byte list \<Rightarrow> byte list lua" where
  "fromhex_loop [] = Inr []"
| "fromhex_loop [c] =
     (let hi = HEX c; low = HEX 0
      in if hi > 16 \<or> low > 16 then Inl Invalid_hex_text else Inr [push_bit 4 hi OR low])"
| "fromhex_loop (c # d # t) =
     (let hi = HEX c; low = HEX d
      in if hi > 16 \<or> low > 16 then Inl Invalid_hex_text
         else map_sum id ((#) (push_bit 4 hi OR low)) (fromhex_loop t))"

definition lfromhex :: "byte list \<Rightarrow> byte list lua" where
  "lfromhex tx =
     (let sz = length tx
      in if (of_nat sz :: u64) AND 2 \<noteq> 0 then Inl (Invalid_hex_size sz) else fromhex_loop tx)"

subsection \<open>Base64\<close>

definition encoding :: "byte list" where
  "encoding = str ''ABCDEFGHIJKLMNOPQRSTUVWXYZabcdefghijklmnopqrstuvwxyz0123456789+/''"

text \<open>The loop over groups of three bytes and the switch on what is left.\<close>

fun b64encode_loop :: "byte list \<Rightarrow> byte list" where
  "b64encode_loop (x # y # z # t) =
     (let v = push_bit 16 (ucast x) OR push_bit 8 (ucast y) OR ucast z :: u32
      in [encoding ! unat (drop_bit 18 v), encoding ! unat (drop_bit 12 v AND 0x3f),
          encoding ! unat (drop_bit 6 v AND 0x3f), encoding ! unat (v AND 0x3f)] @ b64encode_loop t)"
| "b64encode_loop [x] =
     (let v = ucast x :: u32
      in [encoding ! unat (drop_bit 2 v), encoding ! unat (push_bit 4 (v AND 3)), 0x3d, 0x3d])"
| "b64encode_loop [x, y] =
     (let v = push_bit 8 (ucast x) OR ucast y :: u32
      in [encoding ! unat (drop_bit 10 v), encoding ! unat (drop_bit 4 v AND 0x3f),
          encoding ! unat (push_bit 2 (v AND 0xf)), 0x3d])"
| "b64encode_loop [] = []"

definition lb64encode :: "byte list \<Rightarrow> byte list" where
  "lb64encode tx = b64encode_loop tx"

definition decoding :: "int list" where
  "decoding = [62,-1,-1,-1,63,52,53,54,55,56,57,58,59,60,61,-1,-1,-1,-2,-1,-1,-1,0,1,2,3,4,5,6,7,8,9,10,11,12,13,14,15,16,17,18,19,20,21,22,23,24,25,-1,-1,-1,-1,-1,-1,26,27,28,29,30,31,32,33,34,35,36,37,38,39,40,41,42,43,44,45,46,47,48,49,50,51]"

definition b64index :: "byte \<Rightarrow> int" where
  "b64index c =
     (if c < 43 then -1
      else let c = c - 43 in if unat c \<ge> length decoding then -1 else decoding ! unat c)"

text \<open>The inner loop: the next \<open>j\<close> indices and the text after them; \<^term>\<open>None\<close> where the text ends first.\<close>

fun b64_read :: "nat \<Rightarrow> byte list \<Rightarrow> (int list \<times> byte list) option" where
  "b64_read 0 t = Some ([], t)"
| "b64_read (Suc j) [] = None"
| "b64_read (Suc j) (c # t) =
     (let v = b64index c
      in if v = -1 then b64_read (Suc j) t else do { (vs, t') \<leftarrow> b64_read j t; Some (v # vs, t') })"

lemma b64_read_shorter: "b64_read j t = Some (vs, t') \<Longrightarrow> length t' + j \<le> length t"
  by (induction j t arbitrary: vs rule: b64_read.induct) (auto simp: Let_def bind_eq_Some_conv split: if_splits, fastforce)

text \<open>The switch on the number of padding characters.\<close>

definition b64_group :: "int list \<Rightarrow> byte list lua" where
  "b64_group c =
     (let padding = length (filter (\<lambda>v. v = -2) c);
          w = (\<lambda>i. word_of_int (c ! i) :: u32)
      in if padding = 0 then
           let v = push_bit 18 (w 0) OR push_bit 12 (w 1) OR push_bit 6 (w 2) OR w 3
           in Inr [ucast (drop_bit 16 v), ucast (drop_bit 8 v AND 0xff), ucast (v AND 0xff)]
         else if padding = 1 then
           if c ! 3 \<noteq> -2 \<or> w 2 AND 3 \<noteq> 0 then Inl Invalid_base64
           else let v = push_bit 10 (w 0) OR push_bit 4 (w 1) OR drop_bit 2 (w 2)
                in Inr [ucast (drop_bit 8 v), ucast (v AND 0xff)]
         else if padding = 2 then
           if c ! 3 \<noteq> -2 \<or> c ! 2 \<noteq> -2 \<or> w 1 AND 0xf \<noteq> 0 then Inl Invalid_base64
           else let v = push_bit 2 (w 0) OR drop_bit 4 (w 1) in Inr [ucast v]
         else Inl Invalid_base64)"

function b64decode_loop :: "byte list \<Rightarrow> byte list lua" where
  "b64decode_loop t =
     (if t = [] then Inr []
      else case b64_read 4 t of
          None \<Rightarrow> Inl Invalid_base64
        | Some (c, t') \<Rightarrow>
            (case b64_group c of Inl e \<Rightarrow> Inl e | Inr out \<Rightarrow> map_sum id ((@) out) (b64decode_loop t')))"
  by auto
termination
  by (relation "measure length") (auto dest: b64_read_shorter)

definition lb64decode :: "byte list \<Rightarrow> byte list lua" where
  "lb64decode tx = b64decode_loop tx"

subsection \<open>Exclusive or\<close>

definition lxor_str :: "byte list \<Rightarrow> byte list \<Rightarrow> byte list lua" where
  "lxor_str s1 s2 =
     (if length s2 = 0 then Inl Cant_xor_empty
      else Inr (map (\<lambda>i. s1 ! i XOR s2 ! (i mod length s2)) [0..<length s1]))"

declare b64decode_loop.simps [simp del]

subsection \<open>Hexadecimal text is read back only when its length is a multiple of four\<close>

lemma hex_pair: "HEX (hex_digits ! k) = of_nat k" if "k < 16"
proof -
  have "\<forall>k \<in> set [0..<16]. HEX (hex_digits ! k) = of_nat k" by code_simp
  then show ?thesis using that by simp
qed

lemma fromhex_loop_tohex: "fromhex_loop (ltohex tx) = Inr tx"
proof (induction tx)
  case (Cons t tx)
  have m: "(15 :: byte) = mask 4" by (simp add: mask_numeral)
  have hi: "unat (drop_bit 4 t) < 16" using unsigned_less[of t, where 'a = nat] by (simp add: unat_drop_bit_div)
  have lo: "unat (t AND 0xf) < 16" unfolding m take_bit_eq_mask[symmetric] unat_take_bit_mod by simp
  have "HEX (hex_digits ! unat (drop_bit 4 t)) = drop_bit 4 t" "HEX (hex_digits ! unat (t AND 0xf)) = t AND 0xf"
    using hex_pair[OF hi] hex_pair[OF lo] by simp_all
  moreover have "\<not> 16 < drop_bit 4 t" "\<not> 16 < t AND 0xf" using hi lo by (simp_all add: word_less_nat_alt)
  moreover have "push_bit 4 (drop_bit 4 t) OR (t AND 0xf) = t"
    unfolding m by (rule bit_word_eqI) (auto simp: bit_simps)
  ultimately show ?case using Cons by (simp add: ltohex_def Let_def)
qed (simp add: ltohex_def)

lemma length_ltohex [simp]: "length (ltohex tx) = 2 * length tx"
  by (induction tx) (simp_all add: ltohex_def)

lemma size_bit: "(of_nat n :: u64) AND 2 \<noteq> 0 \<longleftrightarrow> n mod 4 \<ge> 2"
proof -
  have "(of_nat n :: u64) AND 2 ^ 1 \<noteq> 0 \<longleftrightarrow> bit n 1" unfolding and_exp_eq_0_iff_not_bit by (simp add: bit_simps)
  then have "(of_nat n :: u64) AND 2 \<noteq> 0 \<longleftrightarrow> odd (n div 2)" by (simp add: bit_iff_odd)
  also have "\<dots> \<longleftrightarrow> n mod 4 \<ge> 2" by presburger
  finally show ?thesis .
qed

text \<open>
  C35. Hexadecimal text is read back when it stands for an even number of bytes. For an odd number of bytes the
  check of the size, which tests the second bit where the first was meant, refuses what \<open>ltohex\<close> has written.
\<close>

theorem hex_roundtrip:
  "lfromhex (ltohex tx) = (if even (length tx) then Inr tx else Inl (Invalid_hex_size (2 * length tx)))"
proof -
  have "(2 * length tx) mod 4 \<ge> 2 \<longleftrightarrow> odd (length tx)" by presburger
  then show ?thesis by (simp only: lfromhex_def Let_def length_ltohex size_bit fromhex_loop_tohex) simp
qed

text \<open>The check of the digits lets \<open>g\<close> pass, and its value 16 runs into the next byte.\<close>

lemma lfromhex_accepts_g: "lfromhex (str ''g00g'') = Inr [0, 16]"
  by code_simp

subsection \<open>Base64 is read back\<close>

lemma b64index_encoding:
  assumes "k < 64"
  shows "b64index (encoding ! k) = int k"
proof -
  have "list_all (\<lambda>k. b64index (encoding ! k) = int k) [0..<64]" by code_simp
  then show ?thesis using assms by (simp add: list_all_iff)
qed

lemma b64index_padding: "b64index 0x3d = -2"
  by code_simp

lemma b64_read_Suc: "b64_read (Suc j) (c # t) =
  (if b64index c = -1 then b64_read (Suc j) t else do { (vs, t') \<leftarrow> b64_read j t; Some (b64index c # vs, t') })"
  by (simp add: Let_def)

lemma b64_read_4:
  assumes "b64index a \<noteq> -1" "b64index b \<noteq> -1" "b64index c \<noteq> -1" "b64index d \<noteq> -1"
  shows "b64_read 4 (a # b # c # d # t) = Some ([b64index a, b64index b, b64index c, b64index d], t)"
  using assms by (simp add: numeral_eq_Suc)

lemma b64decode_step:
  assumes "b64index a \<noteq> -1" "b64index b \<noteq> -1" "b64index c \<noteq> -1" "b64index d \<noteq> -1"
    and "b64_group [b64index a, b64index b, b64index c, b64index d] = Inr out"
  shows "b64decode_loop (a # b # c # d # t) = map_sum id ((@) out) (b64decode_loop t)"
  using assms(5) b64_read_4[OF assms(1-4)] by (simp add: b64decode_loop.simps[of "a # b # c # d # t"])

text \<open>Words of at most six bits index the alphabet.\<close>

lemma six_bits:
  assumes "take_bit 6 w = (w :: u32)"
  shows "b64index (encoding ! unat w) = uint w"
proof -
  have "unat w = unat w mod 2 ^ 6" using unat_take_bit_mod[of 6 w] assms by simp
  then have "unat w < 64" using mod_less_divisor[of "2 ^ 6" "unat w"] by simp
  then show ?thesis by (simp add: b64index_encoding)
qed

lemma uint_not_special: "uint (w :: u32) \<noteq> -1" "uint (w :: u32) \<noteq> -2"
  using uint_ge_0[of w] by linarith+

lemma u32_masks: "(0x3f :: u32) = mask 6" "(0xff :: u32) = mask 8" "(0xf :: u32) = mask 4" "(3 :: u32) = mask 2"
  by (simp_all add: mask_numeral)

lemma b64_group_words:
  fixes a b c d :: u32
  shows "b64_group [uint a, uint b, uint c, uint d] =
      (let v = push_bit 18 a OR push_bit 12 b OR push_bit 6 c OR d
       in Inr [ucast (drop_bit 16 v), ucast (drop_bit 8 v AND 0xff), ucast (v AND 0xff)])"
    and "c AND 3 = 0 \<Longrightarrow> b64_group [uint a, uint b, uint c, -2] =
      (let v = push_bit 10 a OR push_bit 4 b OR drop_bit 2 c in Inr [ucast (drop_bit 8 v), ucast (v AND 0xff)])"
    and "b AND 0xf = 0 \<Longrightarrow> b64_group [uint a, uint b, -2, -2] =
      (let v = push_bit 2 a OR drop_bit 4 b in Inr [ucast v])"
  by (simp_all add: b64_group_def uint_not_special Let_def)

lemma b64_three:
  fixes x y z :: byte
  defines "v \<equiv> push_bit 16 (ucast x) OR push_bit 8 (ucast y) OR ucast z :: u32"
  shows "b64decode_loop (encoding ! unat (drop_bit 18 v) # encoding ! unat (drop_bit 12 v AND 0x3f) #
           encoding ! unat (drop_bit 6 v AND 0x3f) # encoding ! unat (v AND 0x3f) # t) =
         map_sum id ((@) [x, y, z]) (b64decode_loop t)"
proof -
  have b: "take_bit 6 (drop_bit 18 v) = drop_bit 18 v" "take_bit 6 (drop_bit 12 v AND 0x3f) = drop_bit 12 v AND 0x3f"
    "take_bit 6 (drop_bit 6 v AND 0x3f) = drop_bit 6 v AND 0x3f" "take_bit 6 (v AND 0x3f) = v AND 0x3f"
    unfolding u32_masks v_def by (rule bit_word_eqI, auto simp: bit_simps byte_bit_high dest: byte_bitD)+
  have r: "push_bit 18 (drop_bit 18 v) OR push_bit 12 (drop_bit 12 v AND 0x3f) OR push_bit 6 (drop_bit 6 v AND 0x3f) OR (v AND 0x3f) = v"
  proof (rule bit_word_eqI)
    show "bit (push_bit 18 (drop_bit 18 v) OR push_bit 12 (drop_bit 12 v AND 0x3f) OR push_bit 6 (drop_bit 6 v AND 0x3f) OR (v AND 0x3f)) n = bit v n" for n
      unfolding u32_masks by (cases "n < 6"; cases "n < 12"; cases "n < 18") (auto simp: bit_simps dest: bit_imp_le_length)
  qed
  have o: "ucast (drop_bit 16 v) = x" "ucast (drop_bit 8 v AND 0xff) = y" "ucast (v AND 0xff) = z"
    unfolding u32_masks v_def by (rule bit_word_eqI, auto simp: bit_simps byte_bit_high dest: byte_bitD)+
  note i = six_bits[OF b(1)] six_bits[OF b(2)] six_bits[OF b(3)] six_bits[OF b(4)]
  show ?thesis
    by (rule b64decode_step) (simp_all only: i uint_not_special b64_group_words Let_def r o not_False_eq_True)
qed

lemma b64_two:
  fixes x y :: byte
  defines "v \<equiv> push_bit 8 (ucast x) OR ucast y :: u32"
  shows "b64decode_loop [encoding ! unat (drop_bit 10 v), encoding ! unat (drop_bit 4 v AND 0x3f),
           encoding ! unat (push_bit 2 (v AND 0xf)), 0x3d] = Inr [x, y]"
proof -
  have b: "take_bit 6 (drop_bit 10 v) = drop_bit 10 v" "take_bit 6 (drop_bit 4 v AND 0x3f) = drop_bit 4 v AND 0x3f"
    "take_bit 6 (push_bit 2 (v AND 0xf)) = push_bit 2 (v AND 0xf)"
    unfolding u32_masks v_def by (rule bit_word_eqI, auto simp: bit_simps byte_bit_high dest: byte_bitD)+
  have z: "push_bit 2 (v AND 0xf) AND 3 = 0" unfolding u32_masks by (rule bit_word_eqI) (auto simp: bit_simps)
  have r: "push_bit 10 (drop_bit 10 v) OR push_bit 4 (drop_bit 4 v AND 0x3f) OR drop_bit 2 (push_bit 2 (v AND 0xf)) = v"
  proof (rule bit_word_eqI)
    show "bit (push_bit 10 (drop_bit 10 v) OR push_bit 4 (drop_bit 4 v AND 0x3f) OR drop_bit 2 (push_bit 2 (v AND 0xf))) n = bit v n" for n
      unfolding u32_masks by (cases "n < 4"; cases "n < 10") (auto simp: bit_simps dest: bit_imp_le_length)
  qed
  have o: "ucast (drop_bit 8 v) = x" "ucast (v AND 0xff) = y"
    unfolding u32_masks v_def by (rule bit_word_eqI, auto simp: bit_simps byte_bit_high dest: byte_bitD)+
  note i = six_bits[OF b(1)] six_bits[OF b(2)] six_bits[OF b(3)] b64index_padding
  have "b64decode_loop (encoding ! unat (drop_bit 10 v) # encoding ! unat (drop_bit 4 v AND 0x3f) #
          encoding ! unat (push_bit 2 (v AND 0xf)) # 0x3d # []) = map_sum id ((@) [x, y]) (b64decode_loop [])"
    by (rule b64decode_step) (simp_all only: i uint_not_special b64_group_words(2)[OF z] Let_def r o not_False_eq_True)
  then show ?thesis by (simp add: b64decode_loop.simps[of "[]"])
qed

lemma b64_one:
  fixes x :: byte
  defines "v \<equiv> ucast x :: u32"
  shows "b64decode_loop [encoding ! unat (drop_bit 2 v), encoding ! unat (push_bit 4 (v AND 3)), 0x3d, 0x3d] = Inr [x]"
proof -
  have b: "take_bit 6 (drop_bit 2 v) = drop_bit 2 v" "take_bit 6 (push_bit 4 (v AND 3)) = push_bit 4 (v AND 3)"
    unfolding u32_masks v_def by (rule bit_word_eqI, auto simp: bit_simps byte_bit_high dest: byte_bitD)+
  have z: "push_bit 4 (v AND 3) AND 0xf = 0" unfolding u32_masks by (rule bit_word_eqI) (auto simp: bit_simps)
  have r: "push_bit 2 (drop_bit 2 v) OR drop_bit 4 (push_bit 4 (v AND 3)) = v"
  proof (rule bit_word_eqI)
    fix n :: nat
    consider "n < 2" | m where "n = 2 + m" using le_Suc_ex[of 2 n] by force
    then show "bit (push_bit 2 (drop_bit 2 v) OR drop_bit 4 (push_bit 4 (v AND 3))) n = bit v n"
      unfolding u32_masks by cases (auto simp: bit_simps dest: bit_imp_le_length)
  qed
  have o: "ucast v = x" unfolding v_def by (rule bit_word_eqI) (auto simp: bit_simps)
  note i = six_bits[OF b(1)] six_bits[OF b(2)] b64index_padding
  have "b64decode_loop (encoding ! unat (drop_bit 2 v) # encoding ! unat (push_bit 4 (v AND 3)) # 0x3d # 0x3d # []) =
    map_sum id ((@) [x]) (b64decode_loop [])"
    by (rule b64decode_step) (simp_all only: i uint_not_special b64_group_words(3)[OF z] Let_def r o not_False_eq_True)
  then show ?thesis by (simp add: b64decode_loop.simps[of "[]"])
qed


text \<open>Characters outside the alphabet are skipped inside a group, but a text that ends with one is refused.\<close>

lemma b64_skip: "b64index c = -1 \<Longrightarrow> t \<noteq> [] \<Longrightarrow> lb64decode (c # t) = lb64decode t"
  unfolding lb64decode_def
  by (simp add: b64decode_loop.simps[of "c # t"] b64decode_loop.simps[of t] numeral_eq_Suc)

lemma b64_trailing: "b64index c = -1 \<Longrightarrow> lb64decode [c] = Inl Invalid_base64"
  unfolding lb64decode_def by (simp add: b64decode_loop.simps[of "[c]"] numeral_eq_Suc)

subsection \<open>The exclusive or with a key undoes itself\<close>

lemma lxor_str_twice:
  assumes "lxor_str s key = Inr e"
  shows "lxor_str e key = Inr s"
  using assms by (auto simp: lxor_str_def xor.assoc intro!: nth_equalityI split: if_splits)

end
