(* ===== verification/Des.thy ===== *)
theory Des
  imports Crypt
begin

text \<open>
  The block cipher of \<open>lualib-src/lua-crypt.c\<close>: the tables, the key schedule, the sixteen rounds between the initial
  and the final permutation, and the two functions that encrypt and decrypt a string with padding. A read outside
  the decrypted text is the value \<^term>\<open>None\<close>.
\<close>

subsection \<open>Tables\<close>

definition SB1 :: "u32 list" where
  "SB1 = [
     0x01010400, 0x00000000, 0x00010000, 0x01010404,
     0x01010004, 0x00010404, 0x00000004, 0x00010000,
     0x00000400, 0x01010400, 0x01010404, 0x00000400,
     0x01000404, 0x01010004, 0x01000000, 0x00000004,
     0x00000404, 0x01000400, 0x01000400, 0x00010400,
     0x00010400, 0x01010000, 0x01010000, 0x01000404,
     0x00010004, 0x01000004, 0x01000004, 0x00010004,
     0x00000000, 0x00000404, 0x00010404, 0x01000000,
     0x00010000, 0x01010404, 0x00000004, 0x01010000,
     0x01010400, 0x01000000, 0x01000000, 0x00000400,
     0x01010004, 0x00010000, 0x00010400, 0x01000004,
     0x00000400, 0x00000004, 0x01000404, 0x00010404,
     0x01010404, 0x00010004, 0x01010000, 0x01000404,
     0x01000004, 0x00000404, 0x00010404, 0x01010400,
     0x00000404, 0x01000400, 0x01000400, 0x00000000,
     0x00010004, 0x00010400, 0x00000000, 0x01010004]"

definition SB2 :: "u32 list" where
  "SB2 = [
     0x80108020, 0x80008000, 0x00008000, 0x00108020,
     0x00100000, 0x00000020, 0x80100020, 0x80008020,
     0x80000020, 0x80108020, 0x80108000, 0x80000000,
     0x80008000, 0x00100000, 0x00000020, 0x80100020,
     0x00108000, 0x00100020, 0x80008020, 0x00000000,
     0x80000000, 0x00008000, 0x00108020, 0x80100000,
     0x00100020, 0x80000020, 0x00000000, 0x00108000,
     0x00008020, 0x80108000, 0x80100000, 0x00008020,
     0x00000000, 0x00108020, 0x80100020, 0x00100000,
     0x80008020, 0x80100000, 0x80108000, 0x00008000,
     0x80100000, 0x80008000, 0x00000020, 0x80108020,
     0x00108020, 0x00000020, 0x00008000, 0x80000000,
     0x00008020, 0x80108000, 0x00100000, 0x80000020,
     0x00100020, 0x80008020, 0x80000020, 0x00100020,
     0x00108000, 0x00000000, 0x80008000, 0x00008020,
     0x80000000, 0x80100020, 0x80108020, 0x00108000]"

definition SB3 :: "u32 list" where
  "SB3 = [
     0x00000208, 0x08020200, 0x00000000, 0x08020008,
     0x08000200, 0x00000000, 0x00020208, 0x08000200,
     0x00020008, 0x08000008, 0x08000008, 0x00020000,
     0x08020208, 0x00020008, 0x08020000, 0x00000208,
     0x08000000, 0x00000008, 0x08020200, 0x00000200,
     0x00020200, 0x08020000, 0x08020008, 0x00020208,
     0x08000208, 0x00020200, 0x00020000, 0x08000208,
     0x00000008, 0x08020208, 0x00000200, 0x08000000,
     0x08020200, 0x08000000, 0x00020008, 0x00000208,
     0x00020000, 0x08020200, 0x08000200, 0x00000000,
     0x00000200, 0x00020008, 0x08020208, 0x08000200,
     0x08000008, 0x00000200, 0x00000000, 0x08020008,
     0x08000208, 0x00020000, 0x08000000, 0x08020208,
     0x00000008, 0x00020208, 0x00020200, 0x08000008,
     0x08020000, 0x08000208, 0x00000208, 0x08020000,
     0x00020208, 0x00000008, 0x08020008, 0x00020200]"

definition SB4 :: "u32 list" where
  "SB4 = [
     0x00802001, 0x00002081, 0x00002081, 0x00000080,
     0x00802080, 0x00800081, 0x00800001, 0x00002001,
     0x00000000, 0x00802000, 0x00802000, 0x00802081,
     0x00000081, 0x00000000, 0x00800080, 0x00800001,
     0x00000001, 0x00002000, 0x00800000, 0x00802001,
     0x00000080, 0x00800000, 0x00002001, 0x00002080,
     0x00800081, 0x00000001, 0x00002080, 0x00800080,
     0x00002000, 0x00802080, 0x00802081, 0x00000081,
     0x00800080, 0x00800001, 0x00802000, 0x00802081,
     0x00000081, 0x00000000, 0x00000000, 0x00802000,
     0x00002080, 0x00800080, 0x00800081, 0x00000001,
     0x00802001, 0x00002081, 0x00002081, 0x00000080,
     0x00802081, 0x00000081, 0x00000001, 0x00002000,
     0x00800001, 0x00002001, 0x00802080, 0x00800081,
     0x00002001, 0x00002080, 0x00800000, 0x00802001,
     0x00000080, 0x00800000, 0x00002000, 0x00802080]"

definition SB5 :: "u32 list" where
  "SB5 = [
     0x00000100, 0x02080100, 0x02080000, 0x42000100,
     0x00080000, 0x00000100, 0x40000000, 0x02080000,
     0x40080100, 0x00080000, 0x02000100, 0x40080100,
     0x42000100, 0x42080000, 0x00080100, 0x40000000,
     0x02000000, 0x40080000, 0x40080000, 0x00000000,
     0x40000100, 0x42080100, 0x42080100, 0x02000100,
     0x42080000, 0x40000100, 0x00000000, 0x42000000,
     0x02080100, 0x02000000, 0x42000000, 0x00080100,
     0x00080000, 0x42000100, 0x00000100, 0x02000000,
     0x40000000, 0x02080000, 0x42000100, 0x40080100,
     0x02000100, 0x40000000, 0x42080000, 0x02080100,
     0x40080100, 0x00000100, 0x02000000, 0x42080000,
     0x42080100, 0x00080100, 0x42000000, 0x42080100,
     0x02080000, 0x00000000, 0x40080000, 0x42000000,
     0x00080100, 0x02000100, 0x40000100, 0x00080000,
     0x00000000, 0x40080000, 0x02080100, 0x40000100]"

definition SB6 :: "u32 list" where
  "SB6 = [
     0x20000010, 0x20400000, 0x00004000, 0x20404010,
     0x20400000, 0x00000010, 0x20404010, 0x00400000,
     0x20004000, 0x00404010, 0x00400000, 0x20000010,
     0x00400010, 0x20004000, 0x20000000, 0x00004010,
     0x00000000, 0x00400010, 0x20004010, 0x00004000,
     0x00404000, 0x20004010, 0x00000010, 0x20400010,
     0x20400010, 0x00000000, 0x00404010, 0x20404000,
     0x00004010, 0x00404000, 0x20404000, 0x20000000,
     0x20004000, 0x00000010, 0x20400010, 0x00404000,
     0x20404010, 0x00400000, 0x00004010, 0x20000010,
     0x00400000, 0x20004000, 0x20000000, 0x00004010,
     0x20000010, 0x20404010, 0x00404000, 0x20400000,
     0x00404010, 0x20404000, 0x00000000, 0x20400010,
     0x00000010, 0x00004000, 0x20400000, 0x00404010,
     0x00004000, 0x00400010, 0x20004010, 0x00000000,
     0x20404000, 0x20000000, 0x00400010, 0x20004010]"

definition SB7 :: "u32 list" where
  "SB7 = [
     0x00200000, 0x04200002, 0x04000802, 0x00000000,
     0x00000800, 0x04000802, 0x00200802, 0x04200800,
     0x04200802, 0x00200000, 0x00000000, 0x04000002,
     0x00000002, 0x04000000, 0x04200002, 0x00000802,
     0x04000800, 0x00200802, 0x00200002, 0x04000800,
     0x04000002, 0x04200000, 0x04200800, 0x00200002,
     0x04200000, 0x00000800, 0x00000802, 0x04200802,
     0x00200800, 0x00000002, 0x04000000, 0x00200800,
     0x04000000, 0x00200800, 0x00200000, 0x04000802,
     0x04000802, 0x04200002, 0x04200002, 0x00000002,
     0x00200002, 0x04000000, 0x04000800, 0x00200000,
     0x04200800, 0x00000802, 0x00200802, 0x04200800,
     0x00000802, 0x04000002, 0x04200802, 0x04200000,
     0x00200800, 0x00000000, 0x00000002, 0x04200802,
     0x00000000, 0x00200802, 0x04200000, 0x00000800,
     0x04000002, 0x04000800, 0x00000800, 0x00200002]"

definition SB8 :: "u32 list" where
  "SB8 = [
     0x10001040, 0x00001000, 0x00040000, 0x10041040,
     0x10000000, 0x10001040, 0x00000040, 0x10000000,
     0x00040040, 0x10040000, 0x10041040, 0x00041000,
     0x10041000, 0x00041040, 0x00001000, 0x00000040,
     0x10040000, 0x10000040, 0x10001000, 0x00001040,
     0x00041000, 0x00040040, 0x10040040, 0x10041000,
     0x00001040, 0x00000000, 0x00000000, 0x10040040,
     0x10000040, 0x10001000, 0x00041040, 0x00040000,
     0x00041040, 0x00040000, 0x10041000, 0x00001000,
     0x00000040, 0x10040040, 0x00001000, 0x00041040,
     0x10001000, 0x00000040, 0x10000040, 0x10040000,
     0x10040040, 0x10000000, 0x00040000, 0x10001040,
     0x00000000, 0x10041040, 0x00040040, 0x10000040,
     0x10040000, 0x10001000, 0x10001040, 0x00000000,
     0x10041040, 0x00041000, 0x00041000, 0x00001040,
     0x00001040, 0x00040040, 0x10000000, 0x10041000]"

definition LHs :: "u32 list" where
  "LHs = [
     0x00000000, 0x00000001, 0x00000100, 0x00000101,
     0x00010000, 0x00010001, 0x00010100, 0x00010101,
     0x01000000, 0x01000001, 0x01000100, 0x01000101,
     0x01010000, 0x01010001, 0x01010100, 0x01010101]"

definition RHs :: "u32 list" where
  "RHs = [
     0x00000000, 0x01000000, 0x00010000, 0x01010000,
     0x00000100, 0x01000100, 0x00010100, 0x01010100,
     0x00000001, 0x01000001, 0x00010001, 0x01010001,
     0x00000101, 0x01000101, 0x00010101, 0x01010101]"

subsection \<open>Permutations and rounds\<close>

definition GET_UINT32 :: "byte list \<Rightarrow> nat \<Rightarrow> u32" where
  "GET_UINT32 b i = be_word (take 4 (drop i b))"

definition PUT_UINT32 :: "u32 \<Rightarrow> byte list" where
  "PUT_UINT32 n = [ucast (drop_bit 24 n), ucast (drop_bit 16 n), ucast (drop_bit 8 n), ucast n]"

definition DES_IP :: "u32 \<Rightarrow> u32 \<Rightarrow> u32 \<times> u32" where
  "DES_IP X Y =
     (let T = (drop_bit 4 X XOR Y) AND 0x0F0F0F0F; Y = Y XOR T; X = X XOR push_bit 4 T;
          T = (drop_bit 16 X XOR Y) AND 0x0000FFFF; Y = Y XOR T; X = X XOR push_bit 16 T;
          T = (drop_bit 2 Y XOR X) AND 0x33333333; X = X XOR T; Y = Y XOR push_bit 2 T;
          T = (drop_bit 8 Y XOR X) AND 0x00FF00FF; X = X XOR T; Y = Y XOR push_bit 8 T;
          Y = (push_bit 1 Y OR drop_bit 31 Y) AND 0xFFFFFFFF;
          T = (X XOR Y) AND 0xAAAAAAAA; Y = Y XOR T; X = X XOR T;
          X = (push_bit 1 X OR drop_bit 31 X) AND 0xFFFFFFFF
      in (X, Y))"

definition DES_FP :: "u32 \<Rightarrow> u32 \<Rightarrow> u32 \<times> u32" where
  "DES_FP X Y =
     (let X = (push_bit 31 X OR drop_bit 1 X) AND 0xFFFFFFFF;
          T = (X XOR Y) AND 0xAAAAAAAA; X = X XOR T; Y = Y XOR T;
          Y = (push_bit 31 Y OR drop_bit 1 Y) AND 0xFFFFFFFF;
          T = (drop_bit 8 Y XOR X) AND 0x00FF00FF; X = X XOR T; Y = Y XOR push_bit 8 T;
          T = (drop_bit 2 Y XOR X) AND 0x33333333; X = X XOR T; Y = Y XOR push_bit 2 T;
          T = (drop_bit 16 X XOR Y) AND 0x0000FFFF; Y = Y XOR T; X = X XOR push_bit 16 T;
          T = (drop_bit 4 X XOR Y) AND 0x0F0F0F0F; Y = Y XOR T; X = X XOR push_bit 4 T
      in (X, Y))"

text \<open>The new value of \<open>Y\<close>, with the two words that \<open>SK\<close> points to.\<close>

definition DES_ROUND :: "u32 \<Rightarrow> u32 \<Rightarrow> u32 \<Rightarrow> u32 \<Rightarrow> u32" where
  "DES_ROUND sk0 sk1 X Y =
     (let T = sk0 XOR X;
          Y = Y XOR (SB8 ! unat (T AND 0x3F) XOR SB6 ! unat (drop_bit 8 T AND 0x3F) XOR
                     SB4 ! unat (drop_bit 16 T AND 0x3F) XOR SB2 ! unat (drop_bit 24 T AND 0x3F));
          T = sk1 XOR (push_bit 28 X OR drop_bit 4 X);
          Y = Y XOR (SB7 ! unat (T AND 0x3F) XOR SB5 ! unat (drop_bit 8 T AND 0x3F) XOR
                     SB3 ! unat (drop_bit 16 T AND 0x3F) XOR SB1 ! unat (drop_bit 24 T AND 0x3F))
      in Y)"

subsection \<open>Key schedule\<close>

definition des_PC1 :: "byte list \<Rightarrow> u32 \<times> u32" where
  "des_PC1 key =
     (let X = GET_UINT32 key 0; Y = GET_UINT32 key 4;
          T = (drop_bit 4 Y XOR X) AND 0x0F0F0F0F; X = X XOR T; Y = Y XOR push_bit 4 T;
          T = (Y XOR X) AND 0x10101010; X = X XOR T; Y = Y XOR T;
          X = push_bit 3 (LHs ! unat (X AND 0xF)) OR push_bit 2 (LHs ! unat (drop_bit 8 X AND 0xF))
          OR push_bit 1 (LHs ! unat (drop_bit 16 X AND 0xF)) OR (LHs ! unat (drop_bit 24 X AND 0xF))
          OR push_bit 7 (LHs ! unat (drop_bit 5 X AND 0xF)) OR push_bit 6 (LHs ! unat (drop_bit 13 X AND 0xF))
          OR push_bit 5 (LHs ! unat (drop_bit 21 X AND 0xF)) OR push_bit 4 (LHs ! unat (drop_bit 29 X AND 0xF));
          Y = push_bit 3 (RHs ! unat (drop_bit 1 Y AND 0xF)) OR push_bit 2 (RHs ! unat (drop_bit 9 Y AND 0xF))
          OR push_bit 1 (RHs ! unat (drop_bit 17 Y AND 0xF)) OR (RHs ! unat (drop_bit 25 Y AND 0xF))
          OR push_bit 7 (RHs ! unat (drop_bit 4 Y AND 0xF)) OR push_bit 6 (RHs ! unat (drop_bit 12 Y AND 0xF))
          OR push_bit 5 (RHs ! unat (drop_bit 20 Y AND 0xF)) OR push_bit 4 (RHs ! unat (drop_bit 28 Y AND 0xF))
      in (X AND 0x0FFFFFFF, Y AND 0x0FFFFFFF))"

definition des_rotate :: "nat \<Rightarrow> u32 \<Rightarrow> u32" where
  "des_rotate i X =
     (if i < 2 \<or> i = 8 \<or> i = 15 then (push_bit 1 X OR drop_bit 27 X) AND 0x0FFFFFFF
      else (push_bit 2 X OR drop_bit 26 X) AND 0x0FFFFFFF)"

definition des_subkey :: "u32 \<Rightarrow> u32 \<Rightarrow> u32 list" where
  "des_subkey X Y =
     [  ((push_bit 4 X) AND 0x24000000) OR ((push_bit 28 X) AND 0x10000000) OR ((push_bit 14 X) AND 0x08000000)
        OR ((push_bit 18 X) AND 0x02080000) OR ((push_bit 6 X) AND 0x01000000) OR ((push_bit 9 X) AND 0x00200000)
        OR ((drop_bit 1 X) AND 0x00100000) OR ((push_bit 10 X) AND 0x00040000) OR ((push_bit 2 X) AND 0x00020000)
        OR ((drop_bit 10 X) AND 0x00010000) OR ((drop_bit 13 Y) AND 0x00002000) OR ((drop_bit 4 Y) AND 0x00001000)
        OR ((push_bit 6 Y) AND 0x00000800) OR ((drop_bit 1 Y) AND 0x00000400) OR ((drop_bit 14 Y) AND 0x00000200)
        OR (Y AND 0x00000100) OR ((drop_bit 5 Y) AND 0x00000020) OR ((drop_bit 10 Y) AND 0x00000010)
        OR ((drop_bit 3 Y) AND 0x00000008) OR ((drop_bit 18 Y) AND 0x00000004) OR ((drop_bit 26 Y) AND 0x00000002)
        OR ((drop_bit 24 Y) AND 0x00000001),
        ((push_bit 15 X) AND 0x20000000) OR ((push_bit 17 X) AND 0x10000000) OR ((push_bit 10 X) AND 0x08000000)
        OR ((push_bit 22 X) AND 0x04000000) OR ((drop_bit 2 X) AND 0x02000000) OR ((push_bit 1 X) AND 0x01000000)
        OR ((push_bit 16 X) AND 0x00200000) OR ((push_bit 11 X) AND 0x00100000) OR ((push_bit 3 X) AND 0x00080000)
        OR ((drop_bit 6 X) AND 0x00040000) OR ((push_bit 15 X) AND 0x00020000) OR ((drop_bit 4 X) AND 0x00010000)
        OR ((drop_bit 2 Y) AND 0x00002000) OR ((push_bit 8 Y) AND 0x00001000) OR ((drop_bit 14 Y) AND 0x00000808)
        OR ((drop_bit 9 Y) AND 0x00000400) OR (Y AND 0x00000200) OR ((push_bit 7 Y) AND 0x00000100)
        OR ((drop_bit 7 Y) AND 0x00000020) OR ((drop_bit 3 Y) AND 0x00000011) OR ((push_bit 2 Y) AND 0x00000004)
        OR ((drop_bit 21 Y) AND 0x00000002)]"

definition des_main_ks :: "byte list \<Rightarrow> u32 list" where
  "des_main_ks key =
     (let (X, Y) = des_PC1 key;
          (X, Y, SK) = fold (\<lambda>i (X, Y, SK). let X = des_rotate i X; Y = des_rotate i Y in (X, Y, SK @ des_subkey X Y))
                            [0..<16] (X, Y, [])
      in SK)"

subsection \<open>Blocks\<close>

text \<open>The calls \<open>DES_ROUND( Y, X ); DES_ROUND( X, Y )\<close> of line \<open>i\<close>, with their four words of the schedule.\<close>

definition des_two_rounds :: "u32 list \<Rightarrow> nat \<Rightarrow> u32 \<times> u32 \<Rightarrow> u32 \<times> u32" where
  "des_two_rounds SK i = (\<lambda>(X, Y).
     let X = DES_ROUND (SK ! (4 * i)) (SK ! (4 * i + 1)) Y X;
         Y = DES_ROUND (SK ! (4 * i + 2)) (SK ! (4 * i + 3)) X Y
     in (X, Y))"

definition des_crypt :: "u32 list \<Rightarrow> byte list \<Rightarrow> byte list" where
  "des_crypt SK input =
     (let X = GET_UINT32 input 0; Y = GET_UINT32 input 4;
          (X, Y) = DES_IP X Y;
          (X, Y) = fold (des_two_rounds SK) [0..<8] (X, Y);
          (Y, X) = DES_FP Y X
      in PUT_UINT32 Y @ PUT_UINT32 X)"

subsection \<open>Strings\<close>

definition des_key :: "byte list \<Rightarrow> u32 list lua" where
  "des_key key = (if length key \<noteq> 8 then Inl (Invalid_key_size (length key)) else Inr (des_main_ks key))"

text \<open>The block that ends the text: what is left of it, a byte \<open>0x80\<close> and zeros.\<close>

definition des_tail :: "byte list \<Rightarrow> byte list" where
  "des_tail t = map (\<lambda>j. if j < length t then t ! j else if j = length t then 0x80 else 0) [0..<8]"

fun encode_loop :: "u32 list \<Rightarrow> byte list \<Rightarrow> byte list" where
  "encode_loop SK t =
     (if 8 \<le> length t then des_crypt SK (take 8 t) @ encode_loop SK (drop 8 t) else des_crypt SK (des_tail t))"

definition ldesencode :: "byte list \<Rightarrow> byte list \<Rightarrow> byte list lua" where
  "ldesencode key t = (case des_key key of Inl e \<Rightarrow> Inl e | Inr SK \<Rightarrow> Inr (encode_loop SK t))"

text \<open>The subkeys in the opposite order, pair by pair.\<close>

definition reverse_keys :: "u32 list \<Rightarrow> u32 list" where
  "reverse_keys ESK = map (\<lambda>k. if even k then ESK ! (30 - k) else ESK ! (31 - (k - 1))) [0..<32]"

fun decode_loop :: "u32 list \<Rightarrow> byte list \<Rightarrow> byte list" where
  "decode_loop SK t = (if t \<noteq> [] then des_crypt SK (take 8 t) @ decode_loop SK (drop 8 t) else [])"

text \<open>
  The padding loop. The test \<open>i >= textsz - 8\<close> compares an \<open>int\<close> with a \<open>size_t\<close>, so a negative \<open>i\<close> is a large number
  and passes it.
\<close>

function unpad_loop :: "byte list \<Rightarrow> int \<Rightarrow> nat \<Rightarrow> nat lua option" where
  "unpad_loop buffer i padding =
     (if of_nat (length buffer) - 8 \<le> (word_of_int i :: u64) then
        if i < 0 \<or> int (length buffer) \<le> i then None
        else if buffer ! nat i = 0 then unpad_loop buffer (i - 1) (padding + 1)
        else if buffer ! nat i = 0x80 then Some (Inr padding)
        else Some (Inl Invalid_des_text)
      else Some (Inr padding))"
  by auto
termination by (relation "measure (\<lambda>(buffer, i, padding). nat (i + 1))") auto

definition ldesdecode :: "byte list \<Rightarrow> byte list \<Rightarrow> byte list lua option" where
  "ldesdecode key t =
     (case des_key key of
        Inl e \<Rightarrow> Some (Inl e)
      | Inr ESK \<Rightarrow>
          let SK = reverse_keys ESK; textsz = length t
          in if textsz mod 8 \<noteq> 0 \<or> textsz = 0 then Some (Inl (Invalid_des_length textsz))
             else do {
               let buffer = decode_loop SK t;
               r \<leftarrow> unpad_loop buffer (int textsz - 1) 1;
               Some (case r of
                   Inl e \<Rightarrow> Inl e
                 | Inr padding \<Rightarrow> if padding > 8 then Inl Invalid_des_text else Inr (take (textsz - padding) buffer))
             })"

declare encode_loop.simps [simp del] decode_loop.simps [simp del] unpad_loop.simps [simp del]

subsection \<open>The permutations are inverse to each other\<close>

text \<open>The exchange of the bits of \<open>m\<close> between a word and another one shifted by \<open>n\<close>; both permutations consist of it.\<close>

definition dswap :: "nat \<Rightarrow> u32 \<Rightarrow> u32 \<times> u32 \<Rightarrow> u32 \<times> u32" where
  "dswap n m = (\<lambda>(A, B). let T = (drop_bit n A XOR B) AND m in (A XOR push_bit n T, B XOR T))"

lemma dswap_twice:
  assumes "take_bit (32 - n) m = m" "n < 32"
  shows "dswap n m (dswap n m (A, B)) = (A, B)"
proof -
  let ?T = "(drop_bit n A XOR B) AND m"
  have k: "n + k < 32" if "bit m k" for k
  proof -
    have "k < 32 - n" using that assms(1) by (metis bit_take_bit_iff)
    then show ?thesis by linarith
  qed
  have "bit (drop_bit n (push_bit n ?T)) k = bit ?T k" for k
    using k[of k] by (auto simp: bit_simps)
  then have e: "drop_bit n (push_bit n ?T) = ?T" by (intro bit_word_eqI) simp
  have t: "(drop_bit n (A XOR push_bit n ?T) XOR (B XOR ?T)) AND m = ?T"
    unfolding drop_bit_xor e by (simp add: ac_simps)
  show ?thesis
    unfolding dswap_def prod.case Let_def t by (simp only: xor.assoc xor_self_eq xor.right_neutral)
qed

lemma dswaps:
  "dswap 4 0x0F0F0F0F (dswap 4 0x0F0F0F0F p) = p" "dswap 16 0x0000FFFF (dswap 16 0x0000FFFF p) = p"
  "dswap 2 0x33333333 (dswap 2 0x33333333 p) = p" "dswap 8 0x00FF00FF (dswap 8 0x00FF00FF p) = p"
  "dswap 0 0xAAAAAAAA (dswap 0 0xAAAAAAAA p) = p"
  by (cases p, simp add: dswap_twice)+

lemma and_all_ones: "(w :: u32) AND 0xFFFFFFFF = w"
proof -
  have m: "(0xFFFFFFFF :: u32) = mask 32" by (simp add: mask_numeral)
  show ?thesis unfolding m by (rule bit_word_eqI) (auto simp: bit_simps)
qed

lemma rol_inverse:
  assumes "a + b = 32" "0 < a" "0 < b"
  shows "rol (rol w a) b = w"
proof (rule bit_word_eqI)
  fix n assume "n < LENGTH(32)"
  then have n: "n < 32" by simp
  have "((n + (32 - b)) mod 32 + (32 - a)) mod 32 = (n + (32 - b) + (32 - a)) mod 32" by (rule mod_add_left_eq)
  also have "n + (32 - b) + (32 - a) = n + 32" using assms by linarith
  finally have "((n + (32 - b)) mod 32 + (32 - a)) mod 32 = n" using n by simp
  then show "bit (rol (rol w a) b) n = bit w n" using n assms by (simp add: bit_rol)
qed

lemma rol_1_31: "rol (rol w 1) 31 = w" "rol (rol w 31) 1 = w"
  by (rule rol_inverse; simp)+

lemma dswap_let:
  "(let T = (drop_bit n A XOR B) AND m; B = B XOR T; A = A XOR push_bit n T in f A B) = (case dswap n m (A, B) of (A, B) \<Rightarrow> f A B)"
  "(let T = (A XOR B) AND m; B = B XOR T; A = A XOR T in f A B) = (case dswap 0 m (A, B) of (A, B) \<Rightarrow> f A B)"
  "(let T = (A XOR B) AND m; A = A XOR T; B = B XOR T in f A B) = (case dswap 0 m (A, B) of (A, B) \<Rightarrow> f A B)"
  by (simp_all add: dswap_def Let_def)

lemma rol_let:
  "(push_bit 1 w OR drop_bit 31 w) AND 0xFFFFFFFF = rol w 1" "(push_bit 31 w OR drop_bit 1 w) AND 0xFFFFFFFF = rol w 31"
  by (simp_all add: rol_def and_all_ones)

lemma DES_IP_eq:
  "DES_IP X Y =
     (let (X, Y) = dswap 16 0x0000FFFF (dswap 4 0x0F0F0F0F (X, Y));
          (Y, X) = dswap 8 0x00FF00FF (dswap 2 0x33333333 (Y, X));
          (X, Y) = dswap 0 0xAAAAAAAA (X, rol Y 1)
      in (rol X 1, Y))"
  unfolding DES_IP_def dswap_let rol_let by (simp only: Let_def split: prod.splits) simp

lemma DES_FP_eq:
  "DES_FP X Y =
     (let (X, Y) = dswap 0 0xAAAAAAAA (rol X 31, Y);
          (Y, X) = dswap 2 0x33333333 (dswap 8 0x00FF00FF (rol Y 31, X));
          (X, Y) = dswap 4 0x0F0F0F0F (dswap 16 0x0000FFFF (X, Y))
      in (X, Y))"
  unfolding DES_FP_def dswap_let rol_let by (simp only: Let_def split: prod.splits) simp

lemma DES_FP_IP: "DES_IP X Y = (X', Y') \<Longrightarrow> DES_FP X' Y' = (X, Y)"
proof -
  assume ip: "DES_IP X Y = (X', Y')"
  obtain a b where 1: "dswap 16 0x0000FFFF (dswap 4 0x0F0F0F0F (X, Y)) = (a, b)" by fastforce
  obtain d c where 2: "dswap 8 0x00FF00FF (dswap 2 0x33333333 (b, a)) = (d, c)" by fastforce
  obtain e f where 3: "dswap 0 0xAAAAAAAA (c, rol d 1) = (e, f)" by fastforce
  have "X' = rol e 1" "Y' = f" using ip unfolding DES_IP_eq Let_def 1 prod.case 2 3 by simp_all
  moreover have "dswap 0 0xAAAAAAAA (e, f) = (c, rol d 1)" by (simp only: 3[symmetric] dswaps)
  moreover have "dswap 2 0x33333333 (dswap 8 0x00FF00FF (d, c)) = (b, a)" by (simp only: 2[symmetric] dswaps)
  moreover have "dswap 4 0x0F0F0F0F (dswap 16 0x0000FFFF (a, b)) = (X, Y)" by (simp only: 1[symmetric] dswaps)
  ultimately show ?thesis by (simp only: DES_FP_eq rol_1_31 Let_def prod.case)
qed

lemma DES_IP_FP: "DES_FP X Y = (X', Y') \<Longrightarrow> DES_IP X' Y' = (X, Y)"
proof -
  assume fp: "DES_FP X Y = (X', Y')"
  obtain c d where 1: "dswap 0 0xAAAAAAAA (rol X 31, Y) = (c, d)" by fastforce
  obtain b a where 2: "dswap 2 0x33333333 (dswap 8 0x00FF00FF (rol d 31, c)) = (b, a)" by fastforce
  have 3: "dswap 4 0x0F0F0F0F (dswap 16 0x0000FFFF (a, b)) = (X', Y')" using fp by (simp add: DES_FP_eq Let_def 1 2 split: prod.splits)
  have "dswap 0 0xAAAAAAAA (c, d) = (rol X 31, Y)" by (simp only: 1[symmetric] dswaps)
  moreover have "dswap 8 0x00FF00FF (dswap 2 0x33333333 (b, a)) = (rol d 31, c)" by (simp only: 2[symmetric] dswaps)
  moreover have "dswap 16 0x0000FFFF (dswap 4 0x0F0F0F0F (X', Y')) = (a, b)" by (simp only: 3[symmetric] dswaps)
  ultimately show ?thesis by (simp only: DES_IP_eq rol_1_31 Let_def prod.case)
qed

subsection \<open>The rounds in the opposite order\<close>

lemma DES_ROUND_twice: "DES_ROUND a b X (DES_ROUND a b X Y) = Y"
  by (simp add: DES_ROUND_def Let_def xor.assoc xor.left_commute)

lemma reverse_keys_nth:
  assumes "i < 8"
  shows "reverse_keys K ! (4 * i) = K ! (4 * (7 - i) + 2)" "reverse_keys K ! (4 * i + 1) = K ! (4 * (7 - i) + 3)"
    "reverse_keys K ! (4 * i + 2) = K ! (4 * (7 - i))" "reverse_keys K ! (4 * i + 3) = K ! (4 * (7 - i) + 1)"
proof -
  have i: "4 * i + k < 32" if "k < 4" for k using assms that by linarith
  have "30 - 4 * i = 4 * (7 - i) + 2" "31 - (4 * i + 1 - 1) = 4 * (7 - i) + 3"
    "30 - (4 * i + 2) = 4 * (7 - i)" "31 - (4 * i + 3 - 1) = 4 * (7 - i) + 1"
    using assms by auto
  then show "reverse_keys K ! (4 * i) = K ! (4 * (7 - i) + 2)" "reverse_keys K ! (4 * i + 1) = K ! (4 * (7 - i) + 3)"
    "reverse_keys K ! (4 * i + 2) = K ! (4 * (7 - i))" "reverse_keys K ! (4 * i + 3) = K ! (4 * (7 - i) + 1)"
    using i[of 0] i[of 1] i[of 2] i[of 3] by (simp_all add: reverse_keys_def del: diff_Suc_1)
qed

lemma two_rounds_back: "i < 8 \<Longrightarrow> des_two_rounds (reverse_keys K) i (prod.swap (des_two_rounds K (7 - i) st)) = prod.swap st"
  by (cases st) (simp only: des_two_rounds_def Let_def prod.case swap_simp reverse_keys_nth DES_ROUND_twice)

lemma rounds_back: "fold (des_two_rounds (reverse_keys K)) [0..<8] (prod.swap (fold (des_two_rounds K) [0..<8] st)) = prod.swap st"
proof -
  have "n \<le> 8 \<Longrightarrow> fold (des_two_rounds (reverse_keys K)) [0..<n] (prod.swap (fold (des_two_rounds K) [0..<8] st)) =
    prod.swap (fold (des_two_rounds K) [0..<8 - n] st)" for n
  proof (induction n)
    case (Suc n)
    then have "8 - n = Suc (7 - n)" by simp
    then show ?case using Suc two_rounds_back[of n K "fold (des_two_rounds K) [0..<7 - n] st"] by simp
  qed simp
  from this[of 8] show ?thesis by simp
qed

lemma PUT_word_be: "PUT_UINT32 n = word_be n"
  by (simp add: PUT_UINT32_def word_be_def)

lemma length_des_crypt [simp]: "length (des_crypt K b) = 8"
  by (simp add: des_crypt_def PUT_word_be Let_def split: prod.splits)

lemma des_crypt_back:
  assumes "length b = 8"
  shows "des_crypt (reverse_keys K) (des_crypt K b) = b"
proof -
  let ?X = "GET_UINT32 b 0" and ?Y = "GET_UINT32 b 4"
  obtain X1 Y1 where ip: "DES_IP ?X ?Y = (X1, Y1)" by fastforce
  obtain X2 Y2 where f: "fold (des_two_rounds K) [0..<8] (X1, Y1) = (X2, Y2)" by fastforce
  obtain Y3 X3 where fp: "DES_FP Y2 X2 = (Y3, X3)" by fastforce
  have e: "des_crypt K b = word_be Y3 @ word_be X3" using ip f fp by (simp add: des_crypt_def PUT_word_be Let_def)
  have g: "GET_UINT32 (word_be Y3 @ word_be X3) 0 = Y3" "GET_UINT32 (word_be Y3 @ word_be X3) 4 = X3"
    by (simp_all add: GET_UINT32_def be_word_be)
  have r: "fold (des_two_rounds (reverse_keys K)) [0..<8] (Y2, X2) = (Y1, X1)" using rounds_back[of K "(X1, Y1)"] f by simp
  have "des_crypt (reverse_keys K) (des_crypt K b) = word_be ?X @ word_be ?Y"
    unfolding e using g DES_IP_FP[OF fp] r DES_FP_IP[OF ip] by (simp add: des_crypt_def PUT_word_be Let_def)
  also have "\<dots> = b" using assms by (simp add: GET_UINT32_def word_be_be)
  finally show ?thesis .
qed

subsection \<open>Decrypting gives the text back\<close>

definition des_padded :: "byte list \<Rightarrow> byte list" where
  "des_padded t = t @ 0x80 # replicate (7 - length t mod 8) 0"

lemma des_tail_eq: "length t < 8 \<Longrightarrow> des_tail t = des_padded t"
  by (rule nth_equalityI) (auto simp: des_tail_def des_padded_def nth_append nth_Cons split: nat.splits)

lemma length_des_padded: "length (des_padded t) = 8 * (length t div 8 + 1)"
proof -
  have "length (des_padded t) = length t + 1 + (7 - length t mod 8)" by (simp add: des_padded_def)
  also have "\<dots> = 8 * (length t div 8 + 1)" by presburger
  finally show ?thesis .
qed

lemma decode_block: "length b = 8 \<Longrightarrow> decode_loop K (b @ t) = des_crypt K b @ decode_loop K t"
  using decode_loop.simps[of K "b @ t"] by auto

lemma encode_blocks: "decode_loop (reverse_keys K) (encode_loop K t) = des_padded t"
proof (induction K t rule: encode_loop.induct)
  case (1 K t)
  show ?case
  proof (cases "8 \<le> length t")
    case True
    have "des_padded t = take 8 t @ des_padded (drop 8 t)"
      using True by (simp add: des_padded_def le_mod_geq)
    then show ?thesis using 1[OF True] True by (simp add: encode_loop.simps[of K t] decode_block des_crypt_back)
  next
    case False
    then have "length (des_padded t) = 8" by (simp add: length_des_padded)
    then show ?thesis
      using False decode_block[of "des_crypt K (des_padded t)" "reverse_keys K" "[]"]
      by (simp add: encode_loop.simps[of K t] des_tail_eq des_crypt_back decode_loop.simps[of _ "[]"])
  qed
qed

lemma length_encode_loop: "length (encode_loop K t) = 8 * (length t div 8 + 1)"
proof (induction K t rule: encode_loop.induct)
  case (1 K t)
  then show ?case by (cases "8 \<le> length t") (simp_all add: encode_loop.simps[of K t] le_div_geq)
qed

text \<open>The loop walks over the zeros that end the text, which are fewer than eight, and stops at the byte \<open>0x80\<close>.\<close>

lemma unpad_guard:
  assumes "8 \<le> n" "n < 2 ^ 63" "m < 2 ^ 63"
  shows "of_nat n - 8 \<le> (word_of_int (int m) :: u64) \<longleftrightarrow> n - 8 \<le> m"
proof -
  have "(of_nat n - 8 :: u64) = of_nat (n - 8)" using assms(1) by (simp add: of_nat_diff)
  then show ?thesis using assms by (simp add: word_le_nat_alt unat_of_nat del: of_nat_diff)
qed

lemma unpad_zeros:
  assumes "k \<le> 7" "length b + k + 1 < 2 ^ 63" "7 \<le> length b + k"
  shows "j \<le> k \<Longrightarrow> unpad_loop (b @ 0x80 # replicate k 0) (int (length b + j)) (1 + (k - j)) = Some (Inr (k + 1))"
proof (induction j)
  case 0
  have "of_nat (length b + k + 1) - 8 \<le> (word_of_int (int (length b + 0)) :: u64)"
    using unpad_guard[of "length b + k + 1" "length b + 0"] assms by linarith
  then show ?case by (simp add: unpad_loop.simps nth_append)
next
  case (Suc j)
  have "of_nat (length b + k + 1) - 8 \<le> (word_of_int (int (length b + Suc j)) :: u64)"
    using unpad_guard[of "length b + k + 1" "length b + Suc j"] assms Suc.prems by linarith
  moreover have "1 + (k - Suc j) + 1 = 1 + (k - j)" "(b @ 0x80 # replicate k 0) ! (length b + Suc j) = 0"
    using Suc.prems by (simp_all add: nth_append)
  ultimately show ?case
    using Suc unpad_loop.simps[of "b @ 0x80 # replicate k 0" "int (length b + Suc j)" "1 + (k - Suc j)"] by (simp add: nat_add_distrib)
qed

text \<open>
  C20. DES: \<open>ldesencode\<close> accepts every text with a key of eight bytes, and \<open>ldesdecode\<close> with the same key gives the
  text back, whatever its length and its last bytes are.
\<close>

theorem des_roundtrip:
  assumes "length key = 8" "length t < 2 ^ 31"
  shows "\<exists>c. ldesencode key t = Inr c \<and> ldesdecode key c = Some (Inr t)"
proof -
  let ?K = "des_main_ks key"
  let ?c = "encode_loop ?K t"
  define k where "k = 7 - length t mod 8"
  have p: "decode_loop (reverse_keys ?K) ?c = t @ 0x80 # replicate k 0" by (simp add: encode_blocks des_padded_def k_def)
  have lc: "length ?c = length t + k + 1"
    using length_encode_loop[of ?K t] length_des_padded[of t] by (simp add: des_padded_def k_def)
  have c: "length ?c mod 8 = 0" "length ?c \<noteq> 0" by (simp_all add: length_encode_loop)
  have i: "int (length ?c) - 1 = int (length t + k)" using lc by simp
  have "k \<le> 7" "7 \<le> length t + k" by (simp_all add: k_def)
  then have "unpad_loop (t @ 0x80 # replicate k 0) (int (length ?c) - 1) 1 = Some (Inr (k + 1))"
    unfolding i using unpad_zeros[of k t k] assms(2) by simp
  then have "ldesdecode key ?c = Some (Inr t)"
    using c assms(1) \<open>k \<le> 7\<close> p lc by (simp add: ldesdecode_def des_key_def Let_def)
  then show ?thesis using assms(1) by (simp add: ldesencode_def des_key_def)
qed

theorem des_roundtrip_witness:
  "let key = [1, 2, 3, 4, 5, 6, 7, 8]; t = [0x68, 0x69, 0, 0]
   in length key = 8 \<and> length t < 2 ^ 31 \<and> (\<exists>c. ldesencode key t = Inr c \<and> ldesdecode key c = Some (Inr t))"
  using des_roundtrip[of "[1, 2, 3, 4, 5, 6, 7, 8]" "[0x68, 0x69, 0, 0]"] by simp

text \<open>
  A single block that decrypts to zeros is not refused: the test of the loop never fails for eight bytes of text, and
  the loop goes on to read in front of the buffer.
\<close>

lemma unpad_zero_block: "k < 8 \<Longrightarrow> unpad_loop (replicate 8 0) (int k) p = None"
proof (induction k arbitrary: p)
  case 0
  then show ?case by (simp add: unpad_loop.simps[of _ 0] unpad_loop.simps[of _ "-1"])
next
  case (Suc k)
  then show ?case by (simp add: unpad_loop.simps[of _ "1 + int k"] nat_add_distrib)
qed

lemma ldesdecode_reads_outside:
  assumes "length key = 8"
  shows "ldesdecode key (des_crypt (des_main_ks key) (replicate 8 0)) = None"
proof -
  let ?c = "des_crypt (des_main_ks key) (replicate 8 0)"
  have "decode_loop (reverse_keys (des_main_ks key)) ?c = replicate 8 0"
    using decode_block[of ?c "reverse_keys (des_main_ks key)" "[]"] by (simp add: des_crypt_back decode_loop.simps[of _ "[]"])
  then show ?thesis
    using assms unpad_zero_block[of 7 1] by (simp add: ldesdecode_def des_key_def Let_def)
qed

end
