(* ===== verification/Node.thy ===== *)
theory Node
  imports Handle Timer Cstring
begin

text \<open>
  The node, \<open>skynet-src/skynet_server.c\<close>, with the parts of \<open>skynet_handle.c\<close> that count references,
  \<open>skynet_error.c\<close>, \<open>skynet_harbor.c\<close>, \<open>skynet_env.c\<close> and \<open>skynet_log.c\<close>: service contexts and their
  reference counts, sending, and the commands of a service.

  The state extends the queues' state by a heap of contexts, the handle table, the timer, the
  environment and a heap of message data. Addresses come from one counter, so a new block never
  aliases an old one. \<^term>\<open>None\<close> is a failed assertion or a wild dereference; in
  particular every use of a freed context is a fault. Calls out of the node, on modules and files, are
  appended to a trace. Each operation runs without interference here; the steps that
  worker threads interleave are those of the theory Node_Run.
\<close>

section \<open>Data\<close>

record skynet_context =
  cx_mod :: nat
  cx_instance :: nat
  cx_cb :: bool
  cx_queue :: nat
  cx_logfile :: "nat option"
  cx_result :: "byte list"
  cx_handle :: u32
  cx_session_id :: u32
  cx_ref :: int
  cx_init :: bool
  cx_endless :: bool

record remote_message =
  rm_name :: "byte list"
  rm_handle :: u32
  rm_message :: "nat option"
  rm_sz :: u64

datatype payload = Raw "byte list" | Rmsg remote_message

datatype node_out =
    Inst_Release nat nat
  | Inst_Signal nat nat int
  | File_Close nat

record node = mq_globals +
  nd_ctx :: "nat \<Rightarrow> skynet_context option"
  nd_hs :: handle_storage
  nd_total :: int
  nd_monitor_exit :: u32
  nd_harbor :: u32
  nd_remote :: "nat option"
  nd_logger :: u32
  nd_env :: "byte list \<Rightarrow> byte list option"
  nd_timer :: timer
  nd_data :: "nat \<Rightarrow> payload option"
  nd_brk :: nat
  nd_out :: "node_out list"

definition MESSAGE_TYPE_MASK :: u64 where "MESSAGE_TYPE_MASK = 0x00FFFFFFFFFFFFFF"
definition GLOBALNAME_LENGTH :: nat where "GLOBALNAME_LENGTH = 16"

section \<open>Memory\<close>

definition out :: "node_out \<Rightarrow> node \<Rightarrow> node" where
  "out e s = s\<lparr>nd_out := nd_out s @ [e]\<rparr>"

definition data_new :: "payload \<Rightarrow> node \<Rightarrow> nat \<times> node" where
  "data_new p s = (nd_brk s, s\<lparr>nd_data := (nd_data s)(nd_brk s \<mapsto> p), nd_brk := nd_brk s + 1\<rparr>)"

definition data_free :: "nat option \<Rightarrow> node \<Rightarrow> node" where
  "data_free d s = (case d of None \<Rightarrow> s | Some a \<Rightarrow> s\<lparr>nd_data := (nd_data s)(a := None)\<rparr>)"

definition ctx_set :: "nat \<Rightarrow> skynet_context \<Rightarrow> node \<Rightarrow> node" where
  "ctx_set c x s = s\<lparr>nd_ctx := (nd_ctx s)(c \<mapsto> x)\<rparr>"

text \<open>\<open>skynet_context_handle\<close> on the contexts of the table.\<close>

definition ctx_handle :: "node \<Rightarrow> nat \<Rightarrow> u32" where
  "ctx_handle s c = (case nd_ctx s c of None \<Rightarrow> 0 | Some x \<Rightarrow> cx_handle x)"

section \<open>References\<close>

definition skynet_context_total :: "node \<Rightarrow> int" where
  "skynet_context_total s = nd_total s"

definition skynet_context_grab :: "nat \<Rightarrow> node \<Rightarrow> node option" where
  "skynet_context_grab c s = do {
     x \<leftarrow> nd_ctx s c;
     Some (ctx_set c (x\<lparr>cx_ref := cx_ref x + 1\<rparr>) s)
   }"

definition skynet_context_reserve :: "nat \<Rightarrow> node \<Rightarrow> node option" where
  "skynet_context_reserve c s = do {
     s' \<leftarrow> skynet_context_grab c s;
     Some (s'\<lparr>nd_total := nd_total s' - 1\<rparr>)
   }"

definition delete_context :: "nat \<Rightarrow> node \<Rightarrow> node option" where
  "delete_context c s = do {
     x \<leftarrow> nd_ctx s c;
     let s1 = (case cx_logfile x of None \<Rightarrow> s | Some f \<Rightarrow> out (File_Close f) s);
     let s2 = out (Inst_Release (cx_mod x) (cx_instance x)) s1;
     s3 \<leftarrow> skynet_mq_mark_release (cx_queue x) s2;
     Some (s3\<lparr>nd_ctx := (nd_ctx s3)(c := None), nd_total := nd_total s3 - 1\<rparr>)
   }"

definition skynet_context_release :: "nat \<Rightarrow> node \<Rightarrow> (nat option \<times> node) option" where
  "skynet_context_release c s = do {
     x \<leftarrow> nd_ctx s c;
     let s1 = ctx_set c (x\<lparr>cx_ref := cx_ref x - 1\<rparr>) s;
     if cx_ref x - 1 = 0 then do {
       s2 \<leftarrow> delete_context c s1;
       Some (None, s2)
     }
     else Some (Some c, s1)
   }"

text \<open>The context in the slot of a handle is read to compare its handle.\<close>

definition slot_deref :: "u32 \<Rightarrow> node \<Rightarrow> unit option" where
  "slot_deref h s =
     (case hs_slot (nd_hs s) ! slot_hash (hs_slot_size (nd_hs s)) h of
        None \<Rightarrow> Some ()
      | Some c \<Rightarrow> assert_opt (nd_ctx s c \<noteq> None))"

definition skynet_handle_grab :: "u32 \<Rightarrow> node \<Rightarrow> (nat option \<times> node) option" where
  "skynet_handle_grab h s = do {
     _ \<leftarrow> slot_deref h s;
     case handle_find (ctx_handle s) (nd_hs s) h of
       None \<Rightarrow> Some (None, s)
     | Some c \<Rightarrow> do { s' \<leftarrow> skynet_context_grab c s; Some (Some c, s') }
   }"

definition skynet_handle_retire :: "u32 \<Rightarrow> node \<Rightarrow> (nat \<times> node) option" where
  "skynet_handle_retire h s = do {
     _ \<leftarrow> slot_deref h s;
     (r, hs) \<leftarrow> handle_remove (ctx_handle s) h (nd_hs s);
     let s1 = s\<lparr>nd_hs := hs\<rparr>;
     case r of
       None \<Rightarrow> Some (0, s1)
     | Some c \<Rightarrow> do {
         (_, s2) \<leftarrow> skynet_context_release c s1;
         Some (1, s2)
       }
   }"

text \<open>One round of \<open>skynet_handle_retireall\<close> over the slots, and the rounds until nothing is retired.\<close>

fun retire_slots :: "nat list \<Rightarrow> node \<Rightarrow> (nat \<times> node) option" where
  "retire_slots [] s = Some (0, s)"
| "retire_slots (i # is) s = do {
     h \<leftarrow> (case hs_slot (nd_hs s) ! i of
            None \<Rightarrow> Some 0
          | Some c \<Rightarrow> map_option cx_handle (nd_ctx s c));
     (r, s1) \<leftarrow> (if h \<noteq> 0 then skynet_handle_retire h s else Some (0, s));
     (n, s2) \<leftarrow> retire_slots is s1;
     Some (r + n, s2)
   }"

partial_function (option) skynet_handle_retireall :: "node \<Rightarrow> node option" where
  "skynet_handle_retireall s = do {
     (n, s1) \<leftarrow> retire_slots [0..<hs_slot_size (nd_hs s)] s;
     if n = 0 then Some s1 else skynet_handle_retireall s1
   }"

declare skynet_handle_retireall.simps [code]

section \<open>Delivery\<close>

definition skynet_context_push :: "u32 \<Rightarrow> skynet_message \<Rightarrow> node \<Rightarrow> (int \<times> node) option" where
  "skynet_context_push h m s = do {
     (r, s1) \<leftarrow> skynet_handle_grab h s;
     case r of
       None \<Rightarrow> Some (- 1, s1)
     | Some c \<Rightarrow> do {
         x \<leftarrow> nd_ctx s1 c;
         s2 \<leftarrow> skynet_mq_push (cx_queue x) m s1;
         (_, s3) \<leftarrow> skynet_context_release c s2;
         Some (0, s3)
       }
   }"

definition skynet_context_endless :: "u32 \<Rightarrow> node \<Rightarrow> node option" where
  "skynet_context_endless h s = do {
     (r, s1) \<leftarrow> skynet_handle_grab h s;
     case r of
       None \<Rightarrow> Some s1
     | Some c \<Rightarrow> do {
         x \<leftarrow> nd_ctx s1 c;
         (_, s2) \<leftarrow> skynet_context_release c (ctx_set c (x\<lparr>cx_endless := True\<rparr>) s1);
         Some s2
       }
   }"

text \<open>
  \<open>skynet_error\<close>: the text that \<open>vsnprintf\<close> produces, in a block of its own, goes to the logger service, whose
  handle is looked up until it is found. The result of the push is not looked at.
\<close>

definition skynet_error :: "nat option \<Rightarrow> byte list \<Rightarrow> node \<Rightarrow> node option" where
  "skynet_error context text s = do {
     h \<leftarrow> (if nd_logger s = 0 then skynet_handle_findname (nd_hs s) ''logger'' else Some (nd_logger s));
     let s1 = s\<lparr>nd_logger := h\<rparr>;
     if h = 0 then Some s1
     else do {
       let (d, s2) = data_new (Raw text) s1;
       source \<leftarrow> (case context of None \<Rightarrow> Some 0 | Some c \<Rightarrow> map_option cx_handle (nd_ctx s2 c));
       (_, s3) \<leftarrow> skynet_context_push h
         \<lparr>m_source = source, m_session = 0, m_data = Some d, m_sz = of_nat (length text)\<rparr> s2;
       Some s3
     }
   }"

definition skynet_context_newsession :: "nat \<Rightarrow> node \<Rightarrow> (u32 \<times> node) option" where
  "skynet_context_newsession c s = do {
     x \<leftarrow> nd_ctx s c;
     let session = cx_session_id x + 1;
     if sint session \<le> 0 then Some (1, ctx_set c (x\<lparr>cx_session_id := 1\<rparr>) s)
     else Some (session, ctx_set c (x\<lparr>cx_session_id := session\<rparr>) s)
   }"

definition skynet_context_send :: "nat \<Rightarrow> nat option \<Rightarrow> u64 \<Rightarrow> u32 \<Rightarrow> u64 \<Rightarrow> u32 \<Rightarrow> node \<Rightarrow> node option" where
  "skynet_context_send c msg sz source ty session s = do {
     x \<leftarrow> nd_ctx s c;
     skynet_mq_push (cx_queue x)
       \<lparr>m_source = source, m_session = session, m_data = msg, m_sz = sz OR push_bit MESSAGE_TYPE_SHIFT ty\<rparr> s
   }"

section \<open>The harbor\<close>

definition skynet_harbor_message_isremote :: "u32 \<Rightarrow> node \<Rightarrow> bool option" where
  "skynet_harbor_message_isremote handle s = do {
     _ \<leftarrow> assert_opt (nd_harbor s \<noteq> - 1);
     let h = handle AND NOT HANDLE_MASK;
     Some (h \<noteq> nd_harbor s \<and> h \<noteq> 0)
   }"

definition skynet_harbor_init :: "u32 \<Rightarrow> node \<Rightarrow> node" where
  "skynet_harbor_init harbor s = s\<lparr>nd_harbor := push_bit HANDLE_REMOTE_SHIFT harbor\<rparr>"

definition skynet_harbor_start :: "nat \<Rightarrow> node \<Rightarrow> node option" where
  "skynet_harbor_start c s = do {
     s' \<leftarrow> skynet_context_reserve c s;
     Some (s'\<lparr>nd_remote := Some c\<rparr>)
   }"

definition skynet_harbor_exit :: "node \<Rightarrow> node option" where
  "skynet_harbor_exit s =
     (let s1 = s\<lparr>nd_remote := None\<rparr>
      in case nd_remote s of
           None \<Rightarrow> Some s1
         | Some c \<Rightarrow> do { (_, s2) \<leftarrow> skynet_context_release c s1; Some s2 })"

text \<open>The \<open>struct remote_message\<close> of the caller is the block of the message that is sent; it has 40 bytes.\<close>

definition skynet_harbor_send :: "remote_message \<Rightarrow> u32 \<Rightarrow> u32 \<Rightarrow> node \<Rightarrow> node option" where
  "skynet_harbor_send rmsg source session s = do {
     let ty = drop_bit MESSAGE_TYPE_SHIFT (rm_sz rmsg);
     let rmsg' = rmsg\<lparr>rm_sz := rm_sz rmsg AND MESSAGE_TYPE_MASK\<rparr>;
     _ \<leftarrow> assert_opt (ty \<noteq> word_of_int PTYPE_SYSTEM \<and> ty \<noteq> word_of_int PTYPE_HARBOR);
     r \<leftarrow> nd_remote s;
     let (d, s1) = data_new (Rmsg rmsg') s;
     skynet_context_send r (Some d) 40 source ty session s1
   }"

definition skynet_isremote :: "u32 \<Rightarrow> node \<Rightarrow> (bool \<times> u32) option" where
  "skynet_isremote handle s = do {
     r \<leftarrow> skynet_harbor_message_isremote handle s;
     Some (r, drop_bit HANDLE_REMOTE_SHIFT handle)
   }"

section \<open>Sending\<close>

text \<open>\<open>_filter_args\<close>: the session, the data and the size with the type in its high byte.\<close>

definition filter_args ::
    "nat option \<Rightarrow> int \<Rightarrow> u32 \<Rightarrow> nat option \<Rightarrow> u64 \<Rightarrow> node \<Rightarrow> (u32 \<times> nat option \<times> u64 \<times> node) option" where
  "filter_args context ty session data sz s = do {
     (session', s1) \<leftarrow>
       (if ty AND PTYPE_TAG_ALLOCSESSION \<noteq> 0 then do {
          _ \<leftarrow> assert_opt (session = 0);
          c \<leftarrow> context;
          skynet_context_newsession c s
        }
        else Some (session, s));
     (data', s2) \<leftarrow>
       (case data of
          None \<Rightarrow> Some (None, s1)
        | Some d \<Rightarrow>
            if ty AND PTYPE_TAG_DONTCOPY = 0 then
              (case nd_data s1 d of
                 Some (Raw bs) \<Rightarrow>
                   if unat sz \<le> length bs
                   then (let (d', s') = data_new (Raw (take (unat sz) bs)) s1 in Some (Some d', s'))
                   else None
               | _ \<Rightarrow> None)
            else Some (Some d, s1));
     Some (session', data', sz OR push_bit MESSAGE_TYPE_SHIFT (word_of_int (ty AND 0xff)), s2)
   }"

definition source_of :: "nat option \<Rightarrow> u32 \<Rightarrow> node \<Rightarrow> u32 option" where
  "source_of context source s =
     (if source = 0 then do { c \<leftarrow> context; map_option cx_handle (nd_ctx s c) } else Some source)"

definition free_dontcopy :: "int \<Rightarrow> nat option \<Rightarrow> node \<Rightarrow> node" where
  "free_dontcopy ty data s = (if ty AND PTYPE_TAG_DONTCOPY \<noteq> 0 then data_free data s else s)"

definition skynet_send ::
    "nat option \<Rightarrow> u32 \<Rightarrow> u32 \<Rightarrow> int \<Rightarrow> u32 \<Rightarrow> nat option \<Rightarrow> u64 \<Rightarrow> node \<Rightarrow> (int \<times> node) option" where
  "skynet_send context source destination ty session data sz s =
     (if sz AND MESSAGE_TYPE_MASK \<noteq> sz then do {
        s1 \<leftarrow> skynet_error context (str ''The message to '' @ nat_hex (unat destination) @ str '' is too large'') s;
        Some (- 1, free_dontcopy ty data s1)
      }
      else do {
        (session', data', sz', s1) \<leftarrow> filter_args context ty session data sz s;
        source' \<leftarrow> source_of context source s1;
        if destination = 0 then Some (sint session', s1)
        else do {
          rem \<leftarrow> skynet_harbor_message_isremote destination s1;
          if rem then do {
            s2 \<leftarrow> skynet_harbor_send
              \<lparr>rm_name = [], rm_handle = destination, rm_message = data', rm_sz = sz'\<rparr> source' session' s1;
            Some (sint session', s2)
          }
          else do {
            (r, s2) \<leftarrow> skynet_context_push destination
              \<lparr>m_source = source', m_session = session', m_data = data', m_sz = sz'\<rparr> s1;
            if r \<noteq> 0 then Some (- 1, data_free data' s2) else Some (sint session', s2)
          }
        }
      })"

text \<open>\<open>copy_name\<close>: at most 16 bytes, the rest zero.\<close>

definition copy_name :: "byte list \<Rightarrow> byte list" where
  "copy_name addr =
     (let n = take GLOBALNAME_LENGTH (c_str addr) in n @ replicate (GLOBALNAME_LENGTH - length n) 0)"

text \<open>Names of the handle table are character strings.\<close>

definition chars :: "byte list \<Rightarrow> string" where
  "chars bs = map (\<lambda>b. char_of (unat b)) bs"

text \<open>The first byte of a C string, the terminating zero for the empty one.\<close>

definition first_byte :: "byte list \<Rightarrow> byte" where
  "first_byte s = (case s of [] \<Rightarrow> 0 | b # _ \<Rightarrow> b)"

definition skynet_sendname ::
    "nat option \<Rightarrow> u32 \<Rightarrow> byte list \<Rightarrow> int \<Rightarrow> u32 \<Rightarrow> nat option \<Rightarrow> u64 \<Rightarrow> node \<Rightarrow> (int \<times> node) option" where
  "skynet_sendname context source addr ty session data sz s = do {
     source' \<leftarrow> source_of context source s;
     let b = first_byte addr;
     if b = 58 then skynet_send context source' (strtoul16 (tl addr)) ty session data sz s
     else if b = 46 then do {
       des \<leftarrow> skynet_handle_findname (nd_hs s) (chars (tl addr));
       if des = 0 then Some (- 1, free_dontcopy ty data s)
       else skynet_send context source' des ty session data sz s
     }
     else do {
       (session', data', sz', s1) \<leftarrow> filter_args context ty session data sz s;
       s2 \<leftarrow> skynet_harbor_send
         \<lparr>rm_name = copy_name addr, rm_handle = 0, rm_message = data', rm_sz = sz'\<rparr> source' session' s1;
       Some (sint session', s2)
     }
   }"

text \<open>The callback that reports a dropped message to its sender.\<close>

definition drop_message :: "u32 \<Rightarrow> skynet_message \<Rightarrow> node \<Rightarrow> node option" where
  "drop_message handle msg s = do {
     let s1 = data_free (m_data msg) s;
     _ \<leftarrow> assert_opt (handle \<noteq> 0);
     (_, s2) \<leftarrow> skynet_send None handle (m_source msg) PTYPE_ERROR 0 None 0 s1;
     Some s2
   }"

end
