(* ===== verification/Node_Commands.thy ===== *)
theory Node_Commands
  imports Node
begin

text \<open>
  Launching and ending services, dispatching their messages and the text commands of a service:
  the rest of \<open>skynet-src/skynet_server.c\<close>, with \<open>skynet_env.c\<close>, \<open>skynet_log.c\<close> and
  \<open>skynet_monitor.c\<close>.

  What a module's \<open>init\<close> and a service's callback do between two pieces of a function is not fixed: the
  pieces are separate definitions, and Node_Run lets anything a service may call happen between them.
  \<open>fopen\<close> is a parameter.
\<close>

section \<open>Launching\<close>

text \<open>\<open>skynet_context_new\<close> up to the call of the module's \<open>init\<close>, for a module and an instance that exist.\<close>

definition context_new_begin :: "nat \<Rightarrow> nat \<Rightarrow> node \<Rightarrow> (nat \<times> node) option" where
  "context_new_begin md inst s = do {
     let c = nd_brk s;
     let qa = c + 1;
     let x = \<lparr>cx_mod = md, cx_instance = inst, cx_cb = False, cx_queue = qa, cx_logfile = None, cx_result = [],
              cx_handle = 0, cx_session_id = 0, cx_ref = 2, cx_init = False, cx_endless = False\<rparr>;
     let s1 = (ctx_set c x s)\<lparr>nd_brk := c + 2\<rparr>;
     (h, hs) \<leftarrow> skynet_handle_register (ctx_handle s1) c (nd_hs s1);
     let s2 = (ctx_set c (x\<lparr>cx_handle := h\<rparr>) s1)\<lparr>nd_hs := hs\<rparr>;
     let s3 = mq_set qa (skynet_mq_create h) s2;
     Some (c, s3\<lparr>nd_total := nd_total s3 + 1\<rparr>)
   }"

text \<open>
  After \<open>init\<close> has returned 0: the launching reference is given up, and the queue is published. The context is
  written again when the release has not deleted it.
\<close>

definition launch_publish :: "nat \<Rightarrow> nat \<Rightarrow> bool \<Rightarrow> byte list \<Rightarrow> node \<Rightarrow> node option" where
  "launch_publish c qa ret text s = do {
     s1 \<leftarrow> (if ret then do { x \<leftarrow> nd_ctx s c; Some (ctx_set c (x\<lparr>cx_init := True\<rparr>) s) } else Some s);
     s2 \<leftarrow> skynet_globalmq_push qa s1;
     if ret then skynet_error (Some c) text s2 else Some s2
   }"

definition launch_text :: "byte list \<Rightarrow> byte list option \<Rightarrow> byte list" where
  "launch_text name param = str ''LAUNCH '' @ name @ str '' '' @ (case param of None \<Rightarrow> [] | Some p \<Rightarrow> p)"

definition context_new_ok :: "nat \<Rightarrow> byte list \<Rightarrow> byte list option \<Rightarrow> node \<Rightarrow> (nat option \<times> node) option" where
  "context_new_ok c name param s = do {
     x \<leftarrow> nd_ctx s c;
     (ret, s1) \<leftarrow> skynet_context_release c s;
     s2 \<leftarrow> launch_publish c (cx_queue x) (ret \<noteq> None) (launch_text name param) s1;
     Some (ret, s2)
   }"

definition context_new_fail :: "nat \<Rightarrow> byte list \<Rightarrow> node \<Rightarrow> node option" where
  "context_new_fail c name s = do {
     s1 \<leftarrow> skynet_error (Some c) (str ''FAILED launch '' @ name) s;
     x \<leftarrow> nd_ctx s1 c;
     let handle = cx_handle x;
     (_, s2) \<leftarrow> skynet_context_release c s1;
     (_, s3) \<leftarrow> skynet_handle_retire handle s2;
     skynet_mq_release (drop_message handle) (cx_queue x) s3
   }"

text \<open>The whole function, for what \<open>init\<close> does to the node.\<close>

definition skynet_context_new ::
    "(byte list \<Rightarrow> nat option) \<Rightarrow> (nat \<Rightarrow> nat option) \<Rightarrow> (nat \<Rightarrow> byte list option \<Rightarrow> node \<Rightarrow> (int \<times> node) option) \<Rightarrow>
     byte list \<Rightarrow> byte list option \<Rightarrow> node \<Rightarrow> (nat option \<times> node) option" where
  "skynet_context_new query create init name param s =
     (case query name of
        None \<Rightarrow> Some (None, s)
      | Some md \<Rightarrow>
          (case create md of
             None \<Rightarrow> Some (None, s)
           | Some inst \<Rightarrow> do {
               (c, s1) \<leftarrow> context_new_begin md inst s;
               (r, s2) \<leftarrow> init c param s1;
               if r = 0 then context_new_ok c name param s2
               else do { s3 \<leftarrow> context_new_fail c name s2; Some (None, s3) }
             }))"

section \<open>Dispatching\<close>

text \<open>
  \<open>dispatch_message\<close> up to the callback: type, session, source, data and size. A log line is written to the
  service's log file, if it has one.
\<close>

definition dispatch_begin :: "nat \<Rightarrow> skynet_message \<Rightarrow> node \<Rightarrow> (u64 \<times> u32 \<times> u32 \<times> nat option \<times> u64) option" where
  "dispatch_begin c msg s = do {
     x \<leftarrow> nd_ctx s c;
     _ \<leftarrow> assert_opt (cx_init x);
     Some (drop_bit MESSAGE_TYPE_SHIFT (m_sz msg), m_session msg, m_source msg, m_data msg, m_sz msg AND MESSAGE_TYPE_MASK)
   }"

text \<open>After the callback has returned \<open>keep\<close>.\<close>

definition dispatch_done :: "bool \<Rightarrow> skynet_message \<Rightarrow> node \<Rightarrow> node" where
  "dispatch_done keep msg s = (if keep then s else data_free (m_data msg) s)"

text \<open>
  \<open>skynet_context_message_dispatch\<close> up to the loop, for a queue \<open>qa\<close> that the worker holds: a queue without a service
  is released, and the worker goes on with the next one.
\<close>

definition dispatch_grab :: "nat \<Rightarrow> node \<Rightarrow> (nat option \<times> nat option \<times> node) option" where
  "dispatch_grab qa s = do {
     q \<leftarrow> mq_heap s qa;
     let handle = skynet_mq_handle q;
     (r, s1) \<leftarrow> skynet_handle_grab handle s;
     case r of
       None \<Rightarrow> do {
         s2 \<leftarrow> skynet_mq_release (drop_message handle) qa s1;
         (nq, s3) \<leftarrow> skynet_globalmq_pop s2;
         Some (None, nq, s3)
       }
     | Some c \<Rightarrow> Some (Some c, Some qa, s1)
   }"

text \<open>
  One round \<open>i\<close> of the loop up to the callback: an empty queue is given up together with the context; otherwise the
  new loop bound and the message. A message for a service without a callback is freed.
\<close>

definition dispatch_round ::
    "nat \<Rightarrow> nat \<Rightarrow> int \<Rightarrow> nat \<Rightarrow> nat \<Rightarrow> node \<Rightarrow> ((nat option + nat \<times> skynet_message option) \<times> node) option" where
  "dispatch_round qa c weight i n s = do {
     q \<leftarrow> mq_heap s qa;
     (m, q1) \<leftarrow> skynet_mq_pop q;
     let s1 = mq_set qa q1 s;
     case m of
       None \<Rightarrow> do {
         (_, s2) \<leftarrow> skynet_context_release c s1;
         (nq, s3) \<leftarrow> skynet_globalmq_pop s2;
         Some (Inl nq, s3)
       }
     | Some msg \<Rightarrow> do {
         let n' = (if i = 0 \<and> 0 \<le> weight then drop_bit (nat weight) (skynet_mq_length q1) else n);
         let (overload, q2) = skynet_mq_overload q1;
         let s2 = mq_set qa q2 s1;
         s3 \<leftarrow> (if overload \<noteq> 0
               then skynet_error (Some c) (str ''May overload, message queue length = '' @ nat_dec overload) s2
               else Some s2);
         x \<leftarrow> nd_ctx s3 c;
         if cx_cb x then do {
           _ \<leftarrow> dispatch_begin c msg s3;
           Some (Inr (n', Some msg), s3)
         }
         else Some (Inr (n', None), data_free (m_data msg) s3)
       }
   }"

text \<open>After the loop: the worker exchanges its queue for another one, if there is one.\<close>

definition dispatch_finish :: "nat \<Rightarrow> nat \<Rightarrow> node \<Rightarrow> (nat option \<times> node) option" where
  "dispatch_finish qa c s = do {
     x \<leftarrow> nd_ctx s c;
     _ \<leftarrow> assert_opt (cx_queue x = qa);
     (nq, s1) \<leftarrow> skynet_globalmq_pop s;
     s2 \<leftarrow> (if nq \<noteq> None then skynet_globalmq_push qa s1 else Some s1);
     (_, s3) \<leftarrow> skynet_context_release c s2;
     Some (if nq \<noteq> None then nq else Some qa, s3)
   }"

definition skynet_callback :: "nat \<Rightarrow> node \<Rightarrow> node option" where
  "skynet_callback c s = do { x \<leftarrow> nd_ctx s c; Some (ctx_set c (x\<lparr>cx_cb := True\<rparr>) s) }"

section \<open>Commands\<close>

definition set_result :: "nat \<Rightarrow> byte list \<Rightarrow> node \<Rightarrow> (byte list option \<times> node) option" where
  "set_result c r s = do { x \<leftarrow> nd_ctx s c; Some (Some r, ctx_set c (x\<lparr>cx_result := r\<rparr>) s) }"

definition hex_name :: "u32 \<Rightarrow> byte list" where
  "hex_name h = 58 # nat_hex (unat h)"

text \<open>\<open>%08x\<close>\<close>

definition hex8 :: "u32 \<Rightarrow> byte list" where
  "hex8 h = (let d = nat_hex (unat h) in replicate (8 - length d) 48 @ d)"

text \<open>\<open>id_to_hex\<close>: a colon and eight upper-case digits.\<close>

definition id_to_hex :: "u32 \<Rightarrow> byte list" where
  "id_to_hex h =
     58 # map (\<lambda>i. let d = unat (drop_bit ((7 - i) * 4) h AND 0xf) in of_nat (if d < 10 then 48 + d else 55 + d)) [0..<8]"

definition skynet_queryname :: "nat \<Rightarrow> byte list \<Rightarrow> node \<Rightarrow> (u32 \<times> node) option" where
  "skynet_queryname c name s =
     (if first_byte name = 58 then Some (strtoul16 (tl name), s)
      else if first_byte name = 46 then do {
        h \<leftarrow> skynet_handle_findname (nd_hs s) (chars (tl name));
        Some (h, s)
      }
      else do {
        s1 \<leftarrow> skynet_error (Some c) (str ''Don't support query global name '' @ name) s;
        Some (0, s1)
      })"

definition handle_exit :: "nat \<Rightarrow> u32 \<Rightarrow> node \<Rightarrow> node option" where
  "handle_exit c handle s = do {
     x \<leftarrow> nd_ctx s c;
     let h = (if handle = 0 then cx_handle x else handle);
     s1 \<leftarrow> skynet_error (Some c) (if handle = 0 then str ''KILL self'' else str ''KILL '' @ hex_name handle) s;
     s2 \<leftarrow> (if nd_monitor_exit s1 \<noteq> 0 then do {
              (_, s') \<leftarrow> skynet_send (Some c) h (nd_monitor_exit s1) PTYPE_CLIENT 0 None 0 s1;
              Some s'
            }
            else Some s1);
     (_, s3) \<leftarrow> skynet_handle_retire h s2;
     Some s3
   }"

definition tohandle :: "nat \<Rightarrow> byte list \<Rightarrow> node \<Rightarrow> (u32 \<times> node) option" where
  "tohandle c param s =
     (if first_byte param = 58 then Some (strtoul16 (tl param), s)
      else if first_byte param = 46 then do {
        h \<leftarrow> skynet_handle_findname (nd_hs s) (chars (tl param));
        Some (h, s)
      }
      else do {
        s1 \<leftarrow> skynet_error (Some c) (str ''Can't convert '' @ param @ str '' to handle'') s;
        Some (0, s1)
      })"

fun deliver_all :: "(u32 \<times> skynet_message) list \<Rightarrow> node \<Rightarrow> node option" where
  "deliver_all [] s = Some s"
| "deliver_all ((h, m) # ms) s = do { (_, s1) \<leftarrow> skynet_context_push h m s; deliver_all ms s1 }"

text \<open>The timer thread: the messages of the timers that are due are pushed one after the other.\<close>

definition node_updatetime :: "u64 \<Rightarrow> timer_adds list list \<Rightarrow> node \<Rightarrow> node option" where
  "node_updatetime cp intf s = do {
     (T, ms) \<leftarrow> skynet_updatetime cp intf (nd_timer s);
     deliver_all ms (s\<lparr>nd_timer := T\<rparr>)
   }"

definition cmd_timeout :: "nat \<Rightarrow> byte list \<Rightarrow> node \<Rightarrow> (byte list option \<times> node) option" where
  "cmd_timeout c param s = do {
     let ti = (word_of_int (strtol10 param) :: u32);
     (session, s1) \<leftarrow> skynet_context_newsession c s;
     x \<leftarrow> nd_ctx s1 c;
     let (r, ms, T) = skynet_timeout (\<lambda>h. handle_find (ctx_handle s1) (nd_hs s1) h \<noteq> None) (cx_handle x) ti session (nd_timer s1);
     s2 \<leftarrow> deliver_all ms (s1\<lparr>nd_timer := T\<rparr>);
     set_result c (int_dec (sint session)) s2
   }"

definition cmd_reg :: "nat \<Rightarrow> byte list option \<Rightarrow> node \<Rightarrow> (byte list option \<times> node) option" where
  "cmd_reg c param s = do {
     x \<leftarrow> nd_ctx s c;
     case param of
       None \<Rightarrow> set_result c (hex_name (cx_handle x)) s
     | Some p \<Rightarrow>
         if p = [] then set_result c (hex_name (cx_handle x)) s
         else if first_byte p = 46 then do {
           (r, hs) \<leftarrow> skynet_handle_namehandle (cx_handle x) (chars (tl p)) (nd_hs s);
           Some (if r = None then None else Some (tl p), s\<lparr>nd_hs := hs\<rparr>)
         }
         else do {
           s1 \<leftarrow> skynet_error (Some c) (str ''Can't register global name '' @ p @ str '' in C'') s;
           Some (None, s1)
         }
   }"

definition cmd_query :: "nat \<Rightarrow> byte list \<Rightarrow> node \<Rightarrow> (byte list option \<times> node) option" where
  "cmd_query c param s =
     (if first_byte param = 46 then do {
        h \<leftarrow> skynet_handle_findname (nd_hs s) (chars (tl param));
        if h \<noteq> 0 then set_result c (hex_name h) s else Some (None, s)
      }
      else Some (None, s))"

text \<open>A missing second word leaves \<open>handle\<close> uninitialised.\<close>

definition cmd_name :: "nat \<Rightarrow> byte list \<Rightarrow> node \<Rightarrow> (byte list option \<times> node) option" where
  "cmd_name c param s = do {
     (name, r1) \<leftarrow> scan_token param;
     (handle, _) \<leftarrow> scan_token r1;
     if first_byte handle \<noteq> 58 then Some (None, s)
     else do {
       let handle_id = strtoul16 (tl handle);
       if handle_id = 0 then Some (None, s)
       else if first_byte name = 46 then do {
         (r, hs) \<leftarrow> skynet_handle_namehandle handle_id (chars (tl name)) (nd_hs s);
         Some (if r = None then None else Some (tl name), s\<lparr>nd_hs := hs\<rparr>)
       }
       else do {
         s1 \<leftarrow> skynet_error (Some c) (str ''Can't set global name '' @ name @ str '' in C'') s;
         Some (None, s1)
       }
     }
   }"

definition cmd_exit :: "nat \<Rightarrow> node \<Rightarrow> (byte list option \<times> node) option" where
  "cmd_exit c s = do { s1 \<leftarrow> handle_exit c 0 s; Some (None, s1) }"

definition cmd_kill :: "nat \<Rightarrow> byte list \<Rightarrow> node \<Rightarrow> (byte list option \<times> node) option" where
  "cmd_kill c param s = do {
     (handle, s1) \<leftarrow> tohandle c param s;
     s2 \<leftarrow> (if handle \<noteq> 0 then handle_exit c handle s1 else Some s1);
     Some (None, s2)
   }"

text \<open>The module name and the arguments of a \<open>LAUNCH\<close>: two calls of \<open>strsep\<close>.\<close>

definition launch_args :: "byte list \<Rightarrow> byte list \<times> byte list option" where
  "launch_args param =
     (let md = takeWhile (\<lambda>b. b \<notin> {32, 9, 13, 10}) param
      in (md, if length md < length param
              then Some (takeWhile (\<lambda>b. b \<notin> {13, 10}) (drop (length md + 1) param)) else None))"

definition cmd_launch ::
    "(byte list \<Rightarrow> byte list option \<Rightarrow> node \<Rightarrow> (nat option \<times> node) option) \<Rightarrow> nat \<Rightarrow> byte list \<Rightarrow> node \<Rightarrow>
     (byte list option \<times> node) option" where
  "cmd_launch context_new c param s = do {
     let (md, args) = launch_args param;
     (inst, s1) \<leftarrow> context_new md args s;
     case inst of
       None \<Rightarrow> Some (None, s1)
     | Some i \<Rightarrow> do { y \<leftarrow> nd_ctx s1 i; set_result c (id_to_hex (cx_handle y)) s1 }
   }"

definition cmd_getenv :: "byte list \<Rightarrow> node \<Rightarrow> (byte list option \<times> node) option" where
  "cmd_getenv param s = Some (nd_env s param, s)"

text \<open>\<open>skynet_setenv\<close> asserts that the variable is not set yet.\<close>

definition skynet_setenv :: "byte list \<Rightarrow> byte list \<Rightarrow> node \<Rightarrow> node option" where
  "skynet_setenv key val s = do {
     _ \<leftarrow> assert_opt (nd_env s key = None);
     Some (s\<lparr>nd_env := (nd_env s)(key \<mapsto> val)\<rparr>)
   }"

definition cmd_setenv :: "byte list \<Rightarrow> node \<Rightarrow> (byte list option \<times> node) option" where
  "cmd_setenv param s =
     (let key = takeWhile (\<lambda>b. b \<noteq> 32) param
      in if length key = length param then Some (None, s)
         else do { s1 \<leftarrow> skynet_setenv key (drop (length key + 1) param) s; Some (None, s1) })"

definition cmd_starttime :: "nat \<Rightarrow> node \<Rightarrow> (byte list option \<times> node) option" where
  "cmd_starttime c s = set_result c (nat_dec (unat (skynet_starttime (nd_timer s)))) s"

definition cmd_endless :: "nat \<Rightarrow> node \<Rightarrow> (byte list option \<times> node) option" where
  "cmd_endless c s = do {
     x \<leftarrow> nd_ctx s c;
     if cx_endless x
     then Some (Some (str ''1''), ctx_set c (x\<lparr>cx_result := str ''1'', cx_endless := False\<rparr>) s)
     else Some (None, s)
   }"

definition cmd_abort :: "node \<Rightarrow> (byte list option \<times> node) option" where
  "cmd_abort s = do { s1 \<leftarrow> skynet_handle_retireall s; Some (None, s1) }"

definition cmd_monitor :: "nat \<Rightarrow> byte list option \<Rightarrow> node \<Rightarrow> (byte list option \<times> node) option" where
  "cmd_monitor c param s =
     (case param of
        Some (b # p) \<Rightarrow> do {
          (h, s1) \<leftarrow> tohandle c (b # p) s;
          Some (None, s1\<lparr>nd_monitor_exit := h\<rparr>)
        }
      | _ \<Rightarrow> if nd_monitor_exit s \<noteq> 0 then set_result c (hex_name (nd_monitor_exit s)) s else Some (None, s))"

definition cmd_mqlen :: "nat \<Rightarrow> node \<Rightarrow> (byte list option \<times> node) option" where
  "cmd_mqlen c s = do {
     x \<leftarrow> nd_ctx s c;
     q \<leftarrow> mq_heap s (cx_queue x);
     set_result c (nat_dec (skynet_mq_length q)) s
   }"

section \<open>Log files and signals\<close>

definition skynet_getenv :: "byte list \<Rightarrow> node \<Rightarrow> byte list option" where
  "skynet_getenv key s = nd_env s key"

definition skynet_log_open :: "(byte list \<Rightarrow> nat option) \<Rightarrow> nat \<Rightarrow> u32 \<Rightarrow> node \<Rightarrow> (nat option \<times> node) option" where
  "skynet_log_open fopen c handle s =
     (case skynet_getenv (str ''logpath'') s of
        None \<Rightarrow> Some (None, s)
      | Some logpath \<Rightarrow> do {
          let tmp = logpath @ str ''/'' @ hex8 handle @ str ''.log'';
          case fopen tmp of
            Some f \<Rightarrow> do { s1 \<leftarrow> skynet_error (Some c) (str ''Open log file '' @ tmp) s; Some (Some f, s1) }
          | None \<Rightarrow> do { s1 \<leftarrow> skynet_error (Some c) (str ''Open log file '' @ tmp @ str '' fail'') s; Some (None, s1) }
        })"

definition skynet_log_close :: "nat \<Rightarrow> nat \<Rightarrow> u32 \<Rightarrow> node \<Rightarrow> node option" where
  "skynet_log_close c f handle s = do {
     s1 \<leftarrow> skynet_error (Some c) (str ''Close log file :'' @ hex8 handle) s;
     Some (out (File_Close f) s1)
   }"

text \<open>Without interference the compare-and-swap of the log file always succeeds.\<close>

definition cmd_logon :: "(byte list \<Rightarrow> nat option) \<Rightarrow> nat \<Rightarrow> byte list \<Rightarrow> node \<Rightarrow> (byte list option \<times> node) option" where
  "cmd_logon fopen c param s = do {
     (handle, s0) \<leftarrow> tohandle c param s;
     if handle = 0 then Some (None, s0)
     else do {
       (r, s1) \<leftarrow> skynet_handle_grab handle s0;
       case r of
         None \<Rightarrow> Some (None, s1)
       | Some d \<Rightarrow> do {
           y \<leftarrow> nd_ctx s1 d;
           s2 \<leftarrow> (if cx_logfile y = None then do {
                    (f, s') \<leftarrow> skynet_log_open fopen c handle s1;
                    z \<leftarrow> nd_ctx s' d;
                    Some (if f \<noteq> None then ctx_set d (z\<lparr>cx_logfile := f\<rparr>) s' else s')
                  }
                  else Some s1);
           (_, s3) \<leftarrow> skynet_context_release d s2;
           Some (None, s3)
         }
     }
   }"

definition cmd_logoff :: "nat \<Rightarrow> byte list \<Rightarrow> node \<Rightarrow> (byte list option \<times> node) option" where
  "cmd_logoff c param s = do {
     (handle, s0) \<leftarrow> tohandle c param s;
     if handle = 0 then Some (None, s0)
     else do {
       (r, s1) \<leftarrow> skynet_handle_grab handle s0;
       case r of
         None \<Rightarrow> Some (None, s1)
       | Some d \<Rightarrow> do {
           y \<leftarrow> nd_ctx s1 d;
           s2 \<leftarrow> (case cx_logfile y of
                   None \<Rightarrow> Some s1
                 | Some f \<Rightarrow> skynet_log_close c f handle (ctx_set d (y\<lparr>cx_logfile := None\<rparr>) s1));
           (_, s3) \<leftarrow> skynet_context_release d s2;
           Some (None, s3)
         }
     }
   }"

text \<open>\<open>strtol(s, NULL, 0)\<close>: a prefix chooses the base.\<close>

definition strtol0 :: "byte list \<Rightarrow> int" where
  "strtol0 s =
     (let (neg, ds) = read_sign (dropWhile is_space s);
          hex = length ds \<ge> 3 \<and> ds ! 0 = 48 \<and> (ds ! 1 = 120 \<or> ds ! 1 = 88) \<and> digit_val (ds ! 2) < 16;
          v = int (if hex then read_digits 16 0 (drop 2 ds)
                   else if first_byte ds = 48 then read_digits 8 0 ds else read_digits 10 0 ds)
      in if neg then max (- (2 ^ 63)) (- v) else min (2 ^ 63 - 1) v)"

definition cmd_signal :: "nat \<Rightarrow> byte list \<Rightarrow> node \<Rightarrow> (byte list option \<times> node) option" where
  "cmd_signal c param s = do {
     (handle, s0) \<leftarrow> tohandle c param s;
     if handle = 0 then Some (None, s0)
     else do {
       (r, s1) \<leftarrow> skynet_handle_grab handle s0;
       case r of
         None \<Rightarrow> Some (None, s1)
       | Some d \<Rightarrow> do {
           y \<leftarrow> nd_ctx s1 d;
           let p = dropWhile (\<lambda>b. b \<noteq> 32) param;
           let sig = (if p = [] then 0 else to_int (strtol0 p));
           (_, s2) \<leftarrow> skynet_context_release d (out (Inst_Signal (cx_mod y) (cx_instance y) sig) s1);
           Some (None, s2)
         }
     }
   }"

section \<open>The command table\<close>

datatype command =
    TIMEOUT | REG | QUERY | NAME | EXIT | KILL | LAUNCH | GETENV | SETENV | STARTTIME | ENDLESS | ABORT
  | MONITOR | MQLEN | LOGON | LOGOFF | SIGNAL

definition cmd_funcs :: "(byte list \<times> command) list" where
  "cmd_funcs =
     [(str ''TIMEOUT'', TIMEOUT), (str ''REG'', REG), (str ''QUERY'', QUERY), (str ''NAME'', NAME), (str ''EXIT'', EXIT),
      (str ''KILL'', KILL), (str ''LAUNCH'', LAUNCH), (str ''GETENV'', GETENV), (str ''SETENV'', SETENV),
      (str ''STARTTIME'', STARTTIME), (str ''ENDLESS'', ENDLESS), (str ''ABORT'', ABORT), (str ''MONITOR'', MONITOR),
      (str ''MQLEN'', MQLEN), (str ''LOGON'', LOGON), (str ''LOGOFF'', LOGOFF), (str ''SIGNAL'', SIGNAL)]"

text \<open>
  A null \<open>param\<close> is read as the empty string by the commands that do not test for it; the Lua layer always
  passes a string. \<open>LAUNCH\<close> is given what launching a service does.
\<close>

definition run_command ::
    "(byte list \<Rightarrow> nat option) \<Rightarrow> (byte list \<Rightarrow> byte list option \<Rightarrow> node \<Rightarrow> (nat option \<times> node) option) \<Rightarrow>
     command \<Rightarrow> nat \<Rightarrow> byte list \<Rightarrow> node \<Rightarrow> (byte list option \<times> node) option" where
  "run_command fopen context_new cmd c param s =
     (case cmd of
        TIMEOUT \<Rightarrow> cmd_timeout c param s
      | REG \<Rightarrow> cmd_reg c (Some param) s
      | QUERY \<Rightarrow> cmd_query c param s
      | NAME \<Rightarrow> cmd_name c param s
      | EXIT \<Rightarrow> cmd_exit c s
      | KILL \<Rightarrow> cmd_kill c param s
      | LAUNCH \<Rightarrow> cmd_launch context_new c param s
      | GETENV \<Rightarrow> cmd_getenv param s
      | SETENV \<Rightarrow> cmd_setenv param s
      | STARTTIME \<Rightarrow> cmd_starttime c s
      | ENDLESS \<Rightarrow> cmd_endless c s
      | ABORT \<Rightarrow> cmd_abort s
      | MONITOR \<Rightarrow> cmd_monitor c (Some param) s
      | MQLEN \<Rightarrow> cmd_mqlen c s
      | LOGON \<Rightarrow> cmd_logon fopen c param s
      | LOGOFF \<Rightarrow> cmd_logoff c param s
      | SIGNAL \<Rightarrow> cmd_signal c param s)"

definition skynet_command ::
    "(byte list \<Rightarrow> nat option) \<Rightarrow> (byte list \<Rightarrow> byte list option \<Rightarrow> node \<Rightarrow> (nat option \<times> node) option) \<Rightarrow>
     nat \<Rightarrow> byte list \<Rightarrow> byte list \<Rightarrow> node \<Rightarrow> (byte list option \<times> node) option" where
  "skynet_command fopen context_new c cmd param s =
     (case map_of cmd_funcs cmd of
        None \<Rightarrow> Some (None, s)
      | Some f \<Rightarrow> run_command fopen context_new f c param s)"

section \<open>The monitor\<close>

record skynet_monitor =
  sm_version :: u32
  sm_check_version :: u32
  sm_source :: u32
  sm_destination :: u32

definition skynet_monitor_new :: skynet_monitor where
  "skynet_monitor_new = \<lparr>sm_version = 0, sm_check_version = 0, sm_source = 0, sm_destination = 0\<rparr>"

definition skynet_monitor_trigger :: "u32 \<Rightarrow> u32 \<Rightarrow> skynet_monitor \<Rightarrow> skynet_monitor" where
  "skynet_monitor_trigger source destination sm =
     sm\<lparr>sm_source := source, sm_destination := destination, sm_version := sm_version sm + 1\<rparr>"

definition skynet_monitor_check :: "skynet_monitor \<Rightarrow> node \<Rightarrow> (skynet_monitor \<times> node) option" where
  "skynet_monitor_check sm s =
     (if sm_version sm = sm_check_version sm then
        (if sm_destination sm \<noteq> 0 then do {
           s1 \<leftarrow> skynet_context_endless (sm_destination sm) s;
           s2 \<leftarrow> skynet_error None
             (str ''A message from [ :'' @ hex8 (sm_source sm) @ str '' ] to [ :'' @ hex8 (sm_destination sm)
              @ str '' ] maybe in an endless loop (version = '' @ int_dec (sint (sm_version sm)) @ str '')'') s1;
           Some (sm, s2)
         }
         else Some (sm, s))
      else Some (sm\<lparr>sm_check_version := sm_version sm\<rparr>, s))"

end
