(* ===== verification/Node_Queues.thy ===== *)
theory Node_Queues
  imports Scheduler
begin

text \<open>
  The queue operations as the node uses them, on a state that extends the queues' state: the invariant of
  the scheduler with a set of held queues in place of the threads, and what each operation does to
  it, to the handles and release marks of the queues and to the rest of the state.
\<close>

section \<open>Frames\<close>

text \<open>Two states that differ in the queues only.\<close>

definition mq_only :: "'z mq_globals_scheme \<Rightarrow> 'z mq_globals_scheme \<Rightarrow> bool" where
  "mq_only s s' \<longleftrightarrow> mq_globals.more s' = mq_globals.more s"

lemma mq_onlyI: "mq_globals.more s' = mq_globals.more s \<Longrightarrow> mq_only s s'"
  by (simp add: mq_only_def)

lemma mq_only_refl [simp]: "mq_only s s"
  by (simp add: mq_only_def)

lemma mq_only_trans: "mq_only s t \<Longrightarrow> mq_only t u \<Longrightarrow> mq_only s u"
  by (simp add: mq_only_def)

text \<open>The handle and the release mark of each queue.\<close>

definition mq_sig :: "'z mq_globals_scheme \<Rightarrow> nat \<Rightarrow> (u32 \<times> bool) option" where
  "mq_sig s a = map_option (\<lambda>q. (q_handle q, q_release q)) (mq_heap s a)"

lemma mq_sig_set [simp]: "mq_sig (mq_set a q s) = (mq_sig s)(a \<mapsto> (q_handle q, q_release q))"
  by (auto simp: mq_sig_def mq_set_def)

lemma mq_sig_upd: "mq_heap s a = Some q \<Longrightarrow> q_handle q' = q_handle q \<Longrightarrow> q_release q' = q_release q \<Longrightarrow>
    (mq_sig s)(a \<mapsto> (q_handle q', q_release q')) = mq_sig s"
  by (auto simp: mq_sig_def)

lemma gq_same_sig: "gq_same s t \<Longrightarrow> mq_sig t = mq_sig s"
proof
  fix a assume "gq_same s t"
  then show "mq_sig t a = mq_sig s a"
    by (rule gq_same_cases[where a = a]) (auto simp: mq_sig_def dest: next_erased_eq)
qed

lemma mq_set_more [simp]: "mq_globals.more (mq_set a q s) = mq_globals.more s"
  by (simp add: mq_set_def)

section \<open>The invariant with held queues\<close>

definition hold_of :: "nat set \<Rightarrow> nat \<Rightarrow> nat option" where
  "hold_of H a = (if a \<in> H then Some a else None)"

definition qinv :: "nat set \<Rightarrow> 'z mq_globals_scheme \<Rightarrow> bool" where
  "qinv H s \<longleftrightarrow> (\<exists>xs. sched_inv \<lparr>sc_mq = s, sc_hold = hold_of H\<rparr> xs)"

lemma hold_of_upd: "(hold_of H)(a \<mapsto> a) = hold_of (insert a H)" "(hold_of H)(a := None) = hold_of (H - {a})"
  by (auto simp: hold_of_def)

lemma ran_hold_of [simp]: "ran (hold_of H) = H"
proof
  show "H \<subseteq> ran (hold_of H)" by (auto simp: hold_of_def intro!: ranI)
qed (auto simp: ran_def hold_of_def split: if_splits)

lemma qinvI: "sched_inv \<lparr>sc_mq = s, sc_hold = hold_of H\<rparr> xs \<Longrightarrow> qinv H s"
  by (auto simp: qinv_def)

lemma qinv_rep:
  assumes "sched_inv \<lparr>sc_mq = s, sc_hold = hold_of H\<rparr> xs"
  shows "gq_rep s xs" "mq_ok s"
  using assms by (simp_all add: sched_inv_def)

lemma qinv_cong:
  assumes "mq_heap s' = mq_heap s" "g_head s' = g_head s" "g_tail s' = g_tail s"
  shows "qinv H s' = qinv H s"
proof -
  have "mq_view s' = mq_view s" "mq_ok s' = mq_ok s" "\<And>xs. gq_rep s' xs = gq_rep s xs"
    unfolding mq_view_def mq_ok_def gq_rep_def assms by simp_all
  then show ?thesis by (simp add: qinv_def sched_defs)
qed

lemma qinv_send:
  assumes "qinv H s" "mq_heap s a = Some q" "\<not> q_release q"
  shows "\<exists>s'. skynet_mq_push a m s = Some s' \<and> qinv H s' \<and> mq_only s s' \<and> mq_sig s' = mq_sig s \<and>
    mq_view s' = (mq_view s)(a \<mapsto> (mq_list q @ [m], True, False))"
proof -
  obtain xs where inv: "sched_inv \<lparr>sc_mq = s, sc_hold = hold_of H\<rparr> xs" using assms(1) by (auto simp: qinv_def)
  note rep = qinv_rep[OF inv]
  have ng: "\<not> q_in_global q \<Longrightarrow> a \<notin> set xs" using sched_parked(1)[OF inv, of a q] assms by auto
  obtain s' where s': "skynet_mq_push a m s = Some s'" "mq_view s' = (mq_view s)(a \<mapsto> (mq_list q @ [m], True, q_release q))"
    by (rule mq_push_view[OF rep mq_view_Some[OF assms(2)], of m]) (use ng in blast)+
  have "qinv H s'" using inv_send[OF inv, of a q m s'] assms(2,3) s'(1) by (auto intro: qinvI)
  moreover obtain q1 where q1: "mq_store q m = Some q1" "q_release q1 = q_release q" "q_handle q1 = q_handle q"
    using s'(1) assms(2) mq_store_keeps[of q m] rep(2)
    by (auto simp: skynet_mq_push_def mq_ok_def mq_store_def expand_queue_def Let_def split: bind_splits if_splits)
  have "mq_globals.more s' = mq_globals.more s \<and> mq_sig s' = mq_sig s"
    using s'(1) assms(2) q1
    by (auto simp: skynet_mq_push_def skynet_globalmq_push_def mq_sig_def mq_set_def fun_eq_iff
        split: bind_splits if_splits option.splits)
  ultimately show ?thesis using s' assms(3) by (simp add: mq_only_def)
qed

lemma qinv_held:
  assumes "qinv H s" "a \<in> H"
  obtains q where "mq_heap s a = Some q" "mq_wf q" "q_next q = None"
proof -
  obtain xs where inv: "sched_inv \<lparr>sc_mq = s, sc_hold = hold_of H\<rparr> xs" using assms(1) by (auto simp: qinv_def)
  have h: "sc_hold \<lparr>sc_mq = s, sc_hold = hold_of H\<rparr> a = Some a" using assms(2) by (simp add: hold_of_def)
  obtain q where q: "mq_heap s a = Some q" "mq_wf q" "a \<notin> set xs"
    by (rule sched_heldE[OF inv h]) simp
  then have "q_next q = None" using qinv_rep(1)[OF inv] by (auto simp: gq_rep_def)
  with q that show thesis by blast
qed

lemma qinv_wf: "qinv H s \<Longrightarrow> mq_heap s a = Some q \<Longrightarrow> mq_wf q"
  by (auto simp: qinv_def sched_inv_def mq_ok_def)

lemma qinv_mark:
  assumes "qinv H s" "mq_heap s a = Some q" "\<not> q_release q"
  shows "\<exists>s'. skynet_mq_mark_release a s = Some s' \<and> qinv H s' \<and> mq_only s s' \<and>
    mq_sig s' = (mq_sig s)(a \<mapsto> (q_handle q, True))"
proof -
  obtain xs where inv: "sched_inv \<lparr>sc_mq = s, sc_hold = hold_of H\<rparr> xs" using assms(1) by (auto simp: qinv_def)
  note rep = qinv_rep[OF inv]
  have ng: "\<not> q_in_global q \<Longrightarrow> a \<notin> set xs" using sched_parked(1)[OF inv, of a q] assms by auto
  have v: "mq_view s a = Some (mq_list q, q_in_global q, False)" using assms by simp
  obtain s' where s': "skynet_mq_mark_release a s = Some s'"
    by (rule mq_mark_release_view[OF rep v]) (use ng in blast)+
  have "qinv H s'" using inv_mark[OF inv, of a s'] s' by (auto intro: qinvI)
  moreover have "mq_globals.more s' = mq_globals.more s \<and> mq_sig s' = (mq_sig s)(a \<mapsto> (q_handle q, True))"
    using s' assms(2)
    by (auto simp: skynet_mq_mark_release_def skynet_globalmq_push_def mq_sig_def mq_set_def fun_eq_iff Let_def
        split: bind_splits if_splits option.splits)
  ultimately show ?thesis using s' by (blast intro: mq_onlyI)
qed

lemma qinv_global_push:
  assumes "qinv H s" "a \<in> H"
  shows "\<exists>s'. skynet_globalmq_push a s = Some s' \<and> qinv (H - {a}) s' \<and> mq_only s s' \<and> mq_sig s' = mq_sig s"
proof -
  obtain xs where inv: "sched_inv \<lparr>sc_mq = s, sc_hold = hold_of H\<rparr> xs" using assms(1) by (auto simp: qinv_def)
  have h: "sc_hold \<lparr>sc_mq = s, sc_hold = hold_of H\<rparr> a = Some a" using assms(2) by (simp add: hold_of_def)
  obtain q where q: "mq_heap s a = Some q" "a \<notin> set xs" by (rule sched_heldE[OF inv h]) simp
  obtain s' where s': "skynet_globalmq_push a s = Some s'" "gq_same s s'"
    by (rule globalmq_push_ok[OF qinv_rep(1)[OF inv] q])
  have "qinv (H - {a}) s'"
    using inv_publish[OF inv h, of s'] s'(1) by (auto simp: hold_of_upd intro: qinvI)
  with s' gq_same_sig[OF s'(2)] show ?thesis by (auto simp: gq_same_def mq_only_def)
qed

lemma qinv_global_pop:
  assumes "qinv H s"
  shows "(skynet_globalmq_pop s = Some (None, s)) \<or>
    (\<exists>a s'. skynet_globalmq_pop s = Some (Some a, s') \<and> a \<notin> H \<and> qinv (insert a H) s' \<and> mq_only s s' \<and> mq_sig s' = mq_sig s)"
proof -
  obtain xs where inv: "sched_inv \<lparr>sc_mq = s, sc_hold = hold_of H\<rparr> xs" using assms(1) by (auto simp: qinv_def)
  show ?thesis
  proof (cases xs)
    case Nil
    then show ?thesis using globalmq_pop_Nil qinv_rep(1)[OF inv] by auto
  next
    case (Cons a ys)
    obtain s' where s': "skynet_globalmq_pop s = Some (Some a, s')" "gq_same s s'"
      using qinv_rep(1)[OF inv] unfolding Cons by (rule globalmq_pop_Cons)
    have "a \<notin> ran (hold_of H)" using inv Cons by (auto simp: sched_defs)
    then have a: "a \<notin> H" by simp
    have "qinv (insert a H) s'"
      using inv_fetch[OF inv, of a a s'] s'(1) a by (auto simp: hold_of_upd hold_of_def intro: qinvI)
    with s' a gq_same_sig[OF s'(2)] show ?thesis by (auto simp: gq_same_def mq_only_def)
  qed
qed

lemma qinv_create:
  assumes "qinv H s" "mq_heap s a = None"
  shows "qinv (insert a H) (mq_set a (skynet_mq_create h) s)" "a \<notin> H"
proof -
  obtain xs where inv: "sched_inv \<lparr>sc_mq = s, sc_hold = hold_of H\<rparr> xs" using assms(1) by (auto simp: qinv_def)
  show a: "a \<notin> H"
  proof
    assume "a \<in> H"
    then show False by (rule qinv_held[OF assms(1)]) (use assms(2) in simp)
  qed
  show "qinv (insert a H) (mq_set a (skynet_mq_create h) s)"
    using inv_launch[OF inv, of a a h] assms(2) a by (auto simp: hold_of_upd hold_of_def intro: qinvI)
qed

lemma qinv_pop:
  assumes "qinv H s" "a \<in> H" "mq_heap s a = Some q"
  shows "\<exists>r q'. skynet_mq_pop q = Some (r, q') \<and> mq_sig (mq_set a q' s) = mq_sig s \<and> mq_wf q' \<and> mq_list q' = tl (mq_list q) \<and>
    (case r of None \<Rightarrow> mq_list q = [] \<and> (\<not> q_release q \<longrightarrow> qinv (H - {a}) (mq_set a q' s))
             | Some m \<Rightarrow> mq_list q = m # mq_list q' \<and> qinv H (mq_set a q' s))"
proof -
  obtain xs where inv: "sched_inv \<lparr>sc_mq = s, sc_hold = hold_of H\<rparr> xs" using assms(1) by (auto simp: qinv_def)
  have h: "sc_hold \<lparr>sc_mq = s, sc_hold = hold_of H\<rparr> a = Some a" using assms(2) by (simp add: hold_of_def)
  have wf: "mq_wf q" using qinv_wf[OF assms(1,3)] .
  show ?thesis
  proof (cases "mq_list q")
    case Nil
    note e = mq_pop_empty[OF wf Nil]
    have w: "mq_wf (q\<lparr>q_overload_threshold := MQ_OVERLOAD, q_in_global := False\<rparr>)"
      using wf by (simp add: MQ_OVERLOAD_def)
    have "qinv (H - {a}) (mq_set a (q\<lparr>q_overload_threshold := MQ_OVERLOAD, q_in_global := False\<rparr>) s)" if "\<not> q_release q"
      using inv_park[OF inv h, of q] assms(3) that e by (auto simp: hold_of_upd intro: qinvI)
    with e w Nil show ?thesis using mq_sig_upd[OF assms(3), of q] by simp
  next
    case (Cons m ms)
    obtain q' where q0: "skynet_mq_pop q = Some (Some (hd (mq_list q)), q')" "mq_wf q'"
      "mq_list q' = tl (mq_list q)" "q_handle q' = q_handle q" "q_release q' = q_release q"
      by (rule mq_pop_nonempty[OF wf]) (use Cons in simp)
    then have q': "skynet_mq_pop q = Some (Some m, q')" "mq_wf q'" "mq_list q' = ms"
      "q_release q' = q_release q" "q_handle q' = q_handle q" using Cons by simp_all
    have "qinv H (mq_set a q' s)" using inv_pop[OF inv h, of q m q'] assms(3) q'(1) by (auto intro: qinvI)
    with q' Cons show ?thesis using mq_sig_upd[OF assms(3), of q'] by simp
  qed
qed

lemma qinv_set_same:
  assumes "qinv H s" "mq_heap s a = Some q" "mq_wf q'" "mq_list q' = mq_list q" "q_next q' = q_next q"
    "q_in_global q' = q_in_global q" "q_release q' = q_release q"
  shows "qinv H (mq_set a q' s)"
proof -
  obtain xs where inv: "sched_inv \<lparr>sc_mq = s, sc_hold = hold_of H\<rparr> xs" using assms(1) by (auto simp: qinv_def)
  have "mq_view (mq_set a q' s) = mq_view s" using assms by (auto simp: mq_view_def mq_set_def)
  with inv gq_rep_set[OF qinv_rep(1)[OF inv] assms(2,5)] mq_ok_set[OF qinv_rep(2)[OF inv] assms(3)]
  show ?thesis by (intro qinvI[of _ _ xs]) (simp add: sched_defs)
qed

lemma qinv_free:
  assumes "qinv H s" "a \<in> H"
  shows "qinv (H - {a}) (s\<lparr>mq_heap := (mq_heap s)(a := None)\<rparr>)"
proof -
  obtain xs where inv: "sched_inv \<lparr>sc_mq = s, sc_hold = hold_of H\<rparr> xs" using assms(1) by (auto simp: qinv_def)
  have h: "sc_hold \<lparr>sc_mq = s, sc_hold = hold_of H\<rparr> a = Some a" using assms(2) by (simp add: hold_of_def)
  obtain q where q: "mq_heap s a = Some q" "mq_wf q" "q_next q = None" by (rule qinv_held[OF assms])
  show ?thesis
    using inv_drop[OF inv h, of "s\<lparr>mq_heap := (mq_heap s)(a := None)\<rparr>"] drop_queue_plain[OF q(2,1,3)]
    by (auto simp: hold_of_upd intro: qinvI)
qed

end
