(* ===== verification/Node_Inv.thy ===== *)
theory Node_Inv
  imports Node_Commands Node_Queues
begin

text \<open>
  The invariant of the node: the reference count of every context is the number of its owners, which are
  the handle table, the harbor and whoever has grabbed it, and a context lives exactly as long as it
  has an owner. The parameters are the set \<open>H\<close> of queues that some thread holds, the queues \<open>L\<close> of services
  that are being launched, and the number \<open>ex c\<close> of extra references to each context \<open>c\<close>.
\<close>

section \<open>The invariant\<close>

definition refs :: "(nat \<Rightarrow> nat) \<Rightarrow> node \<Rightarrow> nat \<Rightarrow> nat" where
  "refs ex s c = of_bool (c \<in> hs_live (nd_hs s)) + of_bool (nd_remote s = Some c) + ex c"

definition ctx_ok :: "nat set \<Rightarrow> (nat \<Rightarrow> nat) \<Rightarrow> node \<Rightarrow> nat \<Rightarrow> skynet_context \<Rightarrow> bool" where
  "ctx_ok L ex s c x \<longleftrightarrow>
     cx_ref x = int (refs ex s c) \<and> 0 < refs ex s c \<and> mq_sig s (cx_queue x) = Some (cx_handle x, False) \<and>
     (c \<in> hs_live (nd_hs s) \<longrightarrow> cx_init x \<or> cx_queue x \<in> L)"

definition core_inv :: "nat set \<Rightarrow> (nat \<Rightarrow> nat) \<Rightarrow> node \<Rightarrow> bool" where
  "core_inv L ex s \<longleftrightarrow>
     hs_wf (ctx_handle s) (nd_hs s) \<and> names_ok (nd_hs s) \<and>
     (\<forall>c x. nd_ctx s c = Some x \<longrightarrow> ctx_ok L ex s c x) \<and>
     (\<forall>c. 0 < refs ex s c \<longrightarrow> nd_ctx s c \<noteq> None) \<and>
     (\<forall>c d x y. nd_ctx s c = Some x \<longrightarrow> nd_ctx s d = Some y \<longrightarrow> cx_queue x = cx_queue y \<longrightarrow> c = d) \<and>
     nd_harbor s \<noteq> - 1"

lemma core_invI:
  assumes "hs_wf (ctx_handle s) (nd_hs s)" "names_ok (nd_hs s)" "\<And>c x. nd_ctx s c = Some x \<Longrightarrow> ctx_ok L ex s c x"
    "\<And>c. 0 < refs ex s c \<Longrightarrow> nd_ctx s c \<noteq> None"
    "\<And>c d x y. nd_ctx s c = Some x \<Longrightarrow> nd_ctx s d = Some y \<Longrightarrow> cx_queue x = cx_queue y \<Longrightarrow> c = d" "nd_harbor s \<noteq> - 1"
  shows "core_inv L ex s"
  using assms unfolding core_inv_def by blast

lemma core_invD:
  assumes "core_inv L ex s"
  shows "hs_wf (ctx_handle s) (nd_hs s)" "names_ok (nd_hs s)" "nd_ctx s c = Some x \<Longrightarrow> ctx_ok L ex s c x"
    "0 < refs ex s c \<Longrightarrow> nd_ctx s c \<noteq> None"
    "nd_ctx s c = Some x \<Longrightarrow> nd_ctx s d = Some y \<Longrightarrow> cx_queue x = cx_queue y \<Longrightarrow> c = d" "nd_harbor s \<noteq> - 1"
  using assms unfolding core_inv_def by blast+

definition fresh :: "node \<Rightarrow> bool" where
  "fresh s \<longleftrightarrow> (\<forall>a \<ge> nd_brk s. nd_ctx s a = None \<and> mq_sig s a = None)"

text \<open>The harbor id is not 0, so no service has handle 0, and no two queues belong to the same handle.\<close>

definition handles_ok :: "node \<Rightarrow> bool" where
  "handles_ok s \<longleftrightarrow> drop_bit 24 (hs_harbor (nd_hs s)) \<noteq> 0 \<and> (\<forall>a h b. mq_sig s a = Some (h, b) \<longrightarrow> h \<noteq> 0) \<and>
     (\<forall>a a' h b b'. mq_sig s a = Some (h, b) \<longrightarrow> mq_sig s a' = Some (h, b') \<longrightarrow> a = a')"

definition node_inv :: "nat set \<Rightarrow> nat set \<Rightarrow> (nat \<Rightarrow> nat) \<Rightarrow> node \<Rightarrow> bool" where
  "node_inv H L ex s \<longleftrightarrow> qinv H s \<and> fresh s \<and> core_inv L ex s \<and> handles_ok s"

lemma node_invD:
  assumes "node_inv H L ex s"
  shows "qinv H s" "fresh s" "core_inv L ex s" "hs_wf (ctx_handle s) (nd_hs s)" "names_ok (nd_hs s)"
    "nd_ctx s c = Some x \<Longrightarrow> ctx_ok L ex s c x" "0 < refs ex s c \<Longrightarrow> nd_ctx s c \<noteq> None"
    "nd_ctx s c = Some x \<Longrightarrow> nd_ctx s d = Some y \<Longrightarrow> cx_queue x = cx_queue y \<Longrightarrow> c = d" "nd_harbor s \<noteq> - 1" "handles_ok s"
  using assms unfolding node_inv_def core_inv_def by blast+

section \<open>Calm steps\<close>

text \<open>What the invariant sees of a context, and steps that leave it alone.\<close>

definition ctx_sig :: "skynet_context \<Rightarrow> nat \<times> u32 \<times> int \<times> bool \<times> bool" where
  "ctx_sig x = (cx_queue x, cx_handle x, cx_ref x, cx_init x, cx_cb x)"

definition timed :: "node \<Rightarrow> bool" where
  "timed s \<longleftrightarrow> (\<exists>n ps. settled n ps (nd_timer s))"

definition quiet :: "node \<Rightarrow> node \<Rightarrow> bool" where
  "quiet s s' \<longleftrightarrow>
     (\<forall>c. map_option ctx_sig (nd_ctx s' c) = map_option ctx_sig (nd_ctx s c)) \<and> nd_hs s' = nd_hs s \<and>
     nd_remote s' = nd_remote s \<and> nd_harbor s' = nd_harbor s \<and> mq_sig s' = mq_sig s \<and> nd_brk s \<le> nd_brk s' \<and>
     nd_total s' = nd_total s \<and> (timed s \<longrightarrow> timed s')"

lemma quiet_refl [simp]: "quiet s s"
  by (simp add: quiet_def timed_def)

lemma quiet_trans: "quiet s t \<Longrightarrow> quiet t u \<Longrightarrow> quiet s u"
  by (auto simp: quiet_def timed_def)

lemma quiet_ctx:
  assumes "quiet s s'" "nd_ctx s' c = Some y"
  obtains x where "nd_ctx s c = Some x" "ctx_sig x = ctx_sig y"
  using assms unfolding quiet_def timed_def by (cases "nd_ctx s c") (metis option.map(1) option.map(2) option.distinct(1) option.inject)+

lemma quiet_sym_ctx:
  assumes "quiet s s'" "nd_ctx s c = Some x"
  obtains y where "nd_ctx s' c = Some y" "ctx_sig x = ctx_sig y"
  using assms unfolding quiet_def timed_def by (cases "nd_ctx s' c") (metis option.map(1) option.map(2) option.distinct(1) option.inject)+

lemma quiet_handle: "quiet s s' \<Longrightarrow> ctx_handle s' = ctx_handle s"
proof
  fix c assume c: "quiet s s'"
  show "ctx_handle s' c = ctx_handle s c"
  proof (cases "nd_ctx s' c")
    case None
    then have "nd_ctx s c = None" using c by (metis quiet_sym_ctx option.distinct(1) not_None_eq)
    then show ?thesis using None by (simp add: ctx_handle_def)
  next
    case (Some y)
    with c obtain x where "nd_ctx s c = Some x" "ctx_sig x = ctx_sig y" by (rule quiet_ctx)
    then show ?thesis using Some by (simp add: ctx_handle_def ctx_sig_def)
  qed
qed

lemma quiet_refs: "quiet s s' \<Longrightarrow> refs ex s' = refs ex s"
  by (simp add: quiet_def timed_def refs_def fun_eq_iff)

lemma core_inv_quiet:
  assumes "core_inv L ex s" "quiet s s'"
  shows "core_inv L ex s'"
proof -
  have r: "refs ex s' = refs ex s" "mq_sig s' = mq_sig s" "nd_hs s' = nd_hs s" "nd_harbor s' = nd_harbor s"
    using assms(2) quiet_refs by (auto simp: quiet_def timed_def)
  have "ctx_ok L ex s' c y" if y: "nd_ctx s' c = Some y" for c y
  proof -
    obtain x where "nd_ctx s c = Some x" "ctx_sig x = ctx_sig y" using assms(2) y by (rule quiet_ctx)
    moreover from this(1) assms(1) have "ctx_ok L ex s c x" unfolding core_inv_def by blast
    ultimately show ?thesis using r by (simp add: ctx_ok_def ctx_sig_def)
  qed
  moreover have "nd_ctx s' c \<noteq> None" if "0 < refs ex s' c" for c
  proof -
    have "nd_ctx s c \<noteq> None" using that r(1) assms(1) unfolding core_inv_def by metis
    with assms(2) show ?thesis by (metis quiet_sym_ctx option.distinct(1) not_None_eq)
  qed
  moreover have "c = d" if y: "nd_ctx s' c = Some y" "nd_ctx s' d = Some z" "cx_queue y = cx_queue z" for c d y z
  proof -
    obtain x w where "nd_ctx s c = Some x" "ctx_sig x = ctx_sig y" "nd_ctx s d = Some w" "ctx_sig w = ctx_sig z"
      using quiet_ctx[OF assms(2) y(1)] quiet_ctx[OF assms(2) y(2)] by metis
    with y(3) assms(1) show ?thesis unfolding core_inv_def ctx_sig_def by auto
  qed
  ultimately show ?thesis
    using assms(1) r quiet_handle[OF assms(2)] unfolding core_inv_def by metis
qed

lemma fresh_quiet: "fresh s \<Longrightarrow> quiet s s' \<Longrightarrow> fresh s'"
proof -
  assume f: "fresh s" and c: "quiet s s'"
  have "nd_ctx s' a = None" if "nd_ctx s a = None" for a
    using quiet_ctx[OF c] that by (metis option.distinct(1) not_None_eq)
  with f c show ?thesis unfolding fresh_def quiet_def timed_def by auto
qed

lemma handles_sub:
  assumes "handles_ok s" "hs_harbor (nd_hs s') = hs_harbor (nd_hs s)" "\<And>a h b. mq_sig s' a = Some (h, b) \<Longrightarrow> \<exists>b'. mq_sig s a = Some (h, b')"
  shows "handles_ok s'"
  using assms unfolding handles_ok_def by metis

lemma handles_quiet: "handles_ok s \<Longrightarrow> quiet s s' \<Longrightarrow> handles_ok s'"
  by (simp add: handles_ok_def quiet_def timed_def)

lemma node_inv_quiet: "node_inv H L ex s \<Longrightarrow> quiet s s' \<Longrightarrow> qinv H' s' \<Longrightarrow> node_inv H' L ex s'"
  using core_inv_quiet fresh_quiet handles_quiet unfolding node_inv_def by blast

text \<open>In a calm step the queues of dead services keep their messages as well.\<close>

definition calm :: "node \<Rightarrow> node \<Rightarrow> bool" where
  "calm s s' \<longleftrightarrow> quiet s s' \<and> (\<forall>a h. mq_sig s a = Some (h, True) \<longrightarrow> mq_view s' a = mq_view s a)"

lemma calm_quiet: "calm s s' \<Longrightarrow> quiet s s'"
  by (simp add: calm_def)

lemma calm_refl [simp]: "calm s s"
  by (simp add: calm_def)

lemma calm_trans: "calm s t \<Longrightarrow> calm t u \<Longrightarrow> calm s u"
  using quiet_trans[of s t u] by (auto simp: calm_def quiet_def timed_def)

lemmas calm_ctx = quiet_ctx[OF calm_quiet]
lemmas calm_sym_ctx = quiet_sym_ctx[OF calm_quiet]
lemmas calm_refs = quiet_refs[OF calm_quiet]
lemmas node_inv_calm = node_inv_quiet[OF _ calm_quiet]

text \<open>What every operation keeps of the contexts that stay.\<close>

definition keeps :: "node \<Rightarrow> node \<Rightarrow> bool" where
  "keeps s s' \<longleftrightarrow> nd_brk s \<le> nd_brk s' \<and>
     (\<forall>c y. c < nd_brk s \<longrightarrow> nd_ctx s' c = Some y \<longrightarrow>
        (\<exists>x. nd_ctx s c = Some x \<and> cx_queue y = cx_queue x \<and> cx_handle y = cx_handle x \<and> (cx_init x \<longrightarrow> cx_init y))) \<and>
     (\<forall>a h b. a < nd_brk s \<longrightarrow> mq_sig s' a = Some (h, b) \<longrightarrow> (\<exists>b'. mq_sig s a = Some (h, b'))) \<and>
     (nd_remote s \<noteq> None \<longrightarrow> nd_remote s' \<noteq> None) \<and> (timed s \<longrightarrow> timed s')"

lemma keeps_refl [simp]: "keeps s s"
  by (simp add: keeps_def)

lemma keeps_trans: "keeps s t \<Longrightarrow> keeps t u \<Longrightarrow> keeps s u"
proof -
  assume st: "keeps s t" and tu: "keeps t u"
  have "\<exists>x. nd_ctx s c = Some x \<and> cx_queue z = cx_queue x \<and> cx_handle z = cx_handle x \<and> (cx_init x \<longrightarrow> cx_init z)"
    if c: "c < nd_brk s" and z: "nd_ctx u c = Some z" for c z
  proof -
    have "c < nd_brk t" using c st by (simp add: keeps_def timed_def)
    then obtain y where y: "nd_ctx t c = Some y" "cx_queue z = cx_queue y" "cx_handle z = cx_handle y" "cx_init y \<longrightarrow> cx_init z"
      using tu z unfolding keeps_def timed_def by blast
    obtain x where "nd_ctx s c = Some x" "cx_queue y = cx_queue x" "cx_handle y = cx_handle x" "cx_init x \<longrightarrow> cx_init y"
      using st c y(1) unfolding keeps_def timed_def by blast
    with y show ?thesis by simp
  qed
  moreover have "\<exists>b'. mq_sig s a = Some (h, b')" if a: "a < nd_brk s" and z: "mq_sig u a = Some (h, b)" for a h b
  proof -
    have "a < nd_brk t" using a st by (simp add: keeps_def timed_def)
    then obtain b' where "mq_sig t a = Some (h, b')" using tu z unfolding keeps_def timed_def by blast
    then show ?thesis using st a unfolding keeps_def timed_def by blast
  qed
  ultimately show "keeps s u" using st tu unfolding keeps_def timed_def by simp
qed

lemma quiet_keeps: "quiet s s' \<Longrightarrow> keeps s s'"
  using quiet_ctx[of s s'] by (fastforce simp: keeps_def timed_def quiet_def timed_def ctx_sig_def)

lemmas calm_keeps = quiet_keeps[OF calm_quiet]

lemma keeps_set:
  assumes "nd_ctx s c = Some x" "cx_queue y = cx_queue x" "cx_handle y = cx_handle x" "cx_init x \<longrightarrow> cx_init y"
  shows "keeps s (ctx_set c y s)"
  using assms by (auto simp: keeps_def timed_def ctx_set_def mq_sig_def)

lemma mq_only_fields:
  assumes "mq_only s (s' :: node)"
  shows "nd_ctx s' = nd_ctx s" "nd_hs s' = nd_hs s" "nd_remote s' = nd_remote s" "nd_harbor s' = nd_harbor s"
    "nd_brk s' = nd_brk s" "nd_total s' = nd_total s" "nd_data s' = nd_data s" "nd_logger s' = nd_logger s"
    "nd_timer s' = nd_timer s" "nd_env s' = nd_env s" "nd_monitor_exit s' = nd_monitor_exit s" "nd_out s' = nd_out s"
  using assms unfolding mq_only_def by (cases s; cases s'; simp)+

lemma quiet_mq: "mq_only s s' \<Longrightarrow> mq_sig s' = mq_sig s \<Longrightarrow> quiet s s'"
  using mq_only_fields[of s s'] by (simp add: quiet_def timed_def)

lemma calm_mq:
  assumes "mq_only s s'" "mq_sig s' = mq_sig s" "mq_view s' = (mq_view s)(a \<mapsto> v)" "mq_sig s a = Some (h, False)"
  shows "calm s s'"
  using mq_only_fields[OF assms(1)] assms(2-) by (auto simp: calm_def quiet_def timed_def)

section \<open>References\<close>

lemma ctx_set_fields [simp]:
  "nd_ctx (ctx_set c x s) = (nd_ctx s)(c \<mapsto> x)" "nd_hs (ctx_set c x s) = nd_hs s" "nd_remote (ctx_set c x s) = nd_remote s"
  "nd_harbor (ctx_set c x s) = nd_harbor s" "nd_brk (ctx_set c x s) = nd_brk s" "nd_total (ctx_set c x s) = nd_total s"
  "mq_heap (ctx_set c x s) = mq_heap s" "mq_sig (ctx_set c x s) = mq_sig s" "nd_data (ctx_set c x s) = nd_data s"
  "nd_logger (ctx_set c x s) = nd_logger s" "nd_timer (ctx_set c x s) = nd_timer s" "nd_monitor_exit (ctx_set c x s) = nd_monitor_exit s"
  by (simp_all add: ctx_set_def mq_sig_def fun_eq_iff)

lemma qinv_ctx_set [simp]: "qinv H (ctx_set c x s) = qinv H s"
  by (rule qinv_cong) (simp_all add: ctx_set_def)

lemma refs_ctx_set [simp]: "refs ex (ctx_set c x s) = refs ex s"
  by (simp add: refs_def fun_eq_iff)

lemma ctx_ok_ctx_set [simp]: "ctx_ok L ex (ctx_set c x s) = ctx_ok L ex s"
  by (simp add: ctx_ok_def fun_eq_iff)

lemma ctx_handle_set:
  "nd_ctx s c = Some x \<Longrightarrow> cx_handle y = cx_handle x \<Longrightarrow> ctx_handle (ctx_set c y s) = ctx_handle s"
  by (auto simp: ctx_handle_def)

lemma ctx_ok_ex: "ex' c = ex c \<Longrightarrow> ctx_ok L ex' s c x = ctx_ok L ex s c x"
  by (simp add: ctx_ok_def refs_def)

lemma core_ctx_set:
  assumes "core_inv L ex s" "nd_ctx s c = Some x" "cx_queue y = cx_queue x" "cx_handle y = cx_handle x"
    "ctx_ok L ex' s c y" "\<And>d. d \<noteq> c \<Longrightarrow> ex' d = ex d"
  shows "core_inv L ex' (ctx_set c y s)"
proof -
  have "ctx_ok L ex' s d z" if "nd_ctx s d = Some z" "d \<noteq> c" for d z
    using that assms(1) ctx_ok_ex[of ex' d ex, OF assms(6)[OF that(2)]] unfolding core_inv_def by blast
  moreover have "nd_ctx s d \<noteq> None" if "0 < refs ex' s d" "d \<noteq> c" for d
    using that assms(1,6) unfolding core_inv_def refs_def by metis
  ultimately show ?thesis
    using assms(1,2,3,5) ctx_handle_set[OF assms(2,4)] unfolding core_inv_def by auto
qed

lemma node_ctx_set:
  assumes "node_inv H L ex s" "nd_ctx s c = Some x" "cx_queue y = cx_queue x" "cx_handle y = cx_handle x"
    "ctx_ok L ex' s c y" "\<And>d. d \<noteq> c \<Longrightarrow> ex' d = ex d"
  shows "node_inv H L ex' (ctx_set c y s)"
proof -
  have "core_inv L ex' (ctx_set c y s)" by (rule core_ctx_set[OF node_invD(3)[OF assms(1)] assms(2-6)])
  moreover have "fresh (ctx_set c y s)" using node_invD(2)[OF assms(1)] assms(2) by (auto simp: fresh_def)
  ultimately show ?thesis using node_invD(1,10)[OF assms(1)] by (simp add: node_inv_def handles_ok_def)
qed

lemma refs_ctx:
  assumes "node_inv H L ex s" "0 < refs ex s c"
  obtains x where "nd_ctx s c = Some x" "ctx_ok L ex s c x"
  using node_invD(6,7)[OF assms(1)] assms(2) by blast

lemma live_ctx: "node_inv H L ex s \<Longrightarrow> c \<in> hs_live (nd_hs s) \<Longrightarrow> nd_ctx s c \<noteq> None"
  using node_invD(7)[of H L ex s c] by (simp add: refs_def)

lemma slot_deref_ok: "node_inv H L ex s \<Longrightarrow> slot_deref h s = Some ()"
proof -
  assume inv: "node_inv H L ex s"
  note wf = node_invD(4)[OF inv]
  have l: "slot_hash (hs_slot_size (nd_hs s)) h < length (hs_slot (nd_hs s))"
    using slot_hash_less[OF wf, of h] wf by (simp add: hs_wf_def)
  show ?thesis
  proof (cases "hs_slot (nd_hs s) ! slot_hash (hs_slot_size (nd_hs s)) h")
    case None
    then show ?thesis by (simp add: slot_deref_def)
  next
    case (Some c)
    then have "c \<in> hs_live (nd_hs s)" using nth_mem[OF l] by (simp add: hs_live_def)
    with live_ctx[OF inv] Some show ?thesis by (simp add: slot_deref_def)
  qed
qed

lemma context_grab_ok:
  assumes "node_inv H L ex s" "nd_ctx s c = Some x"
  shows "skynet_context_grab c s = Some (ctx_set c (x\<lparr>cx_ref := cx_ref x + 1\<rparr>) s)"
    "node_inv H L (ex(c := ex c + 1)) (ctx_set c (x\<lparr>cx_ref := cx_ref x + 1\<rparr>) s)"
proof -
  show "skynet_context_grab c s = Some (ctx_set c (x\<lparr>cx_ref := cx_ref x + 1\<rparr>) s)"
    using assms(2) by (simp add: skynet_context_grab_def)
  have "ctx_ok L ex s c x" by (rule node_invD(6)[OF assms])
  then have "ctx_ok L (ex(c := ex c + 1)) s c (x\<lparr>cx_ref := cx_ref x + 1\<rparr>)" by (simp add: ctx_ok_def refs_def)
  then show "node_inv H L (ex(c := ex c + 1)) (ctx_set c (x\<lparr>cx_ref := cx_ref x + 1\<rparr>) s)"
    by (intro node_ctx_set[OF assms]) simp_all
qed

text \<open>A deleted context: its queue is marked, and nobody refers to it.\<close>

lemma core_delete:
  assumes core: "core_inv L ex s" and x: "nd_ctx s c = Some x" and r: "refs ex s c = 1" "ex c = 1"
    and s': "nd_ctx s' = (nd_ctx s)(c := None)" "nd_hs s' = nd_hs s" "nd_remote s' = nd_remote s" "nd_harbor s' = nd_harbor s"
      "mq_sig s' = (mq_sig s)(cx_queue x \<mapsto> v)"
  shows "core_inv L (ex(c := 0)) s'"
proof -
  let ?ex = "ex(c := 0)"
  have nl: "c \<notin> hs_live (nd_hs s)" "nd_remote s \<noteq> Some c" using r by (auto simp: refs_def split: if_splits)
  have rf: "refs ?ex s' d = (if d = c then 0 else refs ex s d)" for d
    using nl by (simp add: refs_def s')
  show ?thesis
  proof (rule core_invI)
    show "hs_wf (ctx_handle s') (nd_hs s')"
      unfolding s'(2) using core_invD(1)[OF core] nl(1) by (elim hs_wf_cong[rotated]) (auto simp: ctx_handle_def s'(1))
    show "names_ok (nd_hs s')" "nd_harbor s' \<noteq> - 1" using core_invD(2,6)[OF core] s'(2,4) by simp_all
  next
    fix d y assume "nd_ctx s' d = Some y"
    then have d: "d \<noteq> c" "nd_ctx s d = Some y" using s'(1) by (auto split: if_splits)
    then have "ctx_ok L ex s d y" "cx_queue y \<noteq> cx_queue x" using core_invD(3,5)[OF core] x by blast+
    then show "ctx_ok L ?ex s' d y" using d(1) rf[of d] s'(2,5) by (simp add: ctx_ok_def)
  next
    fix d assume "0 < refs ?ex s' d"
    then show "nd_ctx s' d \<noteq> None" using rf[of d] core_invD(4)[OF core, of d] s'(1) by (auto split: if_splits)
  next
    fix d e y z assume "nd_ctx s' d = Some y" "nd_ctx s' e = Some z" "cx_queue y = cx_queue z"
    then show "d = e" using core_invD(5)[OF core] s'(1) by (auto split: if_splits)
  qed
qed

lemma out_fields [simp]:
  "nd_ctx (out e s) = nd_ctx s" "nd_hs (out e s) = nd_hs s" "nd_remote (out e s) = nd_remote s" "nd_harbor (out e s) = nd_harbor s"
  "nd_brk (out e s) = nd_brk s" "nd_total (out e s) = nd_total s" "mq_heap (out e s) = mq_heap s" "g_head (out e s) = g_head s"
  "g_tail (out e s) = g_tail s" "mq_sig (out e s) = mq_sig s" "nd_data (out e s) = nd_data s" "nd_logger (out e s) = nd_logger s" "nd_timer (out e s) = nd_timer s"
  by (simp_all add: out_def mq_sig_def fun_eq_iff)

lemma qinv_out [simp]: "qinv H (out e s) = qinv H s"
  by (rule qinv_cong) simp_all

lemma delete_ok:
  assumes q: "qinv H s" and x: "nd_ctx s c = Some x" and sg: "mq_sig s (cx_queue x) = Some (h, False)"
  shows "\<exists>s'. delete_context c s = Some s' \<and> qinv H s' \<and> nd_ctx s' = (nd_ctx s)(c := None) \<and> nd_hs s' = nd_hs s \<and>
    nd_remote s' = nd_remote s \<and> nd_harbor s' = nd_harbor s \<and> nd_brk s' = nd_brk s \<and> nd_total s' = nd_total s - 1 \<and>
    nd_logger s' = nd_logger s \<and> nd_data s' = nd_data s \<and> nd_timer s' = nd_timer s \<and> mq_sig s' = (mq_sig s)(cx_queue x \<mapsto> (h, True))"
proof -
  let ?s1 = "case cx_logfile x of None \<Rightarrow> s | Some f \<Rightarrow> out (File_Close f) s"
  let ?s2 = "out (Inst_Release (cx_mod x) (cx_instance x)) ?s1"
  obtain q where q: "mq_heap s (cx_queue x) = Some q" "q_handle q = h" "\<not> q_release q"
    using sg by (auto simp: mq_sig_def)
  have f: "qinv H ?s2" "mq_heap ?s2 (cx_queue x) = Some q" "nd_ctx ?s2 = nd_ctx s" "nd_hs ?s2 = nd_hs s" "nd_remote ?s2 = nd_remote s"
    "nd_harbor ?s2 = nd_harbor s" "nd_brk ?s2 = nd_brk s" "nd_total ?s2 = nd_total s" "mq_sig ?s2 = mq_sig s"
    "nd_logger ?s2 = nd_logger s" "nd_data ?s2 = nd_data s" "nd_timer ?s2 = nd_timer s"
    using assms(1) q(1) by (auto split: option.splits)
  obtain s3 where s3: "skynet_mq_mark_release (cx_queue x) ?s2 = Some s3" "qinv H s3" "mq_only ?s2 s3"
    "mq_sig s3 = (mq_sig ?s2)(cx_queue x \<mapsto> (q_handle q, True))"
    using qinv_mark[OF f(1,2) q(3)] by blast
  let ?s4 = "s3\<lparr>nd_ctx := (nd_ctx s3)(c := None), nd_total := nd_total s3 - 1\<rparr>"
  have "delete_context c s = Some ?s4" using x s3(1) by (simp add: delete_context_def Let_def)
  moreover have "qinv H ?s4" using s3(2) by (simp add: qinv_cong[of ?s4 s3])
  moreover have "mq_sig ?s4 = mq_sig s3" by (simp add: mq_sig_def fun_eq_iff)
  ultimately show ?thesis using mq_only_fields[OF s3(3)] s3(4) f q(2) by simp
qed

lemma context_release_ok:
  assumes inv: "node_inv H L ex s" and e: "0 < ex c"
  shows "\<exists>r s'. skynet_context_release c s = Some (r, s') \<and> node_inv H L (ex(c := ex c - 1)) s' \<and>
    r = (if refs ex s c = 1 then None else Some c) \<and> (\<forall>d. d \<noteq> c \<longrightarrow> nd_ctx s' d = nd_ctx s d) \<and> keeps s s' \<and>
    nd_hs s' = nd_hs s \<and> nd_remote s' = nd_remote s \<and> nd_brk s' = nd_brk s \<and> nd_logger s' = nd_logger s \<and> nd_data s' = nd_data s \<and>
    nd_total s' = nd_total s - of_bool (refs ex s c = 1) \<and>
    (refs ex s c = 1 \<longrightarrow> nd_ctx s' c = None \<and> (\<forall>x. nd_ctx s c = Some x \<longrightarrow> mq_sig s' = (mq_sig s)(cx_queue x \<mapsto> (cx_handle x, True)))) \<and>
    (refs ex s c \<noteq> 1 \<longrightarrow> (\<forall>x. nd_ctx s c = Some x \<longrightarrow> s' = ctx_set c (x\<lparr>cx_ref := cx_ref x - 1\<rparr>) s))"
proof -
  have "0 < refs ex s c" using e by (simp add: refs_def)
  then obtain x where x: "nd_ctx s c = Some x" "ctx_ok L ex s c x" by (rule refs_ctx[OF inv])
  let ?y = "x\<lparr>cx_ref := cx_ref x - 1\<rparr>"
  let ?s1 = "ctx_set c ?y s"
  have rx: "cx_ref x = int (refs ex s c)" "mq_sig s (cx_queue x) = Some (cx_handle x, False)"
    using x(2) by (simp_all add: ctx_ok_def)
  show ?thesis
  proof (cases "refs ex s c = 1")
    case False
    then have "ctx_ok L (ex(c := ex c - 1)) s c ?y" using x(2) e by (auto simp: ctx_ok_def refs_def)
    then have "node_inv H L (ex(c := ex c - 1)) ?s1" by (intro node_ctx_set[OF inv x(1)]) simp_all
    moreover have "skynet_context_release c s = Some (Some c, ?s1)"
      using x(1) rx(1) False by (simp add: skynet_context_release_def Let_def)
    ultimately show ?thesis using False x(1) keeps_set[OF x(1), of ?y] by auto
  next
    case True
    then have e1: "ex c = 1" using e by (simp add: refs_def)
    have "qinv H ?s1" "nd_ctx ?s1 c = Some ?y" "mq_sig ?s1 (cx_queue ?y) = Some (cx_handle x, False)"
      using node_invD(1)[OF inv] rx(2) by simp_all
    from delete_ok[OF this] obtain s' where s': "delete_context c ?s1 = Some s'" "qinv H s'" "nd_ctx s' = (nd_ctx s)(c := None)"
      "nd_hs s' = nd_hs s" "nd_remote s' = nd_remote s" "nd_harbor s' = nd_harbor s" "nd_brk s' = nd_brk s"
      "nd_total s' = nd_total s - 1" "nd_logger s' = nd_logger s" "nd_data s' = nd_data s"
      "nd_timer s' = nd_timer s" "mq_sig s' = (mq_sig s)(cx_queue x \<mapsto> (cx_handle x, True))" by auto
    have "core_inv L (ex(c := 0)) s'"
      by (rule core_delete[OF node_invD(3)[OF inv] x(1) True e1 s'(3-6) s'(12)])
    moreover have "fresh s'" using node_invD(2)[OF inv] s'(3,7,12) rx(2) unfolding fresh_def by auto
    moreover have "skynet_context_release c s = Some (None, s')"
      using x(1) rx(1) True s'(1) by (simp add: skynet_context_release_def Let_def)
    moreover have "handles_ok s'" by (rule handles_sub[OF node_invD(10)[OF inv]]) (use s'(4,12) rx(2) in \<open>auto split: if_splits\<close>)
    moreover have "keeps s s'" using s'(3,5,7,11,12) rx(2) by (auto simp: keeps_def timed_def split: if_splits)
    ultimately show ?thesis using True e1 s' x(1) by (simp add: node_inv_def)
  qed
qed

lemma handle_find_ctx:
  assumes "node_inv H L ex s" "handle_find (ctx_handle s) (nd_hs s) h = Some c"
  obtains x where "nd_ctx s c = Some x" "cx_handle x = h" "c \<in> hs_live (nd_hs s)"
proof -
  have c: "c \<in> hs_live (nd_hs s)" "ctx_handle s c = h"
    using handle_find_iff[OF node_invD(4)[OF assms(1)]] assms(2) by auto
  with live_ctx[OF assms(1) c(1)] that show thesis by (auto simp: ctx_handle_def)
qed

lemma handle_grab_ok:
  assumes "node_inv H L ex s"
  shows "case handle_find (ctx_handle s) (nd_hs s) h of
      None \<Rightarrow> skynet_handle_grab h s = Some (None, s)
    | Some c \<Rightarrow> \<exists>x. nd_ctx s c = Some x \<and> skynet_handle_grab h s = Some (Some c, ctx_set c (x\<lparr>cx_ref := cx_ref x + 1\<rparr>) s) \<and>
        node_inv H L (ex(c := ex c + 1)) (ctx_set c (x\<lparr>cx_ref := cx_ref x + 1\<rparr>) s)"
proof (cases "handle_find (ctx_handle s) (nd_hs s) h")
  case None
  then show ?thesis using slot_deref_ok[OF assms] by (simp add: skynet_handle_grab_def)
next
  case (Some c)
  obtain x where x: "nd_ctx s c = Some x" by (rule handle_find_ctx[OF assms Some])
  then show ?thesis
    using Some slot_deref_ok[OF assms] context_grab_ok[OF assms x] by (simp add: skynet_handle_grab_def)
qed

section \<open>Delivery\<close>

text \<open>A push changes the queue of the addressed service only: the reference it takes is given back.\<close>

lemma push_ok:
  assumes inv: "node_inv H L ex s"
  shows "case handle_find (ctx_handle s) (nd_hs s) h of
      None \<Rightarrow> skynet_context_push h m s = Some (- 1, s)
    | Some c \<Rightarrow> \<exists>x q s'. nd_ctx s c = Some x \<and> mq_heap s (cx_queue x) = Some q \<and> skynet_context_push h m s = Some (0, s') \<and>
        node_inv H L ex s' \<and> mq_only s s' \<and> calm s s' \<and>
        mq_view s' = (mq_view s)(cx_queue x \<mapsto> (mq_list q @ [m], True, False))"
proof (cases "handle_find (ctx_handle s) (nd_hs s) h")
  case None
  then show ?thesis using handle_grab_ok[OF inv, of h] by (simp add: skynet_context_push_def)
next
  case (Some c)
  obtain x where x: "nd_ctx s c = Some x" "c \<in> hs_live (nd_hs s)" by (rule handle_find_ctx[OF inv Some])
  let ?y = "x\<lparr>cx_ref := cx_ref x + 1\<rparr>"
  let ?s1 = "ctx_set c ?y s" and ?ex = "ex(c := ex c + 1)"
  have g: "skynet_handle_grab h s = Some (Some c, ?s1)" "node_inv H L ?ex ?s1"
    using handle_grab_ok[OF inv, of h] Some x(1) by auto
  obtain q where q: "mq_heap s (cx_queue x) = Some q" "\<not> q_release q"
    using node_invD(6)[OF inv x(1)] by (auto simp: ctx_ok_def mq_sig_def)
  obtain s2 where s2: "skynet_mq_push (cx_queue x) m ?s1 = Some s2" "qinv H s2" "mq_only ?s1 s2" "mq_sig s2 = mq_sig ?s1"
    "mq_view s2 = (mq_view ?s1)(cx_queue x \<mapsto> (mq_list q @ [m], True, False))"
    using qinv_send[OF node_invD(1)[OF g(2)], of "cx_queue x" q m] q by auto
  note f2 = mq_only_fields[OF s2(3)]
  have sg: "mq_sig ?s1 (cx_queue x) = Some (q_handle q, False)" using q by (simp add: mq_sig_def)
  have inv2: "node_inv H L ?ex s2" by (rule node_inv_calm[OF g(2) calm_mq[OF s2(3,4,5) sg] s2(2)])
  have y2: "nd_ctx s2 c = Some ?y" using f2(1) by simp
  have "refs ?ex s2 c \<noteq> 1" using x(2) f2(2) by (simp add: refs_def)
  then obtain s3 where s3: "skynet_context_release c s2 = Some (Some c, s3)" "node_inv H L (?ex(c := ?ex c - 1)) s3"
    "s3 = ctx_set c (?y\<lparr>cx_ref := cx_ref ?y - 1\<rparr>) s2"
    using context_release_ok[OF inv2, of c] y2 by auto
  have ex: "?ex(c := ?ex c - 1) = ex" by (auto simp: fun_eq_iff)
  have s3': "s3 = s2\<lparr>nd_ctx := nd_ctx s\<rparr>"
    using x(1) f2(1) unfolding s3(3) by (simp add: ctx_set_def) (metis fun_upd_triv)
  have "mq_only s s3" using s2(3) unfolding s3' by (cases s; cases s2) (simp add: mq_only_def ctx_set_def)
  moreover have "mq_sig s3 = mq_sig s" using s2(4) by (simp add: s3' mq_sig_def fun_eq_iff)
  moreover have v3: "mq_view s3 = (mq_view s)(cx_queue x \<mapsto> (mq_list q @ [m], True, False))"
    using s2(5) by (simp add: s3' mq_view_def fun_eq_iff ctx_set_def)
  moreover have "skynet_context_push h m s = Some (0, s3)"
    using g(1) s2(1) s3(1) by (simp add: skynet_context_push_def)
  ultimately show ?thesis using Some x(1) q s3(2)[unfolded ex] calm_mq[OF _ _ v3, of "q_handle q"] by (auto simp: mq_sig_def)
qed

lemma push_calm:
  assumes inv: "node_inv H L ex s"
  shows "\<exists>r s'. skynet_context_push h m s = Some (r, s') \<and> node_inv H L ex s' \<and> calm s s' \<and> mq_only s s'"
  using push_ok[OF inv, of h m] inv by (auto split: option.splits)

text \<open>Fields that the invariant does not see.\<close>

lemma calm_fields:
  "calm s (s\<lparr>nd_logger := h\<rparr>)" "calm s (s\<lparr>nd_out := es\<rparr>)" "calm s (s\<lparr>nd_env := e\<rparr>)" "calm s (s\<lparr>nd_monitor_exit := h\<rparr>)"
  "calm s (s\<lparr>nd_data := D\<rparr>)" "calm s (out ev s)" "calm s (snd (data_new p s))" "calm s (data_free d s)"
  by (auto simp: calm_def quiet_def timed_def mq_sig_def mq_view_def data_new_def data_free_def out_def fun_eq_iff split: option.splits)

lemma qinv_fields [simp]:
  "qinv H (s\<lparr>nd_logger := h\<rparr>) = qinv H s" "qinv H (s\<lparr>nd_out := es\<rparr>) = qinv H s" "qinv H (s\<lparr>nd_timer := T\<rparr>) = qinv H s" "qinv H (s\<lparr>nd_env := e\<rparr>) = qinv H s"
  "qinv H (s\<lparr>nd_monitor_exit := h\<rparr>) = qinv H s" "qinv H (s\<lparr>nd_data := D\<rparr>) = qinv H s"
  "qinv H (snd (data_new p s)) = qinv H s" "qinv H (data_free d s) = qinv H s"
  by (rule qinv_cong; simp add: data_new_def data_free_def split: option.splits)+

lemma node_inv_fields [intro]:
  assumes "node_inv H L ex s"
  shows "node_inv H L ex (s\<lparr>nd_logger := h\<rparr>)" "node_inv H L ex (s\<lparr>nd_out := es\<rparr>)" "node_inv H L ex (s\<lparr>nd_env := e\<rparr>)"
    "node_inv H L ex (s\<lparr>nd_monitor_exit := h\<rparr>)" "node_inv H L ex (s\<lparr>nd_data := D\<rparr>)" "node_inv H L ex (out ev s)"
    "node_inv H L ex (snd (data_new p s))" "node_inv H L ex (data_free d s)"
  using node_invD(1)[OF assms] by (auto intro!: node_inv_calm[OF assms] calm_fields)

text \<open>A change of a context that the invariant does not see.\<close>

lemma ctx_set_calm:
  assumes inv: "node_inv H L ex s" and x: "nd_ctx s c = Some x" and y: "ctx_sig y = ctx_sig x"
  shows "node_inv H L ex (ctx_set c y s)" "calm s (ctx_set c y s)"
proof -
  show c: "calm s (ctx_set c y s)" using x y by (simp add: calm_def quiet_def timed_def mq_view_def)
  show "node_inv H L ex (ctx_set c y s)" by (rule node_inv_calm[OF inv c]) (simp add: node_invD(1)[OF inv])
qed

lemma findname_some: "node_inv H L ex s \<Longrightarrow> \<exists>h. skynet_handle_findname (nd_hs s) name = Some h"
  using findname_ok[OF node_invD(5)] by blast

lemma error_ok:
  assumes inv: "node_inv H L ex s" and c: "\<And>c. cxt = Some c \<Longrightarrow> nd_ctx s c \<noteq> None"
  shows "\<exists>s'. skynet_error cxt text s = Some s' \<and> node_inv H L ex s' \<and> calm s s'"
proof -
  obtain h where h: "(if nd_logger s = 0 then skynet_handle_findname (nd_hs s) ''logger'' else Some (nd_logger s)) = Some h"
    using findname_some[OF inv, of "''logger''"] by (cases "nd_logger s = 0") auto
  let ?s1 = "s\<lparr>nd_logger := h\<rparr>"
  have i1: "node_inv H L ex ?s1" "calm s ?s1" using inv calm_fields by auto
  show ?thesis
  proof (cases "h = 0")
    case True
    then show ?thesis using h i1 by (simp add: skynet_error_def Let_def)
  next
    case False
    obtain d s2 where ds: "data_new (Raw text) ?s1 = (d, s2)" by (cases "data_new (Raw text) ?s1")
    have s2: "s2 = snd (data_new (Raw text) ?s1)" using ds by simp
    have i2: "node_inv H L ex s2" "calm s s2" unfolding s2 using i1 calm_fields calm_trans by blast+
    obtain src where src: "(case cxt of None \<Rightarrow> Some 0 | Some c \<Rightarrow> map_option cx_handle (nd_ctx s2 c)) = Some src"
      using c by (cases cxt) (auto simp: data_new_def s2)
    obtain r s3 where "skynet_context_push h \<lparr>m_source = src, m_session = 0, m_data = Some d, m_sz = of_nat (length text)\<rparr> s2 = Some (r, s3)"
      "node_inv H L ex s3" "calm s2 s3" using push_calm[OF i2(1)] by blast
    then show ?thesis
      using h False src ds calm_trans[OF i2(2)] by (auto simp: skynet_error_def Let_def)
  qed
qed

lemma newsession_ok:
  assumes inv: "node_inv H L ex s" and x: "nd_ctx s c = Some x"
  shows "\<exists>n s'. skynet_context_newsession c s = Some (n, s') \<and> node_inv H L ex s' \<and> calm s s' \<and> nd_data s' = nd_data s \<and>
    nd_brk s' = nd_brk s \<and> mq_view s' = mq_view s \<and> 0 < sint n"
  using ctx_set_calm[OF inv x, of "x\<lparr>cx_session_id := 1\<rparr>"] ctx_set_calm[OF inv x, of "x\<lparr>cx_session_id := cx_session_id x + 1\<rparr>"] x
  by (auto simp: skynet_context_newsession_def Let_def ctx_sig_def mq_view_def fun_eq_iff)

lemma context_send_ok:
  assumes inv: "node_inv H L ex s" and x: "nd_ctx s c = Some x"
  shows "\<exists>s'. skynet_context_send c d sz source ty session s = Some s' \<and> node_inv H L ex s' \<and> calm s s'"
proof -
  obtain q where q: "mq_heap s (cx_queue x) = Some q" "\<not> q_release q"
    using node_invD(6)[OF inv x] by (auto simp: ctx_ok_def mq_sig_def)
  let ?m = "\<lparr>m_source = source, m_session = session, m_data = d, m_sz = sz OR push_bit MESSAGE_TYPE_SHIFT ty\<rparr>"
  obtain s' where s': "skynet_mq_push (cx_queue x) ?m s = Some s'" "qinv H s'" "mq_only s s'" "mq_sig s' = mq_sig s"
    "mq_view s' = (mq_view s)(cx_queue x \<mapsto> (mq_list q @ [?m], True, False))"
    using qinv_send[OF node_invD(1)[OF inv] q] by blast
  have c: "calm s s'" using calm_mq[OF s'(3,4,5), of "q_handle q"] q by (simp add: mq_sig_def)
  show ?thesis using x s'(1) node_inv_calm[OF inv c s'(2)] c by (simp add: skynet_context_send_def)
qed

section \<open>Sending\<close>

lemma type_bits:
  assumes "sz AND MESSAGE_TYPE_MASK = (sz :: u64)"
  shows "drop_bit MESSAGE_TYPE_SHIFT (sz OR push_bit MESSAGE_TYPE_SHIFT (word_of_int (ty AND 0xff))) = (word_of_int (ty AND 0xff) :: u64)"
    "(sz OR push_bit MESSAGE_TYPE_SHIFT (word_of_int (ty AND 0xff))) AND MESSAGE_TYPE_MASK = sz"
proof -
  have m: "MESSAGE_TYPE_MASK = mask 56" and f: "(0xff :: int) = mask 8" and sh: "MESSAGE_TYPE_SHIFT = 56"
    by (simp_all add: MESSAGE_TYPE_MASK_def MESSAGE_TYPE_SHIFT_def mask_eq_exp_minus_1)
  have b: "bit sz n \<Longrightarrow> n < 56" for n using arg_cong[OF assms, of "\<lambda>w. bit w n"] unfolding m by (auto simp: bit_simps)
  show "drop_bit MESSAGE_TYPE_SHIFT (sz OR push_bit MESSAGE_TYPE_SHIFT (word_of_int (ty AND 0xff))) = (word_of_int (ty AND 0xff) :: u64)"
    unfolding f sh by (rule bit_word_eqI) (auto simp: bit_simps dest: b)
  show "(sz OR push_bit MESSAGE_TYPE_SHIFT (word_of_int (ty AND 0xff))) AND MESSAGE_TYPE_MASK = sz"
    unfolding m sh by (rule bit_word_eqI) (auto simp: bit_simps dest: b)
qed

lemma word_low_byte_eq:
  assumes "0 \<le> k" "k < 256"
  shows "(word_of_int (ty AND 0xff) :: u64) = word_of_int k \<longleftrightarrow> ty AND 0xff = k"
proof -
  define t where "t = ty AND 0xff"
  have "0 \<le> t" "t \<le> 0xff" unfolding t_def by (simp_all add: AND_upper2)
  then show ?thesis unfolding t_def[symmetric] using assms by (auto simp: word_of_int_eq_iff take_bit_int_eq_self)
qed

text \<open>What a caller owes: a live context where one is needed, and a block as large as it says if it is to be copied.\<close>

definition send_pre :: "nat option \<Rightarrow> u32 \<Rightarrow> int \<Rightarrow> u32 \<Rightarrow> nat option \<Rightarrow> u64 \<Rightarrow> node \<Rightarrow> bool" where
  "send_pre cxt source ty session d sz s \<longleftrightarrow>
     (case cxt of None \<Rightarrow> source \<noteq> 0 | Some c \<Rightarrow> nd_ctx s c \<noteq> None) \<and>
     (ty AND PTYPE_TAG_ALLOCSESSION \<noteq> 0 \<longrightarrow> session = 0 \<and> cxt \<noteq> None) \<and>
     (ty AND PTYPE_TAG_DONTCOPY = 0 \<longrightarrow>
        (case d of None \<Rightarrow> True
         | Some a \<Rightarrow> (case nd_data s a of Some (Raw bs) \<Rightarrow> unat sz \<le> length bs | _ \<Rightarrow> False)))"

definition harbor_pre :: "int \<Rightarrow> node \<Rightarrow> bool" where
  "harbor_pre ty s \<longleftrightarrow> nd_remote s \<noteq> None \<and> ty AND 0xff \<noteq> PTYPE_SYSTEM \<and> ty AND 0xff \<noteq> PTYPE_HARBOR"

definition is_remote :: "u32 \<Rightarrow> node \<Rightarrow> bool" where
  "is_remote h s \<longleftrightarrow> h AND NOT HANDLE_MASK \<noteq> nd_harbor s \<and> h AND NOT HANDLE_MASK \<noteq> 0"

lemma isremote_ok: "node_inv H L ex s \<Longrightarrow> skynet_harbor_message_isremote h s = Some (is_remote h s)"
  using node_invD(9)[of H L ex s] by (simp add: skynet_harbor_message_isremote_def is_remote_def Let_def)

text \<open>The block that is sent: the caller's own one, or a new one with the first \<open>sz\<close> bytes of it.\<close>

definition sent_block :: "int \<Rightarrow> nat option \<Rightarrow> u64 \<Rightarrow> node \<Rightarrow> nat option \<Rightarrow> node \<Rightarrow> bool" where
  "sent_block ty d sz s d' s' \<longleftrightarrow>
     (case d of
        None \<Rightarrow> d' = None \<and> nd_data s' = nd_data s
      | Some a \<Rightarrow>
          if ty AND PTYPE_TAG_DONTCOPY \<noteq> 0 then d' = Some a \<and> nd_data s' = nd_data s
          else (case nd_data s a of
                  Some (Raw bs) \<Rightarrow> d' = Some (nd_brk s) \<and> nd_data s' = (nd_data s)(nd_brk s \<mapsto> Raw (take (unat sz) bs))
                | _ \<Rightarrow> False))"

lemma filter_ok:
  assumes inv: "node_inv H L ex s" and pre: "send_pre cxt source ty session d sz s"
  shows "\<exists>n d' s'. filter_args cxt ty session d sz s = Some (n, d', sz OR push_bit MESSAGE_TYPE_SHIFT (word_of_int (ty AND 0xff)), s') \<and>
    node_inv H L ex s' \<and> calm s s' \<and> (ty AND PTYPE_TAG_ALLOCSESSION = 0 \<longrightarrow> n = session) \<and> (ty AND PTYPE_TAG_ALLOCSESSION \<noteq> 0 \<longrightarrow> 0 < sint n) \<and>
    sent_block ty d sz s d' s' \<and> mq_view s' = mq_view s"
proof -
  obtain n s1 where n: "(if ty AND PTYPE_TAG_ALLOCSESSION \<noteq> 0 then do { _ \<leftarrow> assert_opt (session = 0); c \<leftarrow> cxt; skynet_context_newsession c s }
        else Some (session, s)) = Some (n, s1)"
    "node_inv H L ex s1" "calm s s1" "nd_data s1 = nd_data s" "nd_brk s1 = nd_brk s" "mq_view s1 = mq_view s"
    "ty AND PTYPE_TAG_ALLOCSESSION = 0 \<longrightarrow> n = session" "ty AND PTYPE_TAG_ALLOCSESSION \<noteq> 0 \<longrightarrow> 0 < sint n"
  proof (cases "ty AND PTYPE_TAG_ALLOCSESSION = 0")
    case False
    then obtain c x where c: "cxt = Some c" "session = 0" "nd_ctx s c = Some x" using pre by (auto simp: send_pre_def)
    show thesis using newsession_ok[OF inv c(3)] that c False by auto
  qed (use inv that in auto)
  obtain d' s2 where d: "(case d of None \<Rightarrow> Some (None, s1)
        | Some a \<Rightarrow> if ty AND PTYPE_TAG_DONTCOPY = 0 then
              (case nd_data s1 a of
                 Some (Raw bs) \<Rightarrow> if unat sz \<le> length bs
                   then (let (d', s') = data_new (Raw (take (unat sz) bs)) s1 in Some (Some d', s')) else None
               | _ \<Rightarrow> None)
            else Some (Some a, s1)) = Some (d', s2)" "sent_block ty d sz s d' s2" "s2 = s1 \<or> (\<exists>p. s2 = snd (data_new p s1))"
  proof (cases d)
    case (Some a)
    show thesis
    proof (cases "ty AND PTYPE_TAG_DONTCOPY = 0")
      case True
      then obtain bs where bs: "nd_data s1 a = Some (Raw bs)" "unat sz \<le> length bs"
        using pre Some n(4) by (auto simp: send_pre_def split: option.splits payload.splits)
      let ?p = "Raw (take (unat sz) bs)"
      show thesis by (rule that[of "Some (fst (data_new ?p s1))" "snd (data_new ?p s1)"]) (use Some True bs n(4,5) in \<open>auto simp: case_prod_beta sent_block_def data_new_def\<close>)
    qed (use Some that n(4) in \<open>auto simp: sent_block_def\<close>)
  qed (use that n(4) in \<open>auto simp: sent_block_def\<close>)
  have "node_inv H L ex s2" "calm s1 s2" using d(3) n(2) node_inv_fields(7) calm_fields(7) by auto
  moreover have "mq_view s2 = mq_view s" using d(3) n(6) by (auto simp: data_new_def mq_view_def fun_eq_iff)
  ultimately show ?thesis using n d(1,2) calm_trans[OF n(3)] unfolding filter_args_def n(1) by auto
qed

lemma source_ok:
  assumes "send_pre cxt source ty session d sz s" "calm s s'"
  shows "\<exists>h. source_of cxt source s' = Some h \<and> source_of cxt source s = Some h \<and> (source \<noteq> 0 \<longrightarrow> h = source)"
proof (cases cxt)
  case (Some c)
  then obtain x where x: "nd_ctx s c = Some x" using assms(1) by (auto simp: send_pre_def)
  obtain y where "nd_ctx s' c = Some y" "ctx_sig x = ctx_sig y" by (rule calm_sym_ctx[OF assms(2) x])
  then show ?thesis using Some x by (simp add: source_of_def ctx_sig_def)
qed (use assms in \<open>auto simp: send_pre_def source_of_def\<close>)

lemma harbor_send_ok:
  assumes inv: "node_inv H L ex s" and sz: "sz AND MESSAGE_TYPE_MASK = sz" and pre: "harbor_pre ty s"
    and rm: "rm_sz rm = sz OR push_bit MESSAGE_TYPE_SHIFT (word_of_int (ty AND 0xff))"
  shows "\<exists>s'. skynet_harbor_send rm source session s = Some s' \<and> node_inv H L ex s' \<and> calm s s'"
proof -
  obtain r where r: "nd_remote s = Some r" using pre by (auto simp: harbor_pre_def)
  let ?p = "Rmsg (rm\<lparr>rm_sz := rm_sz rm AND MESSAGE_TYPE_MASK\<rparr>)"
  obtain d s1 where ds: "data_new ?p s = (d, s1)" by (cases "data_new ?p s")
  have s1: "s1 = snd (data_new ?p s)" using ds by simp
  have i1: "node_inv H L ex s1" "calm s s1" unfolding s1 using inv calm_fields(7) by auto
  have "0 < refs ex s1 r" using r i1(2) by (simp add: refs_def calm_def quiet_def timed_def)
  then obtain x where x: "nd_ctx s1 r = Some x" by (rule refs_ctx[OF i1(1)])
  have ty: "drop_bit MESSAGE_TYPE_SHIFT (rm_sz rm) \<noteq> word_of_int PTYPE_SYSTEM" "drop_bit MESSAGE_TYPE_SHIFT (rm_sz rm) \<noteq> word_of_int PTYPE_HARBOR"
    unfolding rm type_bits(1)[OF sz] using pre word_low_byte_eq[of PTYPE_SYSTEM ty] word_low_byte_eq[of PTYPE_HARBOR ty]
    by (simp_all add: harbor_pre_def PTYPE_SYSTEM_def PTYPE_HARBOR_def)
  show ?thesis
    using context_send_ok[OF i1(1) x, of "Some d" 40 source "drop_bit MESSAGE_TYPE_SHIFT (rm_sz rm)" session] calm_trans[OF i1(2)] ty ds r
    by (auto simp: skynet_harbor_send_def Let_def)
qed

lemma free_dontcopy_ok: "node_inv H L ex s \<Longrightarrow> node_inv H L ex (free_dontcopy ty d s)" "calm s (free_dontcopy ty d s)"
  using node_inv_fields(8) calm_fields(8) by (auto simp: free_dontcopy_def)

lemma calm_remote: "calm s s' \<Longrightarrow> is_remote h s' = is_remote h s" "calm s s' \<Longrightarrow> harbor_pre ty s' = harbor_pre ty s"
  by (auto simp: is_remote_def harbor_pre_def calm_def quiet_def timed_def)

lemma send_ok:
  assumes inv: "node_inv H L ex s" and pre: "send_pre cxt source ty session d sz s"
    and rem: "is_remote dest s \<Longrightarrow> harbor_pre ty s"
  shows "\<exists>r s'. skynet_send cxt source dest ty session d sz s = Some (r, s') \<and> node_inv H L ex s' \<and> calm s s'"
proof (cases "sz AND MESSAGE_TYPE_MASK = sz")
  case False
  have c: "nd_ctx s c \<noteq> None" if "cxt = Some c" for c using pre that by (auto simp: send_pre_def)
  show ?thesis
    using error_ok[OF inv c, of cxt "str ''The message to '' @ nat_hex (unat dest) @ str '' is too large''"] False
      free_dontcopy_ok calm_trans[OF _ free_dontcopy_ok(2)] by (auto simp: skynet_send_def)
next
  case True
  let ?sz = "sz OR push_bit MESSAGE_TYPE_SHIFT (word_of_int (ty AND 0xff))"
  obtain n d' s1 where f: "filter_args cxt ty session d sz s = Some (n, d', ?sz, s1)" "node_inv H L ex s1" "calm s s1"
    using filter_ok[OF inv pre] by blast
  obtain h where h: "source_of cxt source s1 = Some h" using source_ok[OF pre f(3)] by blast
  show ?thesis
  proof (cases "dest = 0")
    case False
    show ?thesis
    proof (cases "is_remote dest s")
      case r: True
      obtain s2 where "skynet_harbor_send \<lparr>rm_name = [], rm_handle = dest, rm_message = d', rm_sz = ?sz\<rparr> h n s1 = Some s2"
        "node_inv H L ex s2" "calm s1 s2"
        using harbor_send_ok[OF f(2) True, of ty "\<lparr>rm_name = [], rm_handle = dest, rm_message = d', rm_sz = ?sz\<rparr>" h n] rem[OF r]
          calm_remote(2)[OF f(3)] by auto
      then show ?thesis
        using True False f h r isremote_ok[OF f(2), of dest] calm_remote(1)[OF f(3)] calm_trans[OF f(3)] by (auto simp: skynet_send_def)
    next
      case r: False
      obtain e s2 where p: "skynet_context_push dest \<lparr>m_source = h, m_session = n, m_data = d', m_sz = ?sz\<rparr> s1 = Some (e, s2)"
        "node_inv H L ex s2" "calm s1 s2" using push_calm[OF f(2)] by blast
      then have "node_inv H L ex (data_free d' s2)" "calm s (data_free d' s2)" "calm s s2"
        using node_inv_fields(8)[OF p(2)] calm_trans[OF f(3) p(3)] calm_trans[OF calm_trans[OF f(3) p(3)] calm_fields(8)] by simp_all
      then show ?thesis
        using p True False f h r isremote_ok[OF f(2), of dest] calm_remote(1)[OF f(3)] by (auto simp: skynet_send_def)
    qed
  qed (use True f h in \<open>auto simp: skynet_send_def\<close>)
qed

lemma drop_message_ok:
  assumes inv: "node_inv H L ex s" and h: "h \<noteq> 0" and rem: "is_remote (m_source m) s \<Longrightarrow> nd_remote s \<noteq> None"
  shows "\<exists>s'. drop_message h m s = Some s' \<and> node_inv H L ex s' \<and> calm s s'"
proof -
  let ?s = "data_free (m_data m) s"
  have "is_remote (m_source m) ?s \<Longrightarrow> harbor_pre PTYPE_ERROR ?s"
    using rem by (auto simp: is_remote_def harbor_pre_def data_free_def PTYPE_ERROR_def PTYPE_SYSTEM_def PTYPE_HARBOR_def split: option.splits)
  moreover have "send_pre None h PTYPE_ERROR 0 None 0 ?s"
    using h by (simp add: send_pre_def PTYPE_ERROR_def PTYPE_TAG_ALLOCSESSION_def)
  ultimately show ?thesis
    using send_ok[OF node_inv_fields(8)[OF inv], of None h PTYPE_ERROR 0 None 0 "m_data m" "m_source m"] calm_trans[OF calm_fields(8)] h
    by (auto simp: drop_message_def Let_def)
qed

section \<open>Retiring\<close>

lemma unlist_ok:
  assumes inv: "node_inv H L ex s" and f: "handle_find (ctx_handle s) (nd_hs s) h = Some c"
  shows "\<exists>hs. handle_remove (ctx_handle s) h (nd_hs s) = Some (Some c, hs) \<and> hs_live hs = hs_live (nd_hs s) - {c} \<and>
    hs_slot_size hs = hs_slot_size (nd_hs s) \<and> node_inv H L (ex(c := ex c + 1)) (s\<lparr>nd_hs := hs\<rparr>)"
proof -
  obtain hs where hs: "handle_remove (ctx_handle s) h (nd_hs s) = Some (Some c, hs)" "hs_wf (ctx_handle s) hs" "names_ok hs"
    "hs_live hs = hs_live (nd_hs s) - {c}" "hs_harbor hs = hs_harbor (nd_hs s)" by (rule handle_remove_ok[OF node_invD(4,5)[OF inv] f]) simp
  have sz: "hs_slot_size hs = hs_slot_size (nd_hs s)"
    using hs(1) f by (auto simp: handle_remove_def split: option.splits bind_splits)
  have c: "c \<in> hs_live (nd_hs s)" using handle_find_iff[OF node_invD(4)[OF inv]] f by auto
  have ch: "ctx_handle (s\<lparr>nd_hs := hs\<rparr>) = ctx_handle s" by (simp add: ctx_handle_def fun_eq_iff)
  have r: "refs (ex(c := ex c + 1)) (s\<lparr>nd_hs := hs\<rparr>) = refs ex s" using c hs(4) by (auto simp: refs_def fun_eq_iff)
  have "core_inv L (ex(c := ex c + 1)) (s\<lparr>nd_hs := hs\<rparr>)"
    using hs(2,3,4) node_invD(6,7,8,9)[OF inv] r by (intro core_invI) (auto simp: ch ctx_ok_def mq_sig_def)
  moreover have "fresh (s\<lparr>nd_hs := hs\<rparr>)" using node_invD(2)[OF inv] by (simp add: fresh_def mq_sig_def)
  moreover have "qinv H (s\<lparr>nd_hs := hs\<rparr>)" using node_invD(1)[OF inv] qinv_cong[of "s\<lparr>nd_hs := hs\<rparr>" s] by simp
  moreover have "handles_ok (s\<lparr>nd_hs := hs\<rparr>)" using node_invD(10)[OF inv] hs(5) by (simp add: handles_ok_def mq_sig_def)
  ultimately show ?thesis using hs sz by (auto simp: node_inv_def)
qed

text \<open>A retired service is no longer found; its context goes if nobody else has a reference.\<close>

lemma retire_ok:
  assumes inv: "node_inv H L ex s"
  shows "case handle_find (ctx_handle s) (nd_hs s) h of
      None \<Rightarrow> skynet_handle_retire h s = Some (0, s)
    | Some c \<Rightarrow> \<exists>s'. skynet_handle_retire h s = Some (1, s') \<and> node_inv H L ex s' \<and> c \<in> hs_live (nd_hs s) \<and>
        hs_live (nd_hs s') = hs_live (nd_hs s) - {c} \<and> hs_slot_size (nd_hs s') = hs_slot_size (nd_hs s) \<and>
        nd_remote s' = nd_remote s \<and> (\<forall>d. d \<noteq> c \<longrightarrow> nd_ctx s' d = nd_ctx s d) \<and> keeps s s'"
proof (cases "handle_find (ctx_handle s) (nd_hs s) h")
  case None
  then show ?thesis using slot_deref_ok[OF inv, of h] by (simp add: skynet_handle_retire_def handle_remove_def)
next
  case (Some c)
  obtain hs where hs: "handle_remove (ctx_handle s) h (nd_hs s) = Some (Some c, hs)" "hs_live hs = hs_live (nd_hs s) - {c}"
    "hs_slot_size hs = hs_slot_size (nd_hs s)" "node_inv H L (ex(c := ex c + 1)) (s\<lparr>nd_hs := hs\<rparr>)"
    using unlist_ok[OF inv Some] by blast
  obtain r s2 where s2: "skynet_context_release c (s\<lparr>nd_hs := hs\<rparr>) = Some (r, s2)"
    "node_inv H L ((ex(c := ex c + 1))(c := (ex(c := ex c + 1)) c - 1)) s2" "\<forall>d. d \<noteq> c \<longrightarrow> nd_ctx s2 d = nd_ctx s d"
    "nd_hs s2 = hs" "nd_remote s2 = nd_remote s" "keeps (s\<lparr>nd_hs := hs\<rparr>) s2"
    using context_release_ok[OF hs(4), of c] by auto
  have "keeps s s2" using s2(6) by (simp add: keeps_def timed_def mq_sig_def)
  moreover have "(ex(c := ex c + 1))(c := (ex(c := ex c + 1)) c - 1) = ex" by auto
  moreover have "c \<in> hs_live (nd_hs s)" using handle_find_iff[OF node_invD(4)[OF inv]] Some by auto
  ultimately show ?thesis using slot_deref_ok[OF inv, of h] hs s2 Some by (auto simp: skynet_handle_retire_def)
qed

lemma retire_slots_ok:
  assumes "node_inv H L ex s" "\<forall>i \<in> set is. i < hs_slot_size (nd_hs s)"
  shows "\<exists>n s'. retire_slots is s = Some (n, s') \<and> node_inv H L ex s' \<and> hs_live (nd_hs s') \<subseteq> hs_live (nd_hs s) \<and>
    hs_slot_size (nd_hs s') = hs_slot_size (nd_hs s) \<and> nd_remote s' = nd_remote s \<and>
    (n \<noteq> 0 \<longrightarrow> hs_live (nd_hs s') \<noteq> hs_live (nd_hs s)) \<and>
    (n = 0 \<longrightarrow> (\<forall>i \<in> set is. \<forall>c. hs_slot (nd_hs s) ! i = Some c \<longrightarrow> ctx_handle s c = 0) \<and> s' = s) \<and> keeps s s'"
  using assms
proof (induction "is" arbitrary: s)
  case (Cons i "is")
  note wf = node_invD(4)[OF Cons.prems(1)]
  have len: "length (hs_slot (nd_hs s)) = hs_slot_size (nd_hs s)" using wf by (simp add: hs_wf_def)
  obtain h where h: "(case hs_slot (nd_hs s) ! i of None \<Rightarrow> Some 0 | Some c \<Rightarrow> map_option cx_handle (nd_ctx s c)) = Some h"
    "\<forall>c. hs_slot (nd_hs s) ! i = Some c \<longrightarrow> c \<in> hs_live (nd_hs s) \<and> ctx_handle s c = h"
  proof (cases "hs_slot (nd_hs s) ! i")
    case (Some c)
    then have c: "c \<in> hs_live (nd_hs s)" using Cons.prems(2) len by (auto simp: hs_live_def) (metis nth_mem)
    then obtain x where "nd_ctx s c = Some x" using live_ctx[OF Cons.prems(1)] by auto
    then show thesis using that[of "cx_handle x"] Some c by (simp add: ctx_handle_def)
  qed (use that in auto)
  obtain r s1 where r: "(if h \<noteq> 0 then skynet_handle_retire h s else Some (0, s)) = Some (r, s1)" "node_inv H L ex s1"
    "hs_live (nd_hs s1) \<subseteq> hs_live (nd_hs s)" "hs_slot_size (nd_hs s1) = hs_slot_size (nd_hs s)" "nd_remote s1 = nd_remote s"
    "r \<noteq> 0 \<longrightarrow> hs_live (nd_hs s1) \<noteq> hs_live (nd_hs s)"
    "r = 0 \<longrightarrow> s1 = s \<and> (h \<noteq> 0 \<longrightarrow> handle_find (ctx_handle s) (nd_hs s) h = None)" "keeps s s1"
  proof (cases "h \<noteq> 0 \<and> handle_find (ctx_handle s) (nd_hs s) h \<noteq> None")
    case True
    then obtain c where "handle_find (ctx_handle s) (nd_hs s) h = Some c" by auto
    with True that retire_ok[OF Cons.prems(1), of h] show thesis by auto
  next
    case False
    then show thesis using that[of 0 s] retire_ok[OF Cons.prems(1), of h] Cons.prems(1) by auto
  qed
  obtain n s2 where n: "retire_slots is s1 = Some (n, s2)" "node_inv H L ex s2" "hs_live (nd_hs s2) \<subseteq> hs_live (nd_hs s1)"
    "hs_slot_size (nd_hs s2) = hs_slot_size (nd_hs s1)" "nd_remote s2 = nd_remote s1"
    "n \<noteq> 0 \<longrightarrow> hs_live (nd_hs s2) \<noteq> hs_live (nd_hs s1)"
    "n = 0 \<longrightarrow> (\<forall>i \<in> set is. \<forall>c. hs_slot (nd_hs s1) ! i = Some c \<longrightarrow> ctx_handle s1 c = 0) \<and> s2 = s1" "keeps s1 s2"
    using Cons.IH[OF r(2)] Cons.prems(2) r(4) by auto
  have z: "h = 0" if "r = 0" "hs_slot (nd_hs s) ! i = Some c" for c
    using r(7) that h(2) handle_find_iff[OF wf, of h c] by auto
  have "retire_slots (i # is) s = Some (r + n, s2)" using h(1) r(1) n(1) by simp
  moreover have "r + n = 0 \<longrightarrow> (\<forall>j \<in> set (i # is). \<forall>c. hs_slot (nd_hs s) ! j = Some c \<longrightarrow> ctx_handle s c = 0) \<and> s2 = s"
    using r(7) n(7) z h(2) by auto
  moreover have "r + n \<noteq> 0 \<longrightarrow> hs_live (nd_hs s2) \<noteq> hs_live (nd_hs s)" using r(3,6) n(3,6) by auto
  ultimately show ?case using r(3,4,5) n(2,3,4,5) keeps_trans[OF r(8) n(8)] by auto
qed auto

text \<open>\<open>skynet_handle_retireall\<close> ends: every productive round takes a service out of the table.\<close>

lemma retireall_ok:
  assumes "node_inv H L ex s"
  shows "\<exists>s'. skynet_handle_retireall s = Some s' \<and> node_inv H L ex s' \<and> (\<forall>c \<in> hs_live (nd_hs s'). ctx_handle s' c = 0) \<and> keeps s s'"
  using assms
proof (induction "card (hs_live (nd_hs s))" arbitrary: s rule: less_induct)
  case less
  have len: "length (hs_slot (nd_hs s)) = hs_slot_size (nd_hs s)" using node_invD(4)[OF less.prems] by (simp add: hs_wf_def)
  obtain n s1 where n: "retire_slots [0..<hs_slot_size (nd_hs s)] s = Some (n, s1)" "node_inv H L ex s1"
    "hs_live (nd_hs s1) \<subseteq> hs_live (nd_hs s)" "n \<noteq> 0 \<longrightarrow> hs_live (nd_hs s1) \<noteq> hs_live (nd_hs s)"
    "n = 0 \<longrightarrow> (\<forall>i \<in> set [0..<hs_slot_size (nd_hs s)]. \<forall>c. hs_slot (nd_hs s) ! i = Some c \<longrightarrow> ctx_handle s c = 0) \<and> s1 = s" "keeps s s1"
    using retire_slots_ok[OF less.prems, of "[0..<hs_slot_size (nd_hs s)]"] by (metis atLeast_upt lessThan_iff)
  have u: "skynet_handle_retireall s = (if n = 0 then Some s1 else skynet_handle_retireall s1)"
    by (subst skynet_handle_retireall.simps) (simp add: n(1))
  show ?case
  proof (cases "n = 0")
    case True
    then have "\<forall>c \<in> hs_live (nd_hs s). ctx_handle s c = 0" using n(5) len by (auto simp: hs_live_def in_set_conv_nth)
    then show ?thesis using True n(5) less.prems u by simp
  next
    case False
    then have "card (hs_live (nd_hs s1)) < card (hs_live (nd_hs s))" using n(3,4) by (auto intro!: psubset_card_mono)
    from less.hyps[OF this n(2)] False u show ?thesis using keeps_trans[OF n(6)] by auto
  qed
qed

section \<open>Releasing a queue\<close>

lemma node_free:
  assumes inv: "node_inv H L ex s" and a: "a \<in> H" and q: "mq_sig s a = Some (h, True)"
  shows "node_inv (H - {a}) L ex (s\<lparr>mq_heap := (mq_heap s)(a := None)\<rparr>)"
proof -
  let ?s = "s\<lparr>mq_heap := (mq_heap s)(a := None)\<rparr>"
  have sg: "mq_sig ?s = (mq_sig s)(a := None)" by (auto simp: mq_sig_def fun_eq_iff)
  have ch: "ctx_handle ?s = ctx_handle s" and r: "refs ex ?s = refs ex s" by (auto simp: ctx_handle_def refs_def fun_eq_iff)
  have "ctx_ok L ex ?s c x" if "nd_ctx s c = Some x" for c x
    using node_invD(6)[OF inv that] q by (auto simp: ctx_ok_def sg r)
  then have "core_inv L ex ?s"
    using node_invD(4,5,7,8,9)[OF inv] by (intro core_invI) (auto simp: ch r)
  moreover have "fresh ?s" using node_invD(2)[OF inv] by (auto simp: fresh_def sg)
  moreover have "handles_ok ?s" by (rule handles_sub[OF node_invD(10)[OF inv]]) (auto simp: sg split: if_splits)
  ultimately show ?thesis using qinv_free[OF node_invD(1)[OF inv] a] by (simp add: node_inv_def)
qed

text \<open>What dropping and releasing queues leaves alone.\<close>

definition same_ctxs :: "node \<Rightarrow> node \<Rightarrow> bool" where
  "same_ctxs s s' \<longleftrightarrow>
     (\<forall>c. map_option ctx_sig (nd_ctx s' c) = map_option ctx_sig (nd_ctx s c)) \<and> nd_hs s' = nd_hs s \<and>
     nd_remote s' = nd_remote s \<and> nd_total s' = nd_total s \<and> nd_brk s \<le> nd_brk s' \<and> (timed s \<longrightarrow> timed s') \<and>
     (\<forall>a v. mq_sig s' a = Some v \<longrightarrow> mq_sig s a = Some v)"

lemma same_ctxs_keeps:
  assumes "same_ctxs s s'"
  shows "keeps s s'"
proof -
  have "\<exists>x. nd_ctx s c = Some x \<and> ctx_sig x = ctx_sig y" if "nd_ctx s' c = Some y" for c y
    using assms that unfolding same_ctxs_def timed_def by (metis map_option_eq_Some)
  then show ?thesis using assms by (fastforce simp: keeps_def timed_def same_ctxs_def timed_def ctx_sig_def)
qed

lemma quiet_same_ctxs: "quiet s s' \<Longrightarrow> same_ctxs s s'"
  by (simp add: quiet_def timed_def same_ctxs_def timed_def)

lemma same_ctxs_trans: "same_ctxs s t \<Longrightarrow> same_ctxs t u \<Longrightarrow> same_ctxs s u"
  by (simp add: same_ctxs_def timed_def)

lemma drop_queue_ok:
  assumes "node_inv H L ex s" "a \<in> H" "mq_heap s a = Some q" "q_release q" "q_handle q = h" "h \<noteq> 0" "nd_remote s \<noteq> None"
  shows "\<exists>s'. drop_queue (drop_message h) a s = Some s' \<and> node_inv (H - {a}) L ex s' \<and> same_ctxs s s' \<and> mq_heap s' a = None"
  using assms
proof (induction "mq_list q" arbitrary: q s)
  case Nil
  obtain q' where q': "mq_heap s a = Some q'" "mq_wf q'" "q_next q' = None" by (rule qinv_held[OF node_invD(1)[OF Nil(2)] Nil(3)])
  have q: "mq_wf q" "q_next q = None" using q' Nil(4) by simp_all
  have "drop_queue (drop_message h) a s = mq_release_node a (mq_set a (q\<lparr>q_overload_threshold := MQ_OVERLOAD, q_in_global := False\<rparr>) s)"
    by (subst drop_queue.simps) (simp add: mq_pop_empty[OF q(1) Nil(1)[symmetric]] Nil(4))
  also have "\<dots> = Some (s\<lparr>mq_heap := (mq_heap s)(a := None)\<rparr>)" using q(2) by (simp add: mq_release_node_def mq_set_def)
  finally have "drop_queue (drop_message h) a s = Some (s\<lparr>mq_heap := (mq_heap s)(a := None)\<rparr>)" .
  moreover have "node_inv (H - {a}) L ex (s\<lparr>mq_heap := (mq_heap s)(a := None)\<rparr>)"
    by (rule node_free[OF Nil(2,3), of h]) (use Nil(4,5,6) in \<open>simp add: mq_sig_def\<close>)
  ultimately show ?case by (auto simp: same_ctxs_def timed_def mq_sig_def)
next
  case (Cons m ms)
  obtain q' where q': "skynet_mq_pop q = Some (Some m, q')" "mq_sig (mq_set a q' s) = mq_sig s" "mq_list q' = ms" "qinv H (mq_set a q' s)"
    using qinv_pop[OF node_invD(1)[OF Cons(3)] Cons(4,5)] Cons(2)[symmetric] by (auto split: option.splits)
  let ?s1 = "mq_set a q' s"
  have k: "quiet s ?s1" by (rule quiet_mq[OF mq_onlyI q'(2)]) simp
  have i1: "node_inv H L ex ?s1" by (rule node_inv_quiet[OF Cons(3) k q'(4)])
  have r1: "nd_remote ?s1 \<noteq> None" using Cons(9) k by (simp add: quiet_def timed_def)
  obtain s2 where s2: "drop_message h m ?s1 = Some s2" "node_inv H L ex s2" "calm ?s1 s2"
    using drop_message_ok[OF i1 Cons(8)] r1 by blast
  have sg: "mq_sig ?s1 a = Some (h, True)" using q'(2) Cons(5,6,7) by (simp add: mq_sig_def)
  have "mq_view s2 a = mq_view ?s1 a" "mq_sig s2 a = Some (h, True)" using s2(3) sg by (auto simp: calm_def quiet_def timed_def)
  then obtain q2 where q2: "mq_heap s2 a = Some q2" "ms = mq_list q2" "q_release q2" "q_handle q2 = h"
    using q'(3) sg by (auto simp: mq_sig_def mq_view_def mq_set_def)
  have "nd_remote s2 \<noteq> None" using r1 s2(3) by (simp add: calm_def quiet_def timed_def)
  from Cons(1)[OF q2(2) s2(2) Cons(4) q2(1,3,4) Cons(8) this] obtain s' where
    s': "drop_queue (drop_message h) a s2 = Some s'" "node_inv (H - {a}) L ex s'" "same_ctxs s2 s'" "mq_heap s' a = None" by blast
  have "drop_queue (drop_message h) a s = Some s'"
    by (subst drop_queue.simps) (simp add: Cons(5) q'(1) s2(1) s'(1))
  moreover have "same_ctxs s s'"
    by (rule same_ctxs_trans[OF quiet_same_ctxs[OF quiet_trans[OF k calm_quiet[OF s2(3)]]] s'(3)])
  ultimately show ?case using s'(2,4) by blast
qed

lemma gpush_ok:
  assumes inv: "node_inv H L ex s" and a: "a \<in> H"
  shows "\<exists>s'. skynet_globalmq_push a s = Some s' \<and> node_inv (H - {a}) L ex s' \<and> quiet s s'"
proof -
  obtain s' where s': "skynet_globalmq_push a s = Some s'" "qinv (H - {a}) s'" "mq_only s s'" "mq_sig s' = mq_sig s"
    using qinv_global_push[OF node_invD(1)[OF inv] a] by blast
  note k = quiet_mq[OF s'(3,4)]
  show ?thesis using s'(1) k node_inv_quiet[OF inv k s'(2)] by blast
qed

lemma gpop_ok:
  assumes inv: "node_inv H L ex s"
  shows "\<exists>r s'. skynet_globalmq_pop s = Some (r, s') \<and> node_inv (H \<union> set_option r) L ex s' \<and> quiet s s' \<and> set_option r \<inter> H = {}"
proof (cases "skynet_globalmq_pop s = Some (None, s)")
  case True
  then show ?thesis using inv by (auto simp: quiet_def timed_def)
next
  case False
  then obtain a s' where s': "skynet_globalmq_pop s = Some (Some a, s')" "a \<notin> H" "qinv (insert a H) s'" "mq_only s s'" "mq_sig s' = mq_sig s"
    using qinv_global_pop[OF node_invD(1)[OF inv]] by blast
  note k = quiet_mq[OF s'(4,5)]
  show ?thesis using s'(1,2) k node_inv_quiet[OF inv k s'(3)] by auto
qed

lemma mq_release_ok:
  assumes inv: "node_inv H L ex s" and a: "a \<in> H" and q: "mq_sig s a = Some (h, b)" and r: "nd_remote s \<noteq> None"
  shows "\<exists>s'. skynet_mq_release (drop_message h) a s = Some s' \<and> node_inv (H - {a}) L ex s' \<and> same_ctxs s s'"
proof -
  obtain q where q: "mq_heap s a = Some q" "q_handle q = h" "h \<noteq> 0"
    using q node_invD(10)[OF inv] unfolding handles_ok_def by (auto simp: mq_sig_def)
  show ?thesis
  proof (cases "q_release q")
    case True
    then show ?thesis using drop_queue_ok[OF inv a q(1) True q(2,3) r] q(1) by (auto simp: skynet_mq_release_def)
  next
    case False
    then show ?thesis using gpush_ok[OF inv a] q(1) quiet_same_ctxs by (auto simp: skynet_mq_release_def)
  qed
qed

section \<open>The harbor service\<close>

lemma set_remote:
  assumes inv: "node_inv H L ex s" and r: "refs ex' (s\<lparr>nd_remote := r\<rparr>) = refs ex s"
  shows "node_inv H L ex' (s\<lparr>nd_remote := r\<rparr>)"
proof -
  let ?s = "s\<lparr>nd_remote := r\<rparr>"
  have ch: "ctx_handle ?s = ctx_handle s" and sg: "mq_sig ?s = mq_sig s" by (auto simp: ctx_handle_def mq_sig_def fun_eq_iff)
  have "core_inv L ex' ?s"
    using node_invD(4-9)[OF inv] r by (intro core_invI) (auto simp: ch sg ctx_ok_def)
  moreover have "fresh ?s" "handles_ok ?s" using node_invD(2,10)[OF inv] by (auto simp: fresh_def handles_ok_def sg)
  moreover have "qinv H ?s" using node_invD(1)[OF inv] qinv_cong[of ?s s] by simp
  ultimately show ?thesis by (simp add: node_inv_def)
qed

lemma set_total: "node_inv H L ex s \<Longrightarrow> node_inv H L ex (s\<lparr>nd_total := n\<rparr>)"
proof -
  let ?s = "s\<lparr>nd_total := n\<rparr>"
  assume inv: "node_inv H L ex s"
  have eq: "ctx_handle ?s = ctx_handle s" "mq_sig ?s = mq_sig s" "refs ex ?s = refs ex s"
    by (auto simp: ctx_handle_def mq_sig_def refs_def fun_eq_iff)
  have "core_inv L ex ?s" using node_invD(4-9)[OF inv] by (intro core_invI) (auto simp: eq ctx_ok_def)
  moreover have "fresh ?s" "handles_ok ?s" using node_invD(2,10)[OF inv] by (auto simp: fresh_def handles_ok_def eq)
  moreover have "qinv H ?s" using node_invD(1)[OF inv] qinv_cong[of ?s s] by simp
  ultimately show ?thesis by (simp add: node_inv_def)
qed

lemma harbor_start_ok:
  assumes inv: "node_inv H L ex s" and r: "nd_remote s = None" and c: "nd_ctx s c = Some x"
  shows "\<exists>s'. skynet_harbor_start c s = Some s' \<and> node_inv H L ex s' \<and> nd_remote s' = Some c"
proof -
  let ?s = "(ctx_set c (x\<lparr>cx_ref := cx_ref x + 1\<rparr>) s)\<lparr>nd_total := nd_total s - 1\<rparr>"
  have "node_inv H L (ex(c := ex c + 1)) ?s" by (rule set_total[OF context_grab_ok(2)[OF inv c]])
  then have "node_inv H L ex (?s\<lparr>nd_remote := Some c\<rparr>)" by (rule set_remote) (use r in \<open>auto simp: refs_def fun_eq_iff\<close>)
  then show ?thesis
    using context_grab_ok(1)[OF inv c] by (simp add: skynet_harbor_start_def skynet_context_reserve_def)
qed

lemma harbor_exit_ok:
  assumes inv: "node_inv H L ex s"
  shows "\<exists>s'. skynet_harbor_exit s = Some s' \<and> node_inv H L ex s' \<and> nd_remote s' = None"
proof (cases "nd_remote s")
  case None
  have "node_inv H L ex (s\<lparr>nd_remote := None\<rparr>)" by (rule set_remote[OF inv]) (use None in \<open>auto simp: refs_def fun_eq_iff\<close>)
  then show ?thesis using None by (simp add: skynet_harbor_exit_def)
next
  case (Some c)
  let ?ex = "ex(c := ex c + 1)"
  have "node_inv H L ?ex (s\<lparr>nd_remote := None\<rparr>)" by (rule set_remote[OF inv]) (use Some in \<open>auto simp: refs_def fun_eq_iff\<close>)
  from context_release_ok[OF this, of c] obtain r s' where
    "skynet_context_release c (s\<lparr>nd_remote := None\<rparr>) = Some (r, s')" "node_inv H L (?ex(c := ?ex c - 1)) s'" "nd_remote s' = None" by auto
  moreover have "?ex(c := ?ex c - 1) = ex" by auto
  ultimately show ?thesis using Some by (simp add: skynet_harbor_exit_def)
qed

end
