(* ===== verification/Node_Services.thy ===== *)
theory Node_Services
  imports Node_Inv
begin

text \<open>
  Launching, dispatching and ending services keep the invariant of the node: every piece of
  \<open>skynet_context_new\<close> and of \<open>skynet_context_message_dispatch\<close>, with the references it takes and gives back.
\<close>

section \<open>Launching\<close>

lemma node_L:
  assumes inv: "node_inv H L ex s"
    and L: "\<And>c x. nd_ctx s c = Some x \<Longrightarrow> c \<in> hs_live (nd_hs s) \<Longrightarrow> cx_init x \<or> cx_queue x \<in> L \<Longrightarrow> cx_init x \<or> cx_queue x \<in> L'"
  shows "node_inv H L' ex s"
proof -
  have "core_inv L' ex s" using node_invD(4-9)[OF inv] L by (intro core_invI) (auto simp: ctx_ok_def)
  then show ?thesis using inv by (simp add: node_inv_def)
qed

lemma hs_live_handle:
  assumes "node_inv H L ex s" "c \<in> hs_live (nd_hs s)"
  shows "drop_bit 24 (ctx_handle s c) = drop_bit 24 (hs_harbor (nd_hs s))"
proof -
  obtain i where "i < hs_slot_size (nd_hs s)" "hs_slot (nd_hs s) ! i = Some c"
    using node_invD(4)[OF assms(1)] assms(2) by (auto simp: hs_live_def hs_wf_def in_set_conv_nth)
  then show ?thesis using node_invD(4)[OF assms(1)] unfolding hs_wf_def by blast
qed

lemma ctx_handle_upd: "ctx_handle (s\<lparr>nd_ctx := (nd_ctx s)(c \<mapsto> y), nd_brk := n\<rparr>) = (ctx_handle s)(c := cx_handle y)"
  by (auto simp: ctx_handle_def fun_eq_iff)

text \<open>The handle that a service launched now gets is not carried by the queue of a service that has ended.\<close>

definition handle_new :: "node \<Rightarrow> bool" where
  "handle_new s \<longleftrightarrow> \<not> hs_full (nd_hs s) \<and>
     (case skynet_handle_register ((ctx_handle s)(nd_brk s := 0)) (nd_brk s) (nd_hs s) of
        None \<Rightarrow> True
      | Some (h, _) \<Rightarrow> \<forall>a < nd_brk s. map_option fst (mq_sig s a) \<noteq> Some h)"

lemma context_new_begin_ok:
  assumes inv: "node_inv H L ex s" and room: "handle_new s"
  shows "\<exists>x s'. context_new_begin md inst s = Some (nd_brk s, s') \<and>
    node_inv (insert (nd_brk s + 1) H) (insert (nd_brk s + 1) L) (ex(nd_brk s := 1)) s' \<and> nd_ctx s (nd_brk s) = None \<and> ex (nd_brk s) = 0 \<and>
    nd_ctx s' = (nd_ctx s)(nd_brk s \<mapsto> x) \<and> cx_queue x = nd_brk s + 1 \<and> nd_remote s' = nd_remote s \<and>
    nd_brk s + 1 \<notin> H \<and> hs_live (nd_hs s') = insert (nd_brk s) (hs_live (nd_hs s)) \<and> nd_total s' = nd_total s + 1 \<and> keeps s s'"
proof -
  let ?c = "nd_brk s"
  have new: "nd_ctx s ?c = None" "mq_sig s (?c + 1) = None" using node_invD(2)[OF inv] by (auto simp: fresh_def)
  have nr: "refs ex s ?c = 0" using node_invD(7)[OF inv, of ?c] new by auto
  then have nl: "?c \<notin> hs_live (nd_hs s)" "nd_remote s \<noteq> Some ?c" "ex ?c = 0" by (auto simp: refs_def split: if_splits)
  define ch where "ch = (ctx_handle s)(?c := 0)"
  have "hs_wf ch (nd_hs s)" by (rule hs_wf_cong[OF _ node_invD(4)[OF inv]]) (use nl in \<open>auto simp: ch_def\<close>)
  then obtain h hs where hs: "skynet_handle_register ch ?c (nd_hs s) = Some (h, hs)" "hs_wf (ch(?c := h)) hs"
    "hs_live hs = insert ?c (hs_live (nd_hs s))" "\<forall>d \<in> hs_live (nd_hs s). ch d \<noteq> h" "hs_name_cap hs = hs_name_cap (nd_hs s)"
    "hs_name_count hs = hs_name_count (nd_hs s)" "hs_name hs = hs_name (nd_hs s)" "hs_harbor hs = hs_harbor (nd_hs s)"
    by (rule register_ok) (use room nl in \<open>auto simp: handle_new_def\<close>)
  define x where "x = \<lparr>cx_mod = md, cx_instance = inst, cx_cb = False, cx_queue = ?c + 1, cx_logfile = None, cx_result = [],
    cx_handle = h, cx_session_id = 0, cx_ref = 2, cx_init = False, cx_endless = False\<rparr>"
  define s1 where "s1 = (ctx_set ?c (x\<lparr>cx_handle := 0\<rparr>) s)\<lparr>nd_brk := ?c + 2\<rparr>"
  define s2 where "s2 = (ctx_set ?c x s1)\<lparr>nd_hs := hs\<rparr>"
  define s' where "s' = (mq_set (?c + 1) (skynet_mq_create h) s2)\<lparr>nd_total := nd_total s + 1\<rparr>"
  have run: "context_new_begin md inst s = Some (?c, s')"
    using hs(1) unfolding context_new_begin_def Let_def ch_def
    by (simp add: ctx_handle_upd s'_def s2_def s1_def x_def ctx_set_def mq_set_def)
  have f: "nd_ctx s' = (nd_ctx s)(?c \<mapsto> x)" "nd_hs s' = hs" "nd_remote s' = nd_remote s" "nd_harbor s' = nd_harbor s"
    "nd_brk s' = ?c + 2" "mq_sig s' = (mq_sig s)(?c + 1 \<mapsto> (h, False))" "nd_total s' = nd_total s + 1" "nd_timer s' = nd_timer s"
    by (simp_all add: s'_def s2_def s1_def ctx_set_def mq_set_def mq_sig_def skynet_mq_create_def fun_eq_iff)
  have ch': "ctx_handle s' = ch(?c := h)" by (auto simp: f ctx_handle_def ch_def x_def fun_eq_iff)
  have h0: "drop_bit 24 h = drop_bit 24 (hs_harbor (nd_hs s))"
  proof -
    obtain i where "i < hs_slot_size hs" "hs_slot hs ! i = Some ?c"
      using hs(2,3) by (auto simp: hs_live_def hs_wf_def in_set_conv_nth set_eq_iff)
    then show ?thesis using hs(2,8) unfolding hs_wf_def by fastforce
  qed
  have rf: "refs (ex(?c := 1)) s' d = (if d = ?c then 2 else refs ex s d)" for d using nl by (simp add: refs_def f hs(3))
  have core: "core_inv (insert (?c + 1) L) (ex(?c := 1)) s'"
  proof (rule core_invI)
    show "hs_wf (ctx_handle s') (nd_hs s')" unfolding ch' f by (rule hs(2))
    show "names_ok (nd_hs s')" using node_invD(5)[OF inv] hs(5-7) by (simp add: f names_ok_def hs_names_def)
    show "nd_harbor s' \<noteq> - 1" using node_invD(9)[OF inv] by (simp add: f)
  next
    fix d y assume d: "nd_ctx s' d = Some y"
    show "ctx_ok (insert (?c + 1) L) (ex(?c := 1)) s' d y"
    proof (cases "d = ?c")
      case False
      then have y: "nd_ctx s d = Some y" using d by (simp add: f)
      then have "mq_sig s (cx_queue y) = Some (cx_handle y, False)" "ctx_ok L ex s d y" using node_invD(6)[OF inv y] by (simp_all add: ctx_ok_def)
      then show ?thesis using False new(2) rf[of d] by (auto simp: ctx_ok_def f hs(3))
    qed (use d rf[of ?c] in \<open>auto simp: ctx_ok_def f x_def\<close>)
  next
    fix d assume "0 < refs (ex(?c := 1)) s' d"
    then show "nd_ctx s' d \<noteq> None" using rf[of d] node_invD(7)[OF inv, of d] by (auto simp: f split: if_splits)
  next
    have q: "cx_queue y \<noteq> ?c + 1" if "nd_ctx s d = Some y" for d y
      using node_invD(6)[OF inv that] new(2) by (auto simp: ctx_ok_def)
    fix d e y z assume "nd_ctx s' d = Some y" "nd_ctx s' e = Some z" "cx_queue y = cx_queue z"
    then show "d = e" using node_invD(8)[OF inv] by (auto simp: f x_def split: if_splits dest: q)
  qed
  have fr: "fresh s'" using node_invD(2)[OF inv] by (auto simp: fresh_def f)
  have "mq_sig s a \<noteq> Some (h, b)" for a b
    using room hs(1) node_invD(2)[OF inv] unfolding handle_new_def ch_def fresh_def by (cases "a < nd_brk s") auto
  then have ho: "handles_ok s'"
    using node_invD(10)[OF inv] h0 unfolding handles_ok_def by (auto simp: f hs(8))
  have "qinv H s2" "mq_heap s2 (?c + 1) = None"
    using node_invD(1)[OF inv] new(2) qinv_cong[of s2 s] by (simp_all add: s2_def s1_def mq_sig_def ctx_set_def)
  from qinv_create(1)[OF this, of h] qinv_create(2)[OF this] have q: "qinv (insert (?c + 1) H) s'" "?c + 1 \<notin> H"
    using qinv_cong[of s' "mq_set (?c + 1) (skynet_mq_create h) s2"] by (simp_all add: s'_def)
  have "node_inv (insert (?c + 1) H) (insert (?c + 1) L) (ex(?c := 1)) s'" using core fr ho q by (simp add: node_inv_def)
  moreover have "keeps s s'" using f(1,3,5,6,8) by (auto simp: keeps_def timed_def)
  ultimately show ?thesis using run f new nl q(2) by (auto simp: x_def hs(3))
qed

text \<open>The launch goes on after \<open>init\<close>, as long as the launcher holds its reference and the queue.\<close>

lemma publish_dead:
  assumes inv: "node_inv H L ex s" and a: "a \<in> H" and d: "mq_sig s a = Some (h, True)"
  shows "\<exists>s'. launch_publish c a False text s = Some s' \<and> node_inv (H - {a}) (L - {a}) ex s' \<and> quiet s s'"
proof -
  obtain s' where s': "skynet_globalmq_push a s = Some s'" "node_inv (H - {a}) L ex s'" "quiet s s'" using gpush_ok[OF inv a] by blast
  have "mq_sig s' a = Some (h, True)" using d s'(3) by (simp add: quiet_def)
  then have "cx_queue x \<noteq> a" if "nd_ctx s' c = Some x" for c x using node_invD(6)[OF s'(2) that] by (auto simp: ctx_ok_def)
  then have "node_inv (H - {a}) (L - {a}) ex s'" by (intro node_L[OF s'(2)]) auto
  then show ?thesis using s' by (simp add: launch_publish_def)
qed

lemma init_ok:
  assumes inv: "node_inv H L ex s" and x: "nd_ctx s c = Some x"
  shows "node_inv H (L - {cx_queue x}) ex (ctx_set c (x\<lparr>cx_init := True\<rparr>) s)"
proof -
  let ?y = "x\<lparr>cx_init := True\<rparr>"
  have "node_inv H L ex (ctx_set c ?y s)"
    by (rule node_ctx_set[OF inv x]) (use node_invD(6)[OF inv x] in \<open>auto simp: ctx_ok_def\<close>)
  then show ?thesis by (rule node_L) (use node_invD(8)[OF inv x] in \<open>auto split: if_splits\<close>)
qed

lemma publish_live:
  assumes inv: "node_inv H L ex s" and x: "nd_ctx s c = Some x" and a: "cx_queue x \<in> H"
  shows "\<exists>s'. launch_publish c (cx_queue x) True text s = Some s' \<and> node_inv (H - {cx_queue x}) (L - {cx_queue x}) ex s' \<and>
    quiet (ctx_set c (x\<lparr>cx_init := True\<rparr>) s) s'"
proof -
  let ?s1 = "ctx_set c (x\<lparr>cx_init := True\<rparr>) s"
  obtain s2 where s2: "skynet_globalmq_push (cx_queue x) ?s1 = Some s2" "node_inv (H - {cx_queue x}) (L - {cx_queue x}) ex s2" "quiet ?s1 s2"
    using gpush_ok[OF init_ok[OF inv x] a] by blast
  have "nd_ctx s2 d \<noteq> None" if "Some c = Some d" for d
    using quiet_sym_ctx[OF s2(3), of c "x\<lparr>cx_init := True\<rparr>"] that by auto
  from error_ok[OF s2(2) this] obtain s' where
    "skynet_error (Some c) text s2 = Some s'" "node_inv (H - {cx_queue x}) (L - {cx_queue x}) ex s'" "calm s2 s'" by blast
  then show ?thesis using s2 x quiet_trans[OF s2(3) calm_quiet] by (auto simp: launch_publish_def)
qed

lemma context_new_ok_ok:
  assumes inv: "node_inv H L ex s" and e: "0 < ex c" and x: "nd_ctx s c = Some x" and a: "cx_queue x \<in> H"
  shows "\<exists>r s'. context_new_ok c name param s = Some (r, s') \<and>
    node_inv (H - {cx_queue x}) (L - {cx_queue x}) (ex(c := ex c - 1)) s' \<and> keeps s s' \<and> nd_hs s' = nd_hs s \<and>
    (r = None \<longleftrightarrow> refs ex s c = 1) \<and> (r \<noteq> None \<longrightarrow> r = Some c \<and> nd_ctx s' c \<noteq> None)"
proof -
  obtain r s1 where s1: "skynet_context_release c s = Some (r, s1)" "node_inv H L (ex(c := ex c - 1)) s1"
    "r = (if refs ex s c = 1 then None else Some c)" "keeps s s1" "nd_hs s1 = nd_hs s" "nd_remote s1 = nd_remote s"
    "refs ex s c = 1 \<longrightarrow> mq_sig s1 = (mq_sig s)(cx_queue x \<mapsto> (cx_handle x, True))"
    "refs ex s c \<noteq> 1 \<longrightarrow> s1 = ctx_set c (x\<lparr>cx_ref := cx_ref x - 1\<rparr>) s"
    using context_release_ok[OF inv e] x by auto
  show ?thesis
  proof (cases "refs ex s c = 1")
    case True
    obtain s2 where s2: "launch_publish c (cx_queue x) False (launch_text name param) s1 = Some s2"
      "node_inv (H - {cx_queue x}) (L - {cx_queue x}) (ex(c := ex c - 1)) s2" "quiet s1 s2"
      using publish_dead[OF s1(2) a, of "cx_handle x"] s1(7) True by auto
    then show ?thesis using True s1 x keeps_trans[OF s1(4) quiet_keeps[OF s2(3)]] unfolding context_new_ok_def by (auto simp: quiet_def)
  next
    case False
    have "nd_ctx s1 c = Some (x\<lparr>cx_ref := cx_ref x - 1\<rparr>)" using s1(8) False by simp
    from publish_live[OF s1(2) this] obtain s2 where s2: "launch_publish c (cx_queue x) True (launch_text name param) s1 = Some s2"
      "node_inv (H - {cx_queue x}) (L - {cx_queue x}) (ex(c := ex c - 1)) s2"
      "quiet (ctx_set c (x\<lparr>cx_ref := cx_ref x - 1, cx_init := True\<rparr>) s1) s2" using a by auto
    have "nd_ctx s2 c \<noteq> None" using quiet_sym_ctx[OF s2(3), of c] by auto
    moreover have "keeps s1 (ctx_set c (x\<lparr>cx_ref := cx_ref x - 1, cx_init := True\<rparr>) s1)"
      by (rule keeps_set[of _ _ "x\<lparr>cx_ref := cx_ref x - 1\<rparr>"]) (use s1(8) False in auto)
    from keeps_trans[OF keeps_trans[OF s1(4) this] quiet_keeps[OF s2(3)]] have "keeps s s2" .
    ultimately show ?thesis using False s1 s2 x unfolding context_new_ok_def by (auto simp: quiet_def)
  qed
qed

lemma find_live:
  assumes "node_inv H L ex s" "c \<in> hs_live (nd_hs s)"
  shows "handle_find (ctx_handle s) (nd_hs s) (ctx_handle s c) = Some c"
  using handle_find_iff[OF node_invD(4)[OF assms(1)]] assms(2) by auto

lemma retire_gone:
  assumes inv: "node_inv H L ex s"
  shows "\<exists>n s'. skynet_handle_retire h s = Some (n, s') \<and> node_inv H L ex s' \<and> (\<forall>c \<in> hs_live (nd_hs s'). ctx_handle s' c \<noteq> h) \<and>
    nd_remote s' = nd_remote s \<and> keeps s s'"
proof (cases "handle_find (ctx_handle s) (nd_hs s) h")
  case None
  then have "\<forall>c \<in> hs_live (nd_hs s). ctx_handle s c \<noteq> h" using find_live[OF inv] by fastforce
  then show ?thesis using retire_ok[OF inv, of h] None inv by (auto simp: keeps_def)
next
  case (Some d)
  then obtain s' where s': "skynet_handle_retire h s = Some (1, s')" "node_inv H L ex s'" "hs_live (nd_hs s') = hs_live (nd_hs s) - {d}"
    "nd_remote s' = nd_remote s" "keeps s s'" "\<forall>e. e \<noteq> d \<longrightarrow> nd_ctx s' e = nd_ctx s e" using retire_ok[OF inv, of h] by auto
  have "ctx_handle s' c \<noteq> h" if "c \<in> hs_live (nd_hs s')" for c
    using that s'(3,6) find_live[OF inv, of c] Some by (auto simp: ctx_handle_def)
  then show ?thesis using s' by blast
qed

lemma same_ctxs_handle: "same_ctxs s s' \<Longrightarrow> ctx_handle s' = ctx_handle s"
proof
  fix c assume k: "same_ctxs s s'"
  then have "map_option ctx_sig (nd_ctx s' c) = map_option ctx_sig (nd_ctx s c)" by (simp add: same_ctxs_def)
  then show "ctx_handle s' c = ctx_handle s c"
    by (cases "nd_ctx s' c"; cases "nd_ctx s c") (simp_all add: ctx_handle_def ctx_sig_def)
qed

lemma held_handle:
  assumes inv: "node_inv H L ex s" "node_inv H' L' ex' s'" and k: "keeps s s'" and a: "a \<in> H'" "mq_sig s a = Some (h, b)"
  shows "\<exists>b'. mq_sig s' a = Some (h, b')"
proof -
  obtain q where "mq_heap s' a = Some q" by (rule qinv_held[OF node_invD(1)[OF inv(2)] a(1)])
  then have q: "mq_sig s' a = Some (q_handle q, q_release q)" by (simp add: mq_sig_def)
  have "a < nd_brk s" using node_invD(2)[OF inv(1)] a(2) unfolding fresh_def by (metis linorder_not_less option.distinct(1))
  then obtain b' where "mq_sig s a = Some (q_handle q, b')" using k q unfolding keeps_def by blast
  with a(2) q show ?thesis by auto
qed

text \<open>After a failed \<open>init\<close> the service is out of the table, whatever else refers to it.\<close>

lemma context_new_fail_ok:
  assumes inv: "node_inv H L ex s" and e: "0 < ex c" and x: "nd_ctx s c = Some x" and a: "cx_queue x \<in> H" and r: "nd_remote s \<noteq> None"
  shows "\<exists>s'. context_new_fail c name s = Some s' \<and>
    node_inv (H - {cx_queue x}) (L - {cx_queue x}) (ex(c := ex c - 1)) s' \<and> keeps s s' \<and> c \<notin> hs_live (nd_hs s')"
proof -
  let ?ex = "ex(c := ex c - 1)"
  obtain s1 where s1: "skynet_error (Some c) (str ''FAILED launch '' @ name) s = Some s1" "node_inv H L ex s1" "calm s s1"
    using error_ok[OF inv, of "Some c"] x by auto
  obtain y where y: "nd_ctx s1 c = Some y" "ctx_sig x = ctx_sig y" by (rule calm_sym_ctx[OF s1(3) x])
  have yx: "cx_queue y = cx_queue x" "cx_handle y = cx_handle x" using y(2) by (simp_all add: ctx_sig_def)
  have sg: "mq_sig s (cx_queue x) = Some (cx_handle x, False)" using node_invD(6)[OF inv x] by (simp add: ctx_ok_def)
  obtain d s2 where s2: "skynet_context_release c s1 = Some (d, s2)" "node_inv H L ?ex s2" "keeps s1 s2" "nd_remote s2 = nd_remote s1"
    using context_release_ok[OF s1(2) e] by auto
  obtain n s3 where s3: "skynet_handle_retire (cx_handle x) s2 = Some (n, s3)" "node_inv H L ?ex s3"
    "\<forall>d \<in> hs_live (nd_hs s3). ctx_handle s3 d \<noteq> cx_handle x" "nd_remote s3 = nd_remote s2" "keeps s2 s3"
    using retire_gone[OF s2(2)] by blast
  have k: "keeps s s3" using keeps_trans[OF calm_keeps[OF s1(3)] keeps_trans[OF s2(3) s3(5)]] .
  have r3: "nd_remote s3 \<noteq> None" using r k by (simp add: keeps_def)
  obtain b where b: "mq_sig s3 (cx_queue x) = Some (cx_handle x, b)" using held_handle[OF inv s3(2) k a sg] by blast
  obtain s4 where s4: "skynet_mq_release (drop_message (cx_handle x)) (cx_queue x) s3 = Some s4" "node_inv (H - {cx_queue x}) L ?ex s4" "same_ctxs s3 s4"
    using mq_release_ok[OF s3(2) a b r3] by blast
  have gone: "ctx_handle s4 d \<noteq> cx_handle x" if "d \<in> hs_live (nd_hs s4)" for d
    using that s3(3) same_ctxs_handle[OF s4(3)] s4(3) by (simp add: same_ctxs_def)
  have "cx_queue z \<noteq> cx_queue x" if z: "nd_ctx s4 d = Some z" "d \<in> hs_live (nd_hs s4)" for d z
  proof
    assume "cx_queue z = cx_queue x"
    then have "mq_sig s4 (cx_queue x) = Some (cx_handle z, False)" using node_invD(6)[OF s4(2) z(1)] by (simp add: ctx_ok_def)
    then have "cx_handle z = cx_handle x" using s4(3) b unfolding same_ctxs_def by (metis option.inject prod.inject)
    then show False using gone[OF z(2)] z(1) by (simp add: ctx_handle_def)
  qed
  then have "node_inv (H - {cx_queue x}) (L - {cx_queue x}) ?ex s4" by (intro node_L[OF s4(2)]) auto
  moreover have "context_new_fail c name s = Some s4"
    using s1(1) s2(1) s3(1) s4(1) y(1) yx by (simp add: context_new_fail_def)
  moreover have "c \<notin> hs_live (nd_hs s4)"
  proof
    assume c: "c \<in> hs_live (nd_hs s4)"
    then obtain z where z: "nd_ctx s4 c = Some z" using live_ctx[OF s4(2)] by auto
    have "c < nd_brk s" using node_invD(2)[OF inv] x unfolding fresh_def by (metis linorder_not_less option.distinct(1))
    then have "cx_handle z = cx_handle x" using keeps_trans[OF k same_ctxs_keeps[OF s4(3)]] z x unfolding keeps_def by auto
    with gone[OF c] z show False by (simp add: ctx_handle_def)
  qed
  ultimately show ?thesis using keeps_trans[OF k same_ctxs_keeps[OF s4(3)]] by blast
qed

section \<open>Dispatching\<close>

definition serves :: "node \<Rightarrow> nat \<Rightarrow> nat \<Rightarrow> bool" where
  "serves s c qa \<longleftrightarrow> (\<exists>x. nd_ctx s c = Some x \<and> cx_queue x = qa \<and> cx_init x)"

lemma serves_keeps:
  assumes "serves s c qa" "keeps s s'" "node_inv H L ex s" "node_inv H' L' ex' s'" "0 < ex' c"
  shows "serves s' c qa"
proof -
  obtain x where x: "nd_ctx s c = Some x" "cx_queue x = qa" "cx_init x" using assms(1) by (auto simp: serves_def)
  have "c < nd_brk s" using node_invD(2)[OF assms(3)] x(1) unfolding fresh_def by (metis linorder_not_less option.distinct(1))
  moreover obtain y where y: "nd_ctx s' c = Some y" using refs_ctx[OF assms(4), of c] assms(5) by (auto simp: refs_def)
  ultimately show ?thesis using assms(2) x y unfolding keeps_def serves_def by auto
qed

lemma dispatch_grab_ok:
  assumes inv: "node_inv H L ex s" and qa: "qa \<in> H" "qa \<notin> L" and r: "nd_remote s \<noteq> None"
  shows "\<exists>r nq s'. dispatch_grab qa s = Some (r, nq, s') \<and> keeps s s' \<and>
    (case r of
       None \<Rightarrow> node_inv (H - {qa} \<union> set_option nq) L ex s' \<and> set_option nq \<inter> (H - {qa}) = {}
     | Some c \<Rightarrow> nq = Some qa \<and> node_inv H L (ex(c := ex c + 1)) s' \<and> serves s' c qa)"
proof -
  obtain q where q: "mq_heap s qa = Some q" by (rule qinv_held[OF node_invD(1)[OF inv] qa(1)])
  then have sg: "mq_sig s qa = Some (q_handle q, q_release q)" by (simp add: mq_sig_def)
  show ?thesis
  proof (cases "handle_find (ctx_handle s) (nd_hs s) (q_handle q)")
    case None
    then have g: "skynet_handle_grab (q_handle q) s = Some (None, s)" using handle_grab_ok[OF inv, of "q_handle q"] by simp
    obtain s1 where s1: "skynet_mq_release (drop_message (q_handle q)) qa s = Some s1" "node_inv (H - {qa}) L ex s1" "same_ctxs s s1"
      using mq_release_ok[OF inv qa(1) sg r] by blast
    obtain nq s2 where s2: "skynet_globalmq_pop s1 = Some (nq, s2)" "node_inv (H - {qa} \<union> set_option nq) L ex s2" "quiet s1 s2"
      "set_option nq \<inter> (H - {qa}) = {}" using gpop_ok[OF s1(2)] by blast
    have "keeps s s2" using keeps_trans[OF same_ctxs_keeps[OF s1(3)] quiet_keeps[OF s2(3)]] .
    then show ?thesis using q g s1(1) s2 by (auto simp: dispatch_grab_def skynet_mq_handle_def)
  next
    case (Some c)
    then obtain x where x: "nd_ctx s c = Some x" "skynet_handle_grab (q_handle q) s = Some (Some c, ctx_set c (x\<lparr>cx_ref := cx_ref x + 1\<rparr>) s)"
      "node_inv H L (ex(c := ex c + 1)) (ctx_set c (x\<lparr>cx_ref := cx_ref x + 1\<rparr>) s)"
      using handle_grab_ok[OF inv, of "q_handle q"] by auto
    have c: "c \<in> hs_live (nd_hs s)" "cx_handle x = q_handle q"
      using handle_find_iff[OF node_invD(4)[OF inv]] Some x(1) by (auto simp: ctx_handle_def)
    have ok: "ctx_ok L ex s c x" by (rule node_invD(6)[OF inv x(1)])
    then have "mq_sig s (cx_queue x) = Some (q_handle q, False)" using c(2) by (simp add: ctx_ok_def)
    then have "cx_queue x = qa" using node_invD(10)[OF inv] sg unfolding handles_ok_def by blast
    moreover from this have "cx_init x" using ok c(1) qa(2) by (simp add: ctx_ok_def)
    moreover have "keeps s (ctx_set c (x\<lparr>cx_ref := cx_ref x + 1\<rparr>) s)" by (rule keeps_set[OF x(1)]) simp_all
    ultimately show ?thesis using q x by (auto simp: dispatch_grab_def skynet_mq_handle_def serves_def)
  qed
qed

lemma dispatch_finish_ok:
  assumes inv: "node_inv H L ex s" and e: "0 < ex c" and c: "serves s c qa" and qa: "qa \<in> H"
  shows "\<exists>nq s'. dispatch_finish qa c s = Some (nq, s') \<and> keeps s s' \<and>
    node_inv (H - {qa} \<union> set_option nq) L (ex(c := ex c - 1)) s' \<and> set_option nq \<inter> (H - {qa}) = {}"
proof -
  obtain x where x: "nd_ctx s c = Some x" "cx_queue x = qa" using c by (auto simp: serves_def)
  obtain r s1 where s1: "skynet_globalmq_pop s = Some (r, s1)" "node_inv (H \<union> set_option r) L ex s1" "quiet s s1" "set_option r \<inter> H = {}"
    using gpop_ok[OF inv] by blast
  let ?nq = "if r \<noteq> None then r else Some qa"
  have "\<exists>s2. (if r \<noteq> None then skynet_globalmq_push qa s1 else Some s1) = Some s2 \<and> node_inv (H - {qa} \<union> set_option ?nq) L ex s2 \<and> quiet s1 s2"
  proof (cases r)
    case None
    moreover have "insert qa H = H" using qa by auto
    ultimately show ?thesis using s1(2) quiet_refl by simp
  next
    case (Some b)
    then have "H \<union> set_option r - {qa} = H - {qa} \<union> set_option r" using s1(4) qa by auto
    then show ?thesis using gpush_ok[OF s1(2), of qa] qa Some by auto
  qed
  then obtain s2 where s2: "(if r \<noteq> None then skynet_globalmq_push qa s1 else Some s1) = Some s2"
    "node_inv (H - {qa} \<union> set_option ?nq) L ex s2" "quiet s1 s2" by blast
  obtain d s3 where s3: "skynet_context_release c s2 = Some (d, s3)" "node_inv (H - {qa} \<union> set_option ?nq) L (ex(c := ex c - 1)) s3" "keeps s2 s3"
    using context_release_ok[OF s2(2) e] by blast
  have "keeps s s3" using keeps_trans[OF quiet_keeps[OF quiet_trans[OF s1(3) s2(3)]] s3(3)] .
  moreover have "set_option ?nq \<inter> (H - {qa}) = {}" using s1(4) by auto
  moreover have "dispatch_finish qa c s = Some (?nq, s3)" using x s1(1) s2(1) s3(1) by (simp add: dispatch_finish_def)
  ultimately show ?thesis using s3(2) by blast
qed

lemma overload_ok:
  assumes inv: "node_inv H L ex s" and q: "mq_heap s a = Some q"
  shows "node_inv H L ex (mq_set a (snd (skynet_mq_overload q)) s)" "quiet s (mq_set a (snd (skynet_mq_overload q)) s)"
proof -
  let ?q = "snd (skynet_mq_overload q)"
  have f: "mq_wf ?q = mq_wf q" "mq_list ?q = mq_list q" "q_next ?q = q_next q" "q_in_global ?q = q_in_global q" "q_release ?q = q_release q"
    "q_handle ?q = q_handle q" by (simp_all add: skynet_mq_overload_def mq_list_def mq_wf_def skynet_mq_length_def)
  note wf = qinv_wf[OF node_invD(1)[OF inv] q]
  have "mq_sig (mq_set a ?q s) = mq_sig s" using mq_sig_upd[OF q f(6,5)] by simp
  then show k: "quiet s (mq_set a ?q s)" by (intro quiet_mq mq_onlyI) simp_all
  show "node_inv H L ex (mq_set a ?q s)"
    by (rule node_inv_quiet[OF inv k qinv_set_same[OF node_invD(1)[OF inv] q]]) (use wf f in simp_all)
qed

lemma dispatch_round_ok:
  assumes inv: "node_inv H L ex s" and e: "0 < ex c" and c: "serves s c qa" and qa: "qa \<in> H"
  shows "\<exists>r s'. dispatch_round qa c weight i n s = Some (r, s') \<and> keeps s s' \<and>
    (case r of
       Inl nq \<Rightarrow> node_inv (H - {qa} \<union> set_option nq) L (ex(c := ex c - 1)) s' \<and> set_option nq \<inter> (H - {qa}) = {}
     | Inr _ \<Rightarrow> node_inv H L ex s')"
proof -
  obtain x where x: "nd_ctx s c = Some x" "cx_queue x = qa" "cx_init x" using c by (auto simp: serves_def)
  have sg: "mq_sig s qa = Some (cx_handle x, False)" using node_invD(6)[OF inv x(1)] x(2) by (simp add: ctx_ok_def)
  then obtain q where q: "mq_heap s qa = Some q" "\<not> q_release q" by (auto simp: mq_sig_def)
  obtain m q1 where p: "skynet_mq_pop q = Some (m, q1)" "mq_sig (mq_set qa q1 s) = mq_sig s"
    "case m of None \<Rightarrow> qinv (H - {qa}) (mq_set qa q1 s) | Some _ \<Rightarrow> qinv H (mq_set qa q1 s)"
    using qinv_pop[OF node_invD(1)[OF inv] qa q(1)] q(2) by (auto split: option.splits)
  let ?s1 = "mq_set qa q1 s"
  have k1: "quiet s ?s1" by (rule quiet_mq[OF mq_onlyI p(2)]) simp
  show ?thesis
  proof (cases m)
    case None
    have i1: "node_inv (H - {qa}) L ex ?s1" using node_inv_quiet[OF inv k1] p(3) None by simp
    obtain d s2 where s2: "skynet_context_release c ?s1 = Some (d, s2)" "node_inv (H - {qa}) L (ex(c := ex c - 1)) s2" "keeps ?s1 s2"
      using context_release_ok[OF i1 e] by blast
    obtain nq s3 where s3: "skynet_globalmq_pop s2 = Some (nq, s3)" "node_inv (H - {qa} \<union> set_option nq) L (ex(c := ex c - 1)) s3"
      "quiet s2 s3" "set_option nq \<inter> (H - {qa}) = {}" using gpop_ok[OF s2(2)] by blast
    have "keeps s s3" using keeps_trans[OF keeps_trans[OF quiet_keeps[OF k1] s2(3)] quiet_keeps[OF s3(3)]] .
    then show ?thesis using q(1) p(1) None s2(1) s3 by (simp add: dispatch_round_def)
  next
    case (Some msg)
    have i1: "node_inv H L ex ?s1" using node_inv_quiet[OF inv k1] p(3) Some by simp
    obtain ov q2 where o: "skynet_mq_overload q1 = (ov, q2)" by (cases "skynet_mq_overload q1")
    have h1: "mq_heap ?s1 qa = Some q1" by (simp add: mq_set_def)
    let ?s2 = "mq_set qa q2 ?s1"
    have i2: "node_inv H L ex ?s2" "quiet ?s1 ?s2" using overload_ok[OF i1 h1] o by simp_all
    have s2: "serves ?s2 c qa" by (rule serves_keeps[OF c quiet_keeps[OF quiet_trans[OF k1 i2(2)]] inv i2(1) e])
    have "\<exists>s3. (if ov \<noteq> 0 then skynet_error (Some c) (str ''May overload, message queue length = '' @ nat_dec ov) ?s2 else Some ?s2) = Some s3 \<and>
        node_inv H L ex s3 \<and> calm ?s2 s3"
      using error_ok[OF i2(1), of "Some c" "str ''May overload, message queue length = '' @ nat_dec ov"] s2 i2(1) by (auto simp: serves_def)
    then obtain s3 where s3: "(if ov \<noteq> 0 then skynet_error (Some c) (str ''May overload, message queue length = '' @ nat_dec ov) ?s2 else Some ?s2) = Some s3"
      "node_inv H L ex s3" "calm ?s2 s3" by blast
    have k3: "quiet s s3" using quiet_trans[OF quiet_trans[OF k1 i2(2)] calm_quiet[OF s3(3)]] .
    obtain y where y: "nd_ctx s3 c = Some y" "cx_init y" using serves_keeps[OF c quiet_keeps[OF k3] inv s3(2) e] by (auto simp: serves_def)
    let ?n = "if i = 0 \<and> 0 \<le> weight then drop_bit (nat weight) (skynet_mq_length q1) else n"
    have "dispatch_round qa c weight i n s = Some (if cx_cb y then (Inr (?n, Some msg), s3) else (Inr (?n, None), data_free (m_data msg) s3))"
      using q(1) p(1) Some o s3(1) y unfolding dispatch_round_def by (simp add: Let_def dispatch_begin_def)
    moreover have "keeps s (data_free (m_data msg) s3)" "keeps s s3"
      using quiet_keeps[OF quiet_trans[OF k3 calm_quiet[OF calm_fields(8)]]] quiet_keeps[OF k3] by simp_all
    ultimately show ?thesis using s3(2) node_inv_fields(8)[OF s3(2)] by (cases "cx_cb y") auto
  qed
qed

end
