(* ===== verification/Node_Calls.thy ===== *)
theory Node_Calls
  imports Node_Services
begin

text \<open>
  The calls a service can make of the node, the messages of the timer thread and the check of the monitor:
  each returns and keeps the invariant of the node.
\<close>

section \<open>Safe calls\<close>

definition safe :: "nat set \<Rightarrow> nat set \<Rightarrow> (nat \<Rightarrow> nat) \<Rightarrow> node \<Rightarrow> ('a \<times> node) option \<Rightarrow> bool" where
  "safe H L ex s r \<longleftrightarrow> (\<exists>v s'. r = Some (v, s') \<and> node_inv H L ex s' \<and> keeps s s')"

lemma safeI: "r = Some (v, s') \<Longrightarrow> node_inv H L ex s' \<Longrightarrow> keeps s s' \<Longrightarrow> safe H L ex s r"
  by (auto simp: safe_def)

lemma safe_keeps: "keeps s t \<Longrightarrow> safe H L ex t r \<Longrightarrow> safe H L ex s r"
  using keeps_trans by (fastforce simp: safe_def)

lemma safe_bind:
  assumes "safe H L ex s r" "\<And>v t. r = Some (v, t) \<Longrightarrow> node_inv H L ex t \<Longrightarrow> keeps s t \<Longrightarrow> safe H L ex t (f (v, t))"
  shows "safe H L ex s (r \<bind> f)"
proof -
  obtain v t where t: "r = Some (v, t)" "node_inv H L ex t" "keeps s t" using assms(1) by (auto simp: safe_def)
  from safe_keeps[OF t(3) assms(2)[OF t]] t(1) show ?thesis by simp
qed

lemma safe_calm: "node_inv H L ex t \<Longrightarrow> calm s t \<Longrightarrow> safe H L ex s (Some (v, t))"
  by (blast intro: safeI calm_keeps)

lemma ex_ctx: "node_inv H L ex s \<Longrightarrow> 0 < ex c \<Longrightarrow> \<exists>x. nd_ctx s c = Some x"
  using node_invD(7)[of H L ex s c] by (simp add: refs_def)

text \<open>The harbor has started, and the timer is in order.\<close>

definition up :: "node \<Rightarrow> bool" where
  "up s \<longleftrightarrow> nd_remote s \<noteq> None \<and> timed s"

lemma up_keeps: "up s \<Longrightarrow> keeps s t \<Longrightarrow> up t"
  by (simp add: up_def keeps_def)

section \<open>Names\<close>

lemma result_ok:
  assumes inv: "node_inv H L ex s" and e: "0 < ex c"
  shows "safe H L ex s (set_result c r s)"
proof -
  obtain x where x: "nd_ctx s c = Some x" using ex_ctx[OF assms] by blast
  note k = ctx_set_calm[OF inv x, of "x\<lparr>cx_result := r\<rparr>"]
  have "set_result c r s = Some (Some r, ctx_set c (x\<lparr>cx_result := r\<rparr>) s)" using x by (simp add: set_result_def)
  then show ?thesis using safe_calm[OF k] by (simp add: ctx_sig_def)
qed

lemma error_safe:
  assumes inv: "node_inv H L ex s" and e: "0 < ex c"
  shows "\<exists>s'. skynet_error (Some c) text s = Some s' \<and> node_inv H L ex s' \<and> calm s s'"
  using error_ok[OF inv, of "Some c"] ex_ctx[OF assms] by auto

lemma tohandle_ok:
  assumes inv: "node_inv H L ex s" and e: "0 < ex c"
  shows "\<exists>h s'. tohandle c p s = Some (h, s') \<and> node_inv H L ex s' \<and> calm s s'"
  using findname_some[OF inv, of "chars (tl p)"] error_safe[OF assms, of "str ''Can't convert '' @ p @ str '' to handle''"] inv
  by (auto simp: tohandle_def)

lemma tohandle_safe: "node_inv H L ex s \<Longrightarrow> 0 < ex c \<Longrightarrow> safe H L ex s (tohandle c p s)"
  using tohandle_ok[of H L ex s c p] calm_keeps by (auto simp: safe_def)

lemma queryname_ok:
  assumes inv: "node_inv H L ex s" and e: "0 < ex c"
  shows "safe H L ex s (skynet_queryname c p s)"
  using findname_some[OF inv, of "chars (tl p)"] error_safe[OF assms, of "str ''Don't support query global name '' @ p"] inv
  by (auto simp: skynet_queryname_def safe_def intro: calm_keeps)

lemma set_names:
  assumes inv: "node_inv H L ex s" and hs: "names_ok hs" "hs_slot hs = hs_slot (nd_hs s)" "hs_slot_size hs = hs_slot_size (nd_hs s)"
    "hs_harbor hs = hs_harbor (nd_hs s)"
  shows "node_inv H L ex (s\<lparr>nd_hs := hs\<rparr>)" "keeps s (s\<lparr>nd_hs := hs\<rparr>)"
proof -
  let ?s = "s\<lparr>nd_hs := hs\<rparr>"
  have eq: "ctx_handle ?s = ctx_handle s" "mq_sig ?s = mq_sig s" "refs ex ?s = refs ex s" "hs_live hs = hs_live (nd_hs s)"
    using hs(2) by (auto simp: ctx_handle_def mq_sig_def refs_def hs_live_def fun_eq_iff)
  have wf: "hs_wf (ctx_handle s) hs" using node_invD(4)[OF inv] hs(2-4) by (simp add: hs_wf_def)
  have "core_inv L ex ?s" using node_invD(6-9)[OF inv] hs(1) wf by (intro core_invI) (auto simp: eq ctx_ok_def)
  moreover have "fresh ?s" "handles_ok ?s" using node_invD(2,10)[OF inv] hs(4) by (auto simp: fresh_def handles_ok_def eq)
  moreover have "qinv H ?s" using node_invD(1)[OF inv] qinv_cong[of ?s s] by simp
  ultimately show "node_inv H L ex ?s" by (simp add: node_inv_def)
  show "keeps s ?s" by (simp add: keeps_def timed_def mq_sig_def)
qed

text \<open>The table of names has room for one more name.\<close>

definition name_room :: "node \<Rightarrow> bool" where
  "name_room s \<longleftrightarrow> 2 * hs_name_count (nd_hs s) \<le> MAX_SLOT_SIZE"

lemma namehandle_ok:
  assumes inv: "node_inv H L ex s" and room: "name_room s"
  shows "\<exists>r hs. skynet_handle_namehandle h name (nd_hs s) = Some (r, hs) \<and> node_inv H L ex (s\<lparr>nd_hs := hs\<rparr>) \<and> keeps s (s\<lparr>nd_hs := hs\<rparr>)"
proof (cases "name_map (nd_hs s) name")
  case None
  obtain hs where "skynet_handle_namehandle h name (nd_hs s) = Some (Some name, hs)" "names_ok hs" "hs_slot hs = hs_slot (nd_hs s)"
    "hs_slot_size hs = hs_slot_size (nd_hs s)" "hs_harbor hs = hs_harbor (nd_hs s)"
    by (rule namehandle_new[OF node_invD(5)[OF inv] None, of h]) (use room in \<open>simp_all add: name_room_def\<close>)
  then show ?thesis using set_names[OF inv] by blast
next
  case (Some h')
  then show ?thesis using namehandle_taken[OF node_invD(5)[OF inv], of name h] set_names[OF inv, of "nd_hs s"] node_invD(5)[OF inv] by auto
qed

lemma reg_ok:
  assumes inv: "node_inv H L ex s" and e: "0 < ex c" and room: "name_room s"
  shows "safe H L ex s (cmd_reg c p s)"
proof -
  obtain x where x: "nd_ctx s c = Some x" using ex_ctx[OF inv e] by blast
  show ?thesis
  proof (cases "p = None \<or> p = Some []")
    case True
    then show ?thesis using x result_ok[OF inv e] by (auto simp: cmd_reg_def)
  next
    case False
    then obtain b where b: "p = Some b" "b \<noteq> []" by auto
    then show ?thesis
      using x namehandle_ok[OF inv room, of "cx_handle x" "chars (tl b)"] error_safe[OF inv e, of "str ''Can't register global name '' @ b @ str '' in C''"]
      by (auto simp: cmd_reg_def safe_def intro: calm_keeps)
  qed
qed

lemma query_ok:
  assumes inv: "node_inv H L ex s" and e: "0 < ex c"
  shows "safe H L ex s (cmd_query c p s)"
  using findname_some[OF inv, of "chars (tl p)"] result_ok[OF inv e] safeI[OF refl inv keeps_refl] by (auto simp: cmd_query_def)

lemma name_ok:
  assumes inv: "node_inv H L ex s" and e: "0 < ex c" and room: "name_room s" and w: "scan_token p = Some (name, p')" "scan_token p' \<noteq> None"
  shows "safe H L ex s (cmd_name c p s)"
proof -
  obtain h p'' where h: "scan_token p' = Some (h, p'')" using w(2) by auto
  show ?thesis
    using w(1) h inv namehandle_ok[OF inv room, of "strtoul16 (tl h)" "chars (tl name)"]
      error_safe[OF inv e, of "str ''Can't set global name '' @ name @ str '' in C''"]
    by (auto simp: cmd_name_def safe_def Let_def intro: calm_keeps)
qed

section \<open>Ending services\<close>

lemma handle_exit_ok:
  assumes inv: "node_inv H L ex s" and e: "0 < ex c" and u: "up s"
  shows "\<exists>s'. handle_exit c h s = Some s' \<and> node_inv H L ex s' \<and> keeps s s'"
proof -
  obtain x where x: "nd_ctx s c = Some x" using ex_ctx[OF inv e] by blast
  have h0: "cx_handle x \<noteq> 0"
    using node_invD(6)[OF inv x] node_invD(10)[OF inv] unfolding ctx_ok_def handles_ok_def by blast
  let ?h = "if h = 0 then cx_handle x else h"
  let ?t = "if h = 0 then str ''KILL self'' else str ''KILL '' @ hex_name h"
  obtain s1 where s1: "skynet_error (Some c) ?t s = Some s1" "node_inv H L ex s1" "calm s s1" using error_safe[OF inv e] by blast
  have r: "nd_remote s1 \<noteq> None" using up_keeps[OF u calm_keeps[OF s1(3)]] by (simp add: up_def)
  have "send_pre (Some c) ?h PTYPE_CLIENT 0 None 0 s1" "harbor_pre PTYPE_CLIENT s1"
    using ex_ctx[OF s1(2) e] r h0 by (auto simp: send_pre_def harbor_pre_def PTYPE_CLIENT_def PTYPE_SYSTEM_def PTYPE_HARBOR_def PTYPE_TAG_ALLOCSESSION_def)
  from send_ok[OF s1(2) this(1), of "nd_monitor_exit s1"] this(2) obtain v s' where
    v: "skynet_send (Some c) ?h (nd_monitor_exit s1) PTYPE_CLIENT 0 None 0 s1 = Some (v, s')" "node_inv H L ex s'" "calm s1 s'" by blast
  obtain s2 where s2: "(if nd_monitor_exit s1 \<noteq> 0 then do {
              (_, s') \<leftarrow> skynet_send (Some c) ?h (nd_monitor_exit s1) PTYPE_CLIENT 0 None 0 s1; Some s' } else Some s1) = Some s2"
    "node_inv H L ex s2" "keeps s s2"
  proof (cases "nd_monitor_exit s1 = 0")
    case True
    then show thesis using that[of s1] s1 calm_keeps by simp
  next
    case False
    then show thesis using that[of s'] v calm_keeps[OF calm_trans[OF s1(3) v(3)]] by simp
  qed
  obtain n s3 where s3: "skynet_handle_retire ?h s2 = Some (n, s3)" "node_inv H L ex s3" "keeps s2 s3" using retire_gone[OF s2(2)] by blast
  have "handle_exit c h s = Some s3" using x s1(1) s2(1) s3(1) by (simp add: handle_exit_def Let_def)
  then show ?thesis using s3(2) keeps_trans[OF s2(3) s3(3)] by blast
qed

lemma exit_ok: "node_inv H L ex s \<Longrightarrow> 0 < ex c \<Longrightarrow> up s \<Longrightarrow> safe H L ex s (cmd_exit c s)"
  using handle_exit_ok[of H L ex s c 0] by (auto simp: cmd_exit_def safe_def)

lemma kill_ok:
  assumes "node_inv H L ex s" "0 < ex c" "up s"
  shows "safe H L ex s (cmd_kill c p s)"
  unfolding cmd_kill_def
proof (rule safe_bind[OF tohandle_safe[OF assms(1,2)]])
  fix h t assume t: "node_inv H L ex t" "keeps s t"
  show "safe H L ex t (case (h, t) of (handle, s1) \<Rightarrow>
      (if handle \<noteq> 0 then handle_exit c handle s1 else Some s1) \<bind> (\<lambda>s2. Some (None, s2)))"
    using handle_exit_ok[OF t(1) assms(2) up_keeps[OF assms(3) t(2)], of h] t(1) by (auto simp: safe_def)
qed

lemma abort_ok:
  assumes "node_inv H L ex s"
  shows "safe H L ex s (cmd_abort s)"
  using retireall_ok[OF assms] by (auto simp: cmd_abort_def safe_def)

section \<open>Time\<close>

lemma deliver_all_ok:
  "node_inv H L ex s \<Longrightarrow> \<exists>s'. deliver_all ms s = Some s' \<and> node_inv H L ex s' \<and> calm s s'"
proof (induction ms arbitrary: s)
  case (Cons hm ms)
  obtain h m where hm: "hm = (h, m)" by (cases hm)
  obtain r s1 where s1: "skynet_context_push h m s = Some (r, s1)" "node_inv H L ex s1" "calm s s1" using push_calm[OF Cons.prems] by blast
  then show ?case using Cons.IH[OF s1(2)] calm_trans[OF s1(3)] by (auto simp: hm)
qed simp

lemma timer_calm:
  assumes "node_inv H L ex s" "timed (s\<lparr>nd_timer := T\<rparr>)"
  shows "node_inv H L ex (s\<lparr>nd_timer := T\<rparr>)" "calm s (s\<lparr>nd_timer := T\<rparr>)"
proof -
  show k: "calm s (s\<lparr>nd_timer := T\<rparr>)" using assms(2) by (simp add: calm_def quiet_def mq_sig_def mq_view_def fun_eq_iff)
  show "node_inv H L ex (s\<lparr>nd_timer := T\<rparr>)" by (rule node_inv_calm[OF assms(1) k]) (use node_invD(1)[OF assms(1)] in simp)
qed

lemma timeout_ok:
  assumes inv: "node_inv H L ex s" and e: "0 < ex c" and u: "up s"
  shows "safe H L ex s (cmd_timeout c p s)"
proof -
  obtain x0 where x0: "nd_ctx s c = Some x0" using ex_ctx[OF inv e] by blast
  obtain n s1 where s1: "skynet_context_newsession c s = Some (n, s1)" "node_inv H L ex s1" "calm s s1" using newsession_ok[OF inv x0] by blast
  obtain x where x: "nd_ctx s1 c = Some x" using ex_ctx[OF s1(2) e] by blast
  let ?ti = "word_of_int (strtol10 p) :: u32"
  obtain r ms T where t: "skynet_timeout (\<lambda>h. handle_find (ctx_handle s1) (nd_hs s1) h \<noteq> None) (cx_handle x) ?ti n (nd_timer s1) = (r, ms, T)"
    by (metis prod_cases3)
  obtain k ps where st: "settled k ps (nd_timer s1)" using up_keeps[OF u calm_keeps[OF s1(3)]] by (auto simp: up_def timed_def)
  have "timed (s1\<lparr>nd_timer := T\<rparr>)"
    using t st timer_add_ok[OF st, of ?ti] by (fastforce simp: skynet_timeout_def timed_def split: if_splits)
  note c = timer_calm[OF s1(2) this]
  obtain s2 where s2: "deliver_all ms (s1\<lparr>nd_timer := T\<rparr>) = Some s2" "node_inv H L ex s2" "calm (s1\<lparr>nd_timer := T\<rparr>) s2"
    using deliver_all_ok[OF c(1)] by blast
  have "cmd_timeout c p s = set_result c (int_dec (sint n)) s2" using s1(1) x t s2(1) by (simp add: cmd_timeout_def Let_def)
  then show ?thesis
    using safe_keeps[OF calm_keeps[OF calm_trans[OF s1(3) calm_trans[OF c(2) s2(3)]]] result_ok[OF s2(2) e]] by simp
qed

text \<open>A reading of the clock that is not 248 days ahead.\<close>

lemma updatetime_ok:
  assumes inv: "node_inv H L ex s" and t: "timed s" and cp: "tm_current_point (nd_timer s) \<le> cp \<Longrightarrow> unat (cp - tm_current_point (nd_timer s)) < 2 ^ 31"
  shows "\<exists>s'. node_updatetime cp [] s = Some s' \<and> node_inv H L ex s' \<and> keeps s s'"
proof -
  obtain n ps where st: "settled n ps (nd_timer s)" using t by (auto simp: timed_def)
  obtain T ms where T: "skynet_updatetime cp [] (nd_timer s) = Some (T, ms)" "timed (s\<lparr>nd_timer := T\<rparr>)"
  proof (cases "cp < tm_current_point (nd_timer s)")
    case True
    have "settled n ps (nd_timer s\<lparr>tm_current_point := cp\<rparr>)"
      using st settled_clock[of n ps "tm_current (nd_timer s)" cp "nd_timer s"] by (simp del: settled_clock)
    then show thesis using that[of "nd_timer s\<lparr>tm_current_point := cp\<rparr>" "[]"] True by (auto simp: skynet_updatetime_def timed_def)
  next
    case False
    then show thesis using updatetime_settled[OF st, of cp] cp that by (fastforce simp: timed_def)
  qed
  note c = timer_calm[OF inv T(2)]
  obtain s2 where s2: "deliver_all ms (s\<lparr>nd_timer := T\<rparr>) = Some s2" "node_inv H L ex s2" "calm (s\<lparr>nd_timer := T\<rparr>) s2"
    using deliver_all_ok[OF c(1)] by blast
  then show ?thesis using T(1) calm_keeps[OF calm_trans[OF c(2) s2(3)]] by (auto simp: node_updatetime_def)
qed

section \<open>Other commands\<close>

lemma getenv_ok: "node_inv H L ex s \<Longrightarrow> safe H L ex s (cmd_getenv p s)"
  by (auto simp: cmd_getenv_def safe_def)

lemma setenv_ok:
  assumes inv: "node_inv H L ex s" and f: "length (takeWhile (\<lambda>b. b \<noteq> 32) p) \<noteq> length p \<Longrightarrow> nd_env s (takeWhile (\<lambda>b. b \<noteq> 32) p) = None"
  shows "safe H L ex s (cmd_setenv p s)"
  using inv f node_inv_fields(3)[OF inv] calm_keeps[OF calm_fields(3)]
  by (auto simp: cmd_setenv_def skynet_setenv_def Let_def safe_def)

lemma starttime_ok: "node_inv H L ex s \<Longrightarrow> 0 < ex c \<Longrightarrow> safe H L ex s (cmd_starttime c s)"
  by (simp add: cmd_starttime_def result_ok)

lemma endless_ok:
  assumes inv: "node_inv H L ex s" and e: "0 < ex c"
  shows "safe H L ex s (cmd_endless c s)"
proof -
  obtain x where x: "nd_ctx s c = Some x" using ex_ctx[OF assms] by blast
  show ?thesis
    using x inv ctx_set_calm[OF inv x, of "x\<lparr>cx_result := str ''1'', cx_endless := False\<rparr>"]
    by (auto simp: cmd_endless_def ctx_sig_def safe_def intro: calm_keeps)
qed

lemma monitor_ok:
  assumes inv: "node_inv H L ex s" and e: "0 < ex c"
  shows "safe H L ex s (cmd_monitor c p s)"
proof (cases "p = None \<or> p = Some []")
  case True
  then show ?thesis using result_ok[OF inv e] safeI[OF refl inv keeps_refl] by (auto simp: cmd_monitor_def)
next
  case False
  then obtain b p' where p: "p = Some (b # p')" by (cases p) (auto simp: neq_Nil_conv)
  obtain h t where t: "tohandle c (b # p') s = Some (h, t)" "node_inv H L ex t" "calm s t" using tohandle_ok[OF inv e] by blast
  then show ?thesis
    using p node_inv_fields(4)[OF t(2)] calm_keeps[OF calm_trans[OF t(3) calm_fields(4)]] by (auto simp: cmd_monitor_def safe_def)
qed

lemma mqlen_ok:
  assumes inv: "node_inv H L ex s" and e: "0 < ex c"
  shows "safe H L ex s (cmd_mqlen c s)"
proof -
  obtain x where x: "nd_ctx s c = Some x" using ex_ctx[OF assms] by blast
  then obtain q where "mq_heap s (cx_queue x) = Some q" using node_invD(6)[OF inv x] by (auto simp: ctx_ok_def mq_sig_def)
  then show ?thesis using x result_ok[OF inv e] by (simp add: cmd_mqlen_def)
qed

text \<open>Commands that grab the addressed service, do something that keeps the invariant, and release it.\<close>

lemma grabbed_ok:
  assumes inv: "node_inv H L ex s" and e: "0 < ex c"
    and f: "\<And>d y t. node_inv H L (ex(d := ex d + 1)) t \<Longrightarrow> nd_ctx t d = Some y \<Longrightarrow>
      \<exists>t'. f d y t = Some t' \<and> node_inv H L (ex(d := ex d + 1)) t' \<and> keeps t t'"
  shows "safe H L ex s (do {
     (r, s1) \<leftarrow> skynet_handle_grab h s;
     case r of
       None \<Rightarrow> Some (None, s1)
     | Some d \<Rightarrow> do { y \<leftarrow> nd_ctx s1 d; s2 \<leftarrow> f d y s1; (_, s3) \<leftarrow> skynet_context_release d s2; Some (None, s3) } })"
proof (cases "handle_find (ctx_handle s) (nd_hs s) h")
  case None
  then show ?thesis using handle_grab_ok[OF inv, of h] inv by (auto simp: safe_def)
next
  case (Some d)
  then obtain x where x: "nd_ctx s d = Some x" "skynet_handle_grab h s = Some (Some d, ctx_set d (x\<lparr>cx_ref := cx_ref x + 1\<rparr>) s)"
    "node_inv H L (ex(d := ex d + 1)) (ctx_set d (x\<lparr>cx_ref := cx_ref x + 1\<rparr>) s)"
    using handle_grab_ok[OF inv, of h] by auto
  let ?s1 = "ctx_set d (x\<lparr>cx_ref := cx_ref x + 1\<rparr>) s" and ?y = "x\<lparr>cx_ref := cx_ref x + 1\<rparr>"
  obtain s2 where s2: "f d ?y ?s1 = Some s2" "node_inv H L (ex(d := ex d + 1)) s2" "keeps ?s1 s2" using f[OF x(3), of ?y] by auto
  have ee: "(ex(d := ex d + 1))(d := (ex(d := ex d + 1)) d - 1) = ex" by auto
  obtain r s3 where s3: "skynet_context_release d s2 = Some (r, s3)" "node_inv H L ex s3" "keeps s2 s3"
    using context_release_ok[OF s2(2), of d] unfolding ee by auto
  have "keeps s ?s1" by (rule keeps_set[OF x(1)]) simp_all
  from keeps_trans[OF keeps_trans[OF this s2(3)] s3(3)] have "keeps s s3" .
  then show ?thesis using x(2) s2(1) s3 by (auto simp: safe_def)
qed

definition with_service ::
    "(nat \<Rightarrow> skynet_context \<Rightarrow> u32 \<Rightarrow> node \<Rightarrow> node option) \<Rightarrow> nat \<Rightarrow> byte list \<Rightarrow> node \<Rightarrow> ('a option \<times> node) option" where
  "with_service f c p s = do {
     (h, s0) \<leftarrow> tohandle c p s;
     if h = 0 then Some (None, s0)
     else do {
       (r, s1) \<leftarrow> skynet_handle_grab h s0;
       case r of
         None \<Rightarrow> Some (None, s1)
       | Some d \<Rightarrow> do { y \<leftarrow> nd_ctx s1 d; s2 \<leftarrow> f d y h s1; (_, s3) \<leftarrow> skynet_context_release d s2; Some (None, s3) }
     }
   }"

lemma with_service_ok:
  assumes inv: "node_inv H L ex s" and e: "0 < ex c"
    and f: "\<And>h d y t. node_inv H L (ex(d := ex d + 1)) t \<Longrightarrow> nd_ctx t d = Some y \<Longrightarrow>
      \<exists>t'. f d y h t = Some t' \<and> node_inv H L (ex(d := ex d + 1)) t' \<and> keeps t t'"
  shows "safe H L ex s (with_service f c p s)"
  unfolding with_service_def
proof (rule safe_bind[OF tohandle_safe[OF inv e]])
  fix h t assume t: "node_inv H L ex t"
  show "safe H L ex t (case (h, t) of (h, s0) \<Rightarrow> if h = 0 then Some (None, s0)
      else do {
        (r, s1) \<leftarrow> skynet_handle_grab h s0;
        case r of
          None \<Rightarrow> Some (None, s1)
        | Some d \<Rightarrow> do { y \<leftarrow> nd_ctx s1 d; s2 \<leftarrow> f d y h s1; (_, s3) \<leftarrow> skynet_context_release d s2; Some (None, s3) } })"
    using grabbed_ok[OF t e, of "\<lambda>d y t. f d y h t" h] f safeI[OF refl t keeps_refl] by (auto simp del: safe_def)
qed

lemma signal_ok:
  assumes "node_inv H L ex s" "0 < ex c"
  shows "safe H L ex s (cmd_signal c p s)"
proof -
  let ?sig = "if dropWhile (\<lambda>b. b \<noteq> 32) p = [] then 0 else to_int (strtol0 (dropWhile (\<lambda>b. b \<noteq> 32) p))"
  have "cmd_signal c p s = with_service (\<lambda>d y h t. Some (out (Inst_Signal (cx_mod y) (cx_instance y) ?sig) t)) c p s"
    unfolding cmd_signal_def with_service_def Let_def by (simp only: bind.bind_lunit)
  also have "safe H L ex s \<dots>"
    by (rule with_service_ok[OF assms]) (auto intro: calm_keeps calm_fields)
  finally show ?thesis .
qed

lemma log_open_ok:
  assumes inv: "node_inv H L ex s" and e: "0 < ex c"
  shows "\<exists>f s'. skynet_log_open fopen c h s = Some (f, s') \<and> node_inv H L ex s' \<and> calm s s'"
proof (cases "skynet_getenv (str ''logpath'') s")
  case (Some l)
  let ?t = "l @ str ''/'' @ hex8 h @ str ''.log''"
  show ?thesis
    using Some error_safe[OF assms, of "str ''Open log file '' @ ?t"] error_safe[OF assms, of "str ''Open log file '' @ ?t @ str '' fail''"]
    by (cases "fopen ?t") (auto simp: skynet_log_open_def Let_def)
qed (use inv in \<open>auto simp: skynet_log_open_def\<close>)

lemma logon_ok:
  assumes inv: "node_inv H L ex s" and e: "0 < ex c"
  shows "safe H L ex s (cmd_logon fopen c p s)"
proof -
  let ?f = "\<lambda>d y h t. if cx_logfile y = None then do {
      (f, s') \<leftarrow> skynet_log_open fopen c h t; z \<leftarrow> nd_ctx s' d;
      Some (if f \<noteq> None then ctx_set d (z\<lparr>cx_logfile := f\<rparr>) s' else s') } else Some t"
  have "cmd_logon fopen c p s = with_service ?f c p s" by (simp add: cmd_logon_def with_service_def)
  also have "safe H L ex s \<dots>"
  proof (rule with_service_ok[OF inv e])
    fix h d y t assume t: "node_inv H L (ex(d := ex d + 1)) t" "nd_ctx t d = Some y"
    have e': "0 < (ex(d := ex d + 1)) c" using e by auto
    obtain f s' where o: "skynet_log_open fopen c h t = Some (f, s')" "node_inv H L (ex(d := ex d + 1)) s'" "calm t s'"
      using log_open_ok[OF t(1) e'] by blast
    obtain z where z: "nd_ctx s' d = Some z" by (rule calm_sym_ctx[OF o(3) t(2)])
    note k = ctx_set_calm[OF o(2) z, of "z\<lparr>cx_logfile := f\<rparr>"]
    show "\<exists>t'. ?f d y h t = Some t' \<and> node_inv H L (ex(d := ex d + 1)) t' \<and> keeps t t'"
      using t(1) o z k calm_keeps[OF o(3)] keeps_trans[OF calm_keeps[OF o(3)] calm_keeps] by (auto simp: ctx_sig_def)
  qed
  finally show ?thesis .
qed

lemma logoff_ok:
  assumes inv: "node_inv H L ex s" and e: "0 < ex c"
  shows "safe H L ex s (cmd_logoff c p s)"
proof -
  let ?f = "\<lambda>d y h t. case cx_logfile y of None \<Rightarrow> Some t
    | Some f \<Rightarrow> skynet_log_close c f h (ctx_set d (y\<lparr>cx_logfile := None\<rparr>) t)"
  have "cmd_logoff c p s = with_service ?f c p s" by (simp add: cmd_logoff_def with_service_def)
  also have "safe H L ex s \<dots>"
  proof (rule with_service_ok[OF inv e])
    fix h d y t assume t: "node_inv H L (ex(d := ex d + 1)) t" "nd_ctx t d = Some y"
    have e': "0 < (ex(d := ex d + 1)) c" using e by auto
    have "ctx_sig (y\<lparr>cx_logfile := None\<rparr>) = ctx_sig y" by (simp add: ctx_sig_def)
    note k = ctx_set_calm[OF t this]
    obtain s' where s': "skynet_error (Some c) (str ''Close log file :'' @ hex8 h) (ctx_set d (y\<lparr>cx_logfile := None\<rparr>) t) = Some s'"
      "node_inv H L (ex(d := ex d + 1)) s'" "calm (ctx_set d (y\<lparr>cx_logfile := None\<rparr>) t) s'" using error_safe[OF k(1) e'] by blast
    have "calm t (out f s')" for f using calm_trans[OF calm_trans[OF k(2) s'(3)] calm_fields(6)] .
    then show "\<exists>t'. ?f d y h t = Some t' \<and> node_inv H L (ex(d := ex d + 1)) t' \<and> keeps t t'"
      using t(1) s' node_inv_fields(6)[OF s'(2)] calm_keeps by (auto simp: skynet_log_close_def split: option.splits)
  qed
  finally show ?thesis .
qed

lemma service_endless_ok:
  assumes inv: "node_inv H L ex s"
  shows "\<exists>s'. skynet_context_endless h s = Some s' \<and> node_inv H L ex s' \<and> keeps s s'"
proof (cases "handle_find (ctx_handle s) (nd_hs s) h")
  case None
  then show ?thesis using handle_grab_ok[OF inv, of h] inv by (simp add: skynet_context_endless_def)
next
  case (Some d)
  then obtain x where x: "nd_ctx s d = Some x" "skynet_handle_grab h s = Some (Some d, ctx_set d (x\<lparr>cx_ref := cx_ref x + 1\<rparr>) s)"
    "node_inv H L (ex(d := ex d + 1)) (ctx_set d (x\<lparr>cx_ref := cx_ref x + 1\<rparr>) s)"
    using handle_grab_ok[OF inv, of h] by auto
  let ?y = "x\<lparr>cx_ref := cx_ref x + 1\<rparr>"
  let ?s1 = "ctx_set d ?y s"
  let ?s2 = "ctx_set d (?y\<lparr>cx_endless := True\<rparr>) ?s1"
  have "nd_ctx ?s1 d = Some ?y" "ctx_sig (?y\<lparr>cx_endless := True\<rparr>) = ctx_sig ?y" by (simp_all add: ctx_sig_def)
  note k = ctx_set_calm[OF x(3) this]
  have ee: "(ex(d := ex d + 1))(d := (ex(d := ex d + 1)) d - 1) = ex" by auto
  obtain r s3 where s3: "skynet_context_release d ?s2 = Some (r, s3)" "node_inv H L ex s3" "keeps ?s2 s3"
    using context_release_ok[OF k(1), of d] unfolding ee by auto
  have "keeps s ?s1" by (rule keeps_set[OF x(1)]) simp_all
  from keeps_trans[OF keeps_trans[OF this calm_keeps[OF k(2)]] s3(3)] have "keeps s s3" .
  then show ?thesis using x(2) s3(1,2) by (simp add: skynet_context_endless_def)
qed

lemma monitor_check_ok:
  assumes inv: "node_inv H L ex s"
  shows "safe H L ex s (skynet_monitor_check sm s)"
proof -
  obtain s1 where s1: "skynet_context_endless (sm_destination sm) s = Some s1" "node_inv H L ex s1" "keeps s s1"
    using service_endless_ok[OF inv] by blast
  obtain s2 where s2: "skynet_error None (str ''A message from [ :'' @ hex8 (sm_source sm) @ str '' ] to [ :'' @ hex8 (sm_destination sm)
      @ str '' ] maybe in an endless loop (version = '' @ int_dec (sint (sm_version sm)) @ str '')'') s1 = Some s2"
    "node_inv H L ex s2" "calm s1 s2" using error_ok[OF s1(2), of None] by auto
  show ?thesis using inv s1(1) s2(1,2) keeps_trans[OF s1(3) calm_keeps[OF s2(3)]] by (auto simp: skynet_monitor_check_def safe_def)
qed

lemma callback_ok:
  assumes inv: "node_inv H L ex s" and e: "0 < ex c"
  shows "\<exists>s'. skynet_callback c s = Some s' \<and> node_inv H L ex s' \<and> keeps s s'"
proof -
  obtain x where x: "nd_ctx s c = Some x" using ex_ctx[OF assms] by blast
  have "node_inv H L ex (ctx_set c (x\<lparr>cx_cb := True\<rparr>) s)"
    by (rule node_ctx_set[OF inv x]) (use node_invD(6)[OF inv x] in \<open>auto simp: ctx_ok_def\<close>)
  moreover have "keeps s (ctx_set c (x\<lparr>cx_cb := True\<rparr>) s)" by (rule keeps_set[OF x]) simp_all
  ultimately show ?thesis using x by (simp add: skynet_callback_def)
qed

lemma send_safe:
  assumes "node_inv H L ex s" "send_pre cxt source ty session d sz s" "is_remote dest s \<Longrightarrow> harbor_pre ty s"
  shows "safe H L ex s (skynet_send cxt source dest ty session d sz s)"
  using send_ok[OF assms(1,2), of dest] assms(3) calm_keeps by (auto simp: safe_def)

text \<open>The handle that a name with a colon or a dot stands for.\<close>

definition name_dest :: "byte list \<Rightarrow> node \<Rightarrow> u32" where
  "name_dest addr s = (if first_byte addr = 58 then strtoul16 (tl addr)
     else case skynet_handle_findname (nd_hs s) (chars (tl addr)) of Some h \<Rightarrow> h | None \<Rightarrow> 0)"

definition sendname_pre :: "byte list \<Rightarrow> int \<Rightarrow> u64 \<Rightarrow> node \<Rightarrow> bool" where
  "sendname_pre addr ty sz s \<longleftrightarrow>
     (if first_byte addr = 58 \<or> first_byte addr = 46 then is_remote (name_dest addr s) s \<longrightarrow> harbor_pre ty s
      else harbor_pre ty s \<and> sz AND MESSAGE_TYPE_MASK = sz)"

lemma sendname_ok:
  assumes inv: "node_inv H L ex s" and pre: "send_pre cxt source ty session d sz s" and rem: "sendname_pre addr ty sz s"
  shows "safe H L ex s (skynet_sendname cxt source addr ty session d sz s)"
proof -
  obtain h where h: "source_of cxt source s = Some h" "source \<noteq> 0 \<longrightarrow> h = source" using source_ok[OF pre calm_refl] by blast
  have pre': "send_pre cxt h ty session d sz s" using pre h by (auto simp: send_pre_def source_of_def split: option.splits)
  obtain n where n: "skynet_handle_findname (nd_hs s) (chars (tl addr)) = Some n" using findname_some[OF inv] by blast
  consider (colon) "first_byte addr = 58" | (dot) "first_byte addr = 46" | (global) "first_byte addr \<noteq> 58" "first_byte addr \<noteq> 46" by blast
  then show ?thesis
  proof cases
    case colon
    then show ?thesis using h(1) send_safe[OF inv pre', of "strtoul16 (tl addr)"] rem by (simp add: skynet_sendname_def sendname_pre_def name_dest_def)
  next
    case dot
    then show ?thesis
      using h(1) n send_safe[OF inv pre', of n] rem safe_calm[OF free_dontcopy_ok(1)[OF inv] free_dontcopy_ok(2)]
      by (auto simp: skynet_sendname_def sendname_pre_def name_dest_def)
  next
    case global
    then have g: "harbor_pre ty s" "sz AND MESSAGE_TYPE_MASK = sz" using rem by (simp_all add: sendname_pre_def)
    let ?sz = "sz OR push_bit MESSAGE_TYPE_SHIFT (word_of_int (ty AND 0xff))"
    obtain m d' s1 where f: "filter_args cxt ty session d sz s = Some (m, d', ?sz, s1)" "node_inv H L ex s1" "calm s s1"
      using filter_ok[OF inv pre] by blast
    obtain s2 where s2: "skynet_harbor_send \<lparr>rm_name = copy_name addr, rm_handle = 0, rm_message = d', rm_sz = ?sz\<rparr> h m s1 = Some s2"
      "node_inv H L ex s2" "calm s1 s2"
      using harbor_send_ok[OF f(2) g(2), of ty "\<lparr>rm_name = copy_name addr, rm_handle = 0, rm_message = d', rm_sz = ?sz\<rparr>" h m] g(1)
        calm_remote(2)[OF f(3)] by auto
    have "skynet_sendname cxt source addr ty session d sz s = Some (sint m, s2)"
      using global h(1) f(1) s2(1) by (simp add: skynet_sendname_def)
    then show ?thesis using safe_calm[OF s2(2) calm_trans[OF f(3) s2(3)]] by simp
  qed
qed

text \<open>What the commands owe: \<open>LAUNCH\<close> is a step of its own, and three commands have an assertion or read a second word.\<close>

definition command_pre :: "command \<Rightarrow> byte list \<Rightarrow> node \<Rightarrow> bool" where
  "command_pre cmd p s \<longleftrightarrow>
     (case cmd of
        REG \<Rightarrow> name_room s
      | NAME \<Rightarrow> name_room s \<and> (case scan_token p of None \<Rightarrow> False | Some (_, p') \<Rightarrow> scan_token p' \<noteq> None)
      | SETENV \<Rightarrow> length (takeWhile (\<lambda>b. b \<noteq> 32) p) \<noteq> length p \<longrightarrow> nd_env s (takeWhile (\<lambda>b. b \<noteq> 32) p) = None
      | LAUNCH \<Rightarrow> False
      | _ \<Rightarrow> True)"

lemma command_ok:
  assumes inv: "node_inv H L ex s" and e: "0 < ex c" and u: "up s" and pre: "command_pre cmd p s"
  shows "safe H L ex s (run_command fopen context_new cmd c p s)"
proof (cases cmd)
  case NAME
  then obtain n p' where "name_room s" "scan_token p = Some (n, p')" "scan_token p' \<noteq> None"
    using pre by (auto simp: command_pre_def split: option.splits)
  then show ?thesis using name_ok[OF inv e] NAME by (simp add: run_command_def)
qed (use pre timeout_ok[OF inv e u, of p] reg_ok[OF inv e, of "Some p"] query_ok[OF inv e, of p] exit_ok[OF inv e u] kill_ok[OF inv e u, of p]
    getenv_ok[OF inv, of p] setenv_ok[OF inv, of p] starttime_ok[OF inv e] endless_ok[OF inv e] abort_ok[OF inv] monitor_ok[OF inv e, of "Some p"]
    mqlen_ok[OF inv e] logon_ok[OF inv e, of fopen p] logoff_ok[OF inv e, of p] signal_ok[OF inv e, of p] in
    \<open>simp_all add: run_command_def command_pre_def\<close>)

end
