(* ===== verification/Node_Run.thy ===== *)
theory Node_Run
  imports Node_Calls
begin

text \<open>
  The threads of a node, \<open>skynet-src/skynet_start.c\<close>: the workers with their dispatch loop and their sleep, the
  timer thread, the socket thread and the monitor thread, interleaved over the state of the node.

  A step of a worker is a piece of \<open>skynet_context_message_dispatch\<close> or of \<open>skynet_context_new\<close>, or a call of the
  node's interface by the service that runs on it; a callback or an \<open>init\<close> is the calls between the piece
  before and the piece after it. The pieces of a launch nest. \<^term>\<open>None\<close> is a fault.
\<close>

section \<open>State\<close>

datatype frame =
    is_Serve: Serve (fr_queue: nat) (fr_ctx: nat) (fr_i: nat) (fr_n: nat) (fr_msg: "skynet_message option")
  | is_Launch: Launch (fr_queue: nat) (fr_ctx: nat) (fr_name: "byte list") (fr_param: "byte list option")

datatype phase = Working | Napping | Waiting

record worker =
  wk_weight :: int
  wk_monitor :: skynet_monitor
  wk_phase :: phase
  wk_queue :: "nat option"
  wk_frames :: "frame list"

record node_run =
  rn_node :: node
  rn_workers :: "worker list"
  rn_sleep :: int
  rn_quit :: bool

text \<open>The weights of the workers.\<close>

definition worker_weight :: "nat \<Rightarrow> int" where
  "worker_weight i = (if i < 4 then - 1 else if i < 8 then 0 else if i < 16 then 1 else if i < 24 then 2 else if i < 32 then 3 else 0)"

definition new_worker :: "nat \<Rightarrow> worker" where
  "new_worker i = \<lparr>wk_weight = worker_weight i, wk_monitor = skynet_monitor_new, wk_phase = Working, wk_queue = None, wk_frames = []\<rparr>"

definition start_run :: "nat \<Rightarrow> node \<Rightarrow> node_run" where
  "start_run thread s = \<lparr>rn_node = s, rn_workers = map new_worker [0..<thread], rn_sleep = 0, rn_quit = False\<rparr>"

section \<open>What a service calls\<close>

datatype call =
    Send u32 u32 int u32 "nat option" u64
  | Sendname u32 "byte list" int u32 "nat option" u64
  | Command command "byte list"
  | Callback
  | Error "byte list"
  | Queryname "byte list"

fun call_pre :: "nat \<Rightarrow> call \<Rightarrow> node \<Rightarrow> bool" where
  "call_pre c (Send source dest ty session d sz) s \<longleftrightarrow>
     send_pre (Some c) source ty session d sz s \<and> (is_remote dest s \<longrightarrow> harbor_pre ty s)"
| "call_pre c (Sendname source addr ty session d sz) s \<longleftrightarrow>
     send_pre (Some c) source ty session d sz s \<and> sendname_pre addr ty sz s"
| "call_pre c (Command cmd p) s \<longleftrightarrow> command_pre cmd p s"
| "call_pre c _ s \<longleftrightarrow> True"

fun do_call :: "(byte list \<Rightarrow> nat option) \<Rightarrow> nat \<Rightarrow> call \<Rightarrow> node \<Rightarrow> node option" where
  "do_call fopen c (Send source dest ty session d sz) s = map_option snd (skynet_send (Some c) source dest ty session d sz s)"
| "do_call fopen c (Sendname source addr ty session d sz) s = map_option snd (skynet_sendname (Some c) source addr ty session d sz s)"
| "do_call fopen c (Command cmd p) s = map_option snd (run_command fopen (\<lambda>_ _ _. None) cmd c p s)"
| "do_call fopen c Callback s = skynet_callback c s"
| "do_call fopen c (Error t) s = skynet_error (Some c) t s"
| "do_call fopen c (Queryname p) s = map_option snd (skynet_queryname c p s)"

lemma do_call_ok:
  assumes inv: "node_inv H L ex s" and e: "0 < ex c" and u: "up s" and pre: "call_pre c a s"
  shows "\<exists>s'. do_call fopen c a s = Some s' \<and> node_inv H L ex s' \<and> keeps s s'"
proof (cases a)
  case (Send source dest ty session d sz)
  then show ?thesis using send_safe[OF inv, of "Some c" source ty session d sz dest] pre by (auto simp: safe_def)
next
  case (Sendname source addr ty session d sz)
  then show ?thesis using sendname_ok[OF inv, of "Some c" source ty session d sz addr] pre by (auto simp: safe_def)
next
  case (Command cmd p)
  then show ?thesis using command_ok[OF inv e u, of cmd p fopen "\<lambda>_ _ _. None"] pre by (auto simp: safe_def)
next
  case Callback
  then show ?thesis using callback_ok[OF inv e] by simp
next
  case (Error t)
  then show ?thesis using error_safe[OF inv e, of t] calm_keeps by auto
next
  case (Queryname p)
  then show ?thesis using queryname_ok[OF inv e, of p] by (auto simp: safe_def)
qed

section \<open>Workers\<close>

text \<open>The context on whose behalf a worker calls: the service in its callback, or the one that is initialised.\<close>

fun running :: "frame list \<Rightarrow> nat option" where
  "running (Serve qa c i n (Some m) # fs) = Some c"
| "running (Launch qa c name param # fs) = Some c"
| "running _ = None"

datatype wk_event =
    Poll | Grab | Round | Return bool | Finish
  | Call call | Begin nat nat "byte list" "byte list option" | Inited bool

definition after_dispatch :: "nat option \<Rightarrow> worker \<Rightarrow> worker" where
  "after_dispatch nq w = w\<lparr>wk_queue := nq, wk_frames := [], wk_phase := (if nq = None then Napping else Working)\<rparr>"

definition wk_trigger :: "u32 \<Rightarrow> u32 \<Rightarrow> worker \<Rightarrow> worker" where
  "wk_trigger source dest w = w\<lparr>wk_monitor := skynet_monitor_trigger source dest (wk_monitor w)\<rparr>"

text \<open>The end of \<open>cmd_launch\<close>: the handle of the new service is the result for the service that launched it.\<close>

definition launch_result :: "nat option \<Rightarrow> frame list \<Rightarrow> node \<Rightarrow> node option" where
  "launch_result r fs s =
     (case (r, running fs) of
        (Some i, Some c) \<Rightarrow> do { y \<leftarrow> nd_ctx s i; (_, s') \<leftarrow> set_result c (id_to_hex (cx_handle y)) s; Some s' }
      | _ \<Rightarrow> Some s)"

text \<open>The source of a message that is freed without a callback does not survive the second trigger.\<close>

fun wk_step :: "(byte list \<Rightarrow> nat option) \<Rightarrow> wk_event \<Rightarrow> node \<Rightarrow> worker \<Rightarrow> (node \<times> worker) option" where
  "wk_step fopen Poll s w = do {
     (q, s') \<leftarrow> skynet_globalmq_pop s;
     Some (s', w\<lparr>wk_queue := q, wk_phase := (if q = None then Napping else Working)\<rparr>)
   }"
| "wk_step fopen Grab s w = do {
     qa \<leftarrow> wk_queue w;
     (r, nq, s') \<leftarrow> dispatch_grab qa s;
     case r of
       None \<Rightarrow> Some (s', after_dispatch nq w)
     | Some c \<Rightarrow> Some (s', w\<lparr>wk_queue := None, wk_frames := [Serve qa c 0 1 None]\<rparr>)
   }"
| "wk_step fopen Round s w =
     (case wk_frames w of
        [Serve qa c i n None] \<Rightarrow> do {
          q \<leftarrow> mq_heap s qa;
          (r, s') \<leftarrow> dispatch_round qa c (wk_weight w) i n s;
          case r of
            Inl nq \<Rightarrow> Some (s', after_dispatch nq w)
          | Inr (n', None) \<Rightarrow>
              Some (s', wk_trigger 0 0 (wk_trigger 0 (skynet_mq_handle q) (w\<lparr>wk_frames := [Serve qa c (Suc i) n' None]\<rparr>)))
          | Inr (n', Some m) \<Rightarrow>
              Some (s', wk_trigger (m_source m) (skynet_mq_handle q) (w\<lparr>wk_frames := [Serve qa c i n' (Some m)]\<rparr>))
        }
      | _ \<Rightarrow> None)"
| "wk_step fopen (Return keep) s w =
     (case wk_frames w of
        [Serve qa c i n (Some m)] \<Rightarrow>
          Some (dispatch_done keep m s, wk_trigger 0 0 (w\<lparr>wk_frames := [Serve qa c (Suc i) n None]\<rparr>))
      | _ \<Rightarrow> None)"
| "wk_step fopen Finish s w =
     (case wk_frames w of
        [Serve qa c i n None] \<Rightarrow> do {
          (nq, s') \<leftarrow> dispatch_finish qa c s;
          Some (s', after_dispatch nq w)
        }
      | _ \<Rightarrow> None)"
| "wk_step fopen (Call a) s w = do {
     c \<leftarrow> running (wk_frames w);
     s' \<leftarrow> do_call fopen c a s;
     Some (s', w)
   }"
| "wk_step fopen (Begin md inst name param) s w = do {
     (c, s') \<leftarrow> context_new_begin md inst s;
     x \<leftarrow> nd_ctx s' c;
     Some (s', w\<lparr>wk_frames := Launch (cx_queue x) c name param # wk_frames w\<rparr>)
   }"
| "wk_step fopen (Inited ok) s w =
     (case wk_frames w of
        Launch qa c name param # fs \<Rightarrow>
          if ok then do {
            (r, s1) \<leftarrow> context_new_ok c name param s;
            s2 \<leftarrow> launch_result r fs s1;
            Some (s2, w\<lparr>wk_frames := fs\<rparr>)
          }
          else do { s1 \<leftarrow> context_new_fail c name s; Some (s1, w\<lparr>wk_frames := fs\<rparr>) }
      | _ \<Rightarrow> None)"

text \<open>Where the control flow of the worker allows a piece, and what the service owes.\<close>

fun wk_legal :: "wk_event \<Rightarrow> node \<Rightarrow> worker \<Rightarrow> bool" where
  "wk_legal Poll s w \<longleftrightarrow> wk_phase w = Working \<and> wk_queue w = None \<and> wk_frames w = []"
| "wk_legal Grab s w \<longleftrightarrow> wk_phase w = Working \<and> wk_queue w \<noteq> None \<and> wk_frames w = []"
| "wk_legal Round s w \<longleftrightarrow> (case wk_frames w of [Serve qa c i n None] \<Rightarrow> i < n | _ \<Rightarrow> False)"
| "wk_legal (Return keep) s w \<longleftrightarrow> (case wk_frames w of [Serve qa c i n (Some m)] \<Rightarrow> True | _ \<Rightarrow> False)"
| "wk_legal Finish s w \<longleftrightarrow> (case wk_frames w of [Serve qa c i n None] \<Rightarrow> n \<le> i | _ \<Rightarrow> False)"
| "wk_legal (Call a) s w \<longleftrightarrow> (case running (wk_frames w) of None \<Rightarrow> False | Some c \<Rightarrow> call_pre c a s)"
| "wk_legal (Begin md inst name param) s w \<longleftrightarrow> running (wk_frames w) \<noteq> None \<and> handle_new s"
| "wk_legal (Inited ok) s w \<longleftrightarrow> (case wk_frames w of Launch _ _ _ _ # fs \<Rightarrow> running fs \<noteq> None | _ \<Rightarrow> False)"

section \<open>The invariant of a worker\<close>

text \<open>
  One worker beside the others, which hold the queues \<open>H\<close>, launch the queues \<open>L\<close> and use the contexts \<open>ex\<close>: what
  it holds and uses itself, and that each of its frames belongs to a live context with its queue.
\<close>

definition wk_held :: "worker \<Rightarrow> nat list" where
  "wk_held w = (case wk_queue w of None \<Rightarrow> [] | Some a \<Rightarrow> [a]) @ map fr_queue (wk_frames w)"

definition wk_launching :: "worker \<Rightarrow> nat set" where
  "wk_launching w = set (map fr_queue (filter is_Launch (wk_frames w)))"

definition wk_uses :: "worker \<Rightarrow> nat \<Rightarrow> nat" where
  "wk_uses w c = count_list (map fr_ctx (wk_frames w)) c"

definition frame_ok :: "node \<Rightarrow> frame \<Rightarrow> bool" where
  "frame_ok s f \<longleftrightarrow> (case nd_ctx s (fr_ctx f) of None \<Rightarrow> False | Some x \<Rightarrow> cx_queue x = fr_queue f \<and> (is_Launch f \<or> cx_init x))"

definition wk_shape :: "worker \<Rightarrow> bool" where
  "wk_shape w \<longleftrightarrow> (wk_frames w \<noteq> [] \<longrightarrow> wk_phase w = Working \<and> wk_queue w = None) \<and> (wk_phase w \<noteq> Working \<longrightarrow> wk_queue w = None)"

definition wk_inv :: "nat set \<Rightarrow> nat set \<Rightarrow> (nat \<Rightarrow> nat) \<Rightarrow> node \<Rightarrow> worker \<Rightarrow> bool" where
  "wk_inv H L ex s w \<longleftrightarrow>
     node_inv (set (wk_held w) \<union> H) (wk_launching w \<union> L) (\<lambda>c. wk_uses w c + ex c) s \<and> up s \<and> L \<subseteq> H \<and>
     distinct (wk_held w) \<and> set (wk_held w) \<inter> H = {} \<and> (\<forall>f \<in> set (wk_frames w). frame_ok s f) \<and> wk_shape w"

lemma frame_keeps:
  assumes "frame_ok s f" "keeps s s'" "node_inv H L ex s" "node_inv H' L' ex' s'" "0 < ex' (fr_ctx f)"
  shows "frame_ok s' f"
proof -
  obtain x where x: "nd_ctx s (fr_ctx f) = Some x" "cx_queue x = fr_queue f" "is_Launch f \<or> cx_init x"
    using assms(1) by (auto simp: frame_ok_def split: option.splits)
  have "fr_ctx f < nd_brk s" using node_invD(2)[OF assms(3)] x(1) unfolding fresh_def by (metis linorder_not_less option.distinct(1))
  moreover obtain y where y: "nd_ctx s' (fr_ctx f) = Some y" using ex_ctx[OF assms(4,5)] by blast
  ultimately show ?thesis using assms(2) x y unfolding keeps_def frame_ok_def by auto
qed

lemma wk_uses_frame: "f \<in> set (wk_frames w) \<Longrightarrow> 0 < wk_uses w (fr_ctx f)"
  unfolding wk_uses_def by (metis bot_nat_0.not_eq_extremum count_list_0_iff image_eqI list.set_map)

text \<open>A step that changes only the node keeps the worker's invariant.\<close>

lemma wk_inv_node:
  assumes w: "wk_inv H L ex s w" and n: "node_inv (set (wk_held w) \<union> H) (wk_launching w \<union> L) (\<lambda>c. wk_uses w c + ex c) s'" and k: "keeps s s'"
  shows "wk_inv H L ex s' w"
proof -
  have "frame_ok s' f" if f: "f \<in> set (wk_frames w)" for f
    by (rule frame_keeps[of s f s', OF _ k _ n]) (use w f wk_uses_frame[OF f] in \<open>auto simp: wk_inv_def\<close>)
  then show ?thesis using w n up_keeps[OF _ k] by (simp add: wk_inv_def)
qed

lemma wk_invI:
  assumes "node_inv (set (wk_held w) \<union> H) (wk_launching w \<union> L) (\<lambda>c. wk_uses w c + ex c) s" "up s" "L \<subseteq> H" "distinct (wk_held w)"
    "set (wk_held w) \<inter> H = {}" "\<And>f. f \<in> set (wk_frames w) \<Longrightarrow> frame_ok s f" "wk_shape w"
  shows "wk_inv H L ex s w"
  using assms by (simp add: wk_inv_def)

lemma wk_invD:
  assumes "wk_inv H L ex s w"
  shows "node_inv (set (wk_held w) \<union> H) (wk_launching w \<union> L) (\<lambda>c. wk_uses w c + ex c) s" "up s" "L \<subseteq> H" "distinct (wk_held w)"
    "set (wk_held w) \<inter> H = {}" "f \<in> set (wk_frames w) \<Longrightarrow> frame_ok s f" "wk_shape w"
  using assms by (auto simp: wk_inv_def)

lemmas wk_parts = wk_held_def wk_launching_def wk_uses_def

lemma wk_trigger_inv [simp]: "wk_inv H L ex s (wk_trigger a b w) = wk_inv H L ex s w"
  by (simp add: wk_inv_def wk_parts wk_trigger_def wk_shape_def)

text \<open>After a dispatch the worker has no frames and holds at most one queue.\<close>

lemma after_dispatch_inv:
  assumes "node_inv (H \<union> set_option nq) L ex s" "up s" "L \<subseteq> H" "set_option nq \<inter> H = {}"
  shows "wk_inv H L ex s (after_dispatch nq w)"
proof -
  have "set (wk_held (after_dispatch nq w)) = set_option nq" "distinct (wk_held (after_dispatch nq w))" "wk_launching (after_dispatch nq w) = {}"
    "wk_uses (after_dispatch nq w) = (\<lambda>_. 0)" "wk_frames (after_dispatch nq w) = []" "wk_shape (after_dispatch nq w)"
    by (cases nq; simp add: wk_parts after_dispatch_def wk_shape_def fun_eq_iff)+
  then show ?thesis using assms by (intro wk_invI) (simp_all add: Un_commute)
qed

lemma poll_inv:
  assumes w: "wk_inv H L ex s w" and l: "wk_legal Poll s w"
  shows "\<exists>s' w'. wk_step fopen Poll s w = Some (s', w') \<and> wk_inv H L ex s' w' \<and> keeps s s'"
proof -
  have e: "wk_held w = []" "wk_launching w = {}" "wk_uses w = (\<lambda>_. 0)" using l by (auto simp: wk_parts)
  obtain q s' where q: "skynet_globalmq_pop s = Some (q, s')" "node_inv (H \<union> set_option q) L ex s'" "quiet s s'" "set_option q \<inter> H = {}"
    using gpop_ok[of H L ex s] wk_invD(1)[OF w] unfolding e by auto
  have "w\<lparr>wk_queue := q, wk_phase := (if q = None then Napping else Working)\<rparr> = after_dispatch q w" using l by (simp add: after_dispatch_def)
  then show ?thesis
    using q(1) after_dispatch_inv[OF q(2) up_keeps[OF wk_invD(2)[OF w] quiet_keeps[OF q(3)]] wk_invD(3)[OF w] q(4)] quiet_keeps[OF q(3)] by simp
qed

lemma serving_invI:
  assumes "node_inv (insert qa H) L (ex(c := ex c + 1)) s" "serves s c qa" "qa \<notin> H" "up s" "L \<subseteq> H" "wk_queue w = None" "wk_phase w = Working"
    "wk_frames w = [Serve qa c i n m]"
  shows "wk_inv H L ex s w"
proof -
  have e: "wk_held w = [qa]" "wk_launching w = {}" "(\<lambda>d. wk_uses w d + ex d) = ex(c := ex c + 1)" "wk_shape w"
    using assms(6-8) by (auto simp: wk_parts wk_shape_def fun_eq_iff)
  have "frame_ok s (Serve qa c i n m)" using assms(2) by (auto simp: frame_ok_def serves_def)
  then show ?thesis using assms by (intro wk_invI) (simp_all add: e)
qed

lemma grab_inv:
  assumes w: "wk_inv H L ex s w" and l: "wk_legal Grab s w"
  shows "\<exists>s' w'. wk_step fopen Grab s w = Some (s', w') \<and> wk_inv H L ex s' w' \<and> keeps s s'"
proof -
  obtain qa where qa: "wk_queue w = Some qa" "wk_frames w = []" using l by auto
  have e: "wk_held w = [qa]" "wk_launching w = {}" "wk_uses w = (\<lambda>_. 0)" using qa by (auto simp: wk_parts)
  have inv: "node_inv (insert qa H) L ex s" and nq: "qa \<notin> H" "qa \<notin> L" and u: "up s" using w by (auto simp: wk_inv_def e)
  have H: "insert qa H - {qa} = H" using nq by auto
  obtain r nq s' where g: "dispatch_grab qa s = Some (r, nq, s')" "keeps s s'"
    "case r of None \<Rightarrow> node_inv (H \<union> set_option nq) L ex s' \<and> set_option nq \<inter> H = {}
     | Some c \<Rightarrow> nq = Some qa \<and> node_inv (insert qa H) L (ex(c := ex c + 1)) s' \<and> serves s' c qa"
    using dispatch_grab_ok[OF inv _ nq(2)] u unfolding H up_def by auto
  note u' = up_keeps[OF u g(2)]
  show ?thesis
  proof (cases r)
    case None
    then show ?thesis using g qa after_dispatch_inv[of H nq L ex s' w] u' wk_invD(3)[OF w] by simp
  next
    case (Some c)
    then have "wk_inv H L ex s' (w\<lparr>wk_queue := None, wk_frames := [Serve qa c 0 1 None]\<rparr>)"
      by (intro serving_invI[OF _ _ nq(1) u' wk_invD(3)[OF w]]) (use g(3) l in auto)
    then show ?thesis using g Some qa by simp
  qed
qed

text \<open>A worker that serves a context: what its invariant says.\<close>

lemma serving_inv:
  assumes w: "wk_inv H L ex s w" and f: "wk_frames w = [Serve qa c i n m]"
  shows "node_inv (insert qa H) L (ex(c := ex c + 1)) s" "serves s c qa" "qa \<notin> H" "up s" "L \<subseteq> H" "wk_queue w = None" "wk_phase w = Working"
    "insert qa H - {qa} = H" "(ex(c := ex c + 1))(c := (ex(c := ex c + 1)) c - 1) = ex"
proof -
  have sh: "wk_shape w" by (rule wk_invD(7)[OF w])
  then show q: "wk_queue w = None" "wk_phase w = Working" using f by (auto simp: wk_shape_def)
  have e: "wk_held w = [qa]" "wk_launching w = {}" "(\<lambda>d. wk_uses w d + ex d) = ex(c := ex c + 1)"
    using f q by (auto simp: wk_parts fun_eq_iff)
  show "node_inv (insert qa H) L (ex(c := ex c + 1)) s" "qa \<notin> H" "up s" "L \<subseteq> H" using w by (auto simp: wk_inv_def e)
  then show "insert qa H - {qa} = H" by auto
  have "frame_ok s (Serve qa c i n m)" using wk_invD(6)[OF w] f by simp
  then show "serves s c qa" by (auto simp: frame_ok_def serves_def split: option.splits)
qed auto

lemma round_inv:
  assumes w: "wk_inv H L ex s w" and l: "wk_legal Round s w"
  shows "\<exists>s' w'. wk_step fopen Round s w = Some (s', w') \<and> wk_inv H L ex s' w' \<and> keeps s s'"
proof -
  obtain qa c i n where f: "wk_frames w = [Serve qa c i n None]"
    using l by (auto split: list.splits frame.splits option.splits)
  note v = serving_inv[OF w f]
  obtain q where q: "mq_heap s qa = Some q" by (rule qinv_held[OF node_invD(1)[OF v(1)], of qa]) simp
  obtain r s' where r: "dispatch_round qa c (wk_weight w) i n s = Some (r, s')" "keeps s s'"
    "case r of Inl nq \<Rightarrow> node_inv (H \<union> set_option nq) L ex s' \<and> set_option nq \<inter> H = {} | Inr _ \<Rightarrow> node_inv (insert qa H) L (ex(c := ex c + 1)) s'"
    using dispatch_round_ok[OF v(1) _ v(2), of "wk_weight w" i n] unfolding v(8,9) by auto
  note u' = up_keeps[OF v(4) r(2)]
  show ?thesis
  proof (cases r)
    case (Inl nq)
    then show ?thesis using f q r after_dispatch_inv[of H nq L ex s' w] u' v(5) by simp
  next
    case (Inr nm)
    obtain n' m where nm: "nm = (n', m)" by (cases nm)
    have i': "node_inv (insert qa H) L (ex(c := ex c + 1)) s'" using r(3) Inr by simp
    have sv: "serves s' c qa" by (rule serves_keeps[OF v(2) r(2) v(1) i']) simp
    have "wk_inv H L ex s' (w\<lparr>wk_frames := [Serve qa c j n' m']\<rparr>)" for j m'
      by (rule serving_invI[OF i' sv v(3) u' v(5)]) (use v(6,7) in simp_all)
    then show ?thesis using f q r(1,2) Inr nm by (cases m) simp_all
  qed
qed

lemma return_inv:
  assumes w: "wk_inv H L ex s w" and l: "wk_legal (Return keep) s w"
  shows "\<exists>s' w'. wk_step fopen (Return keep) s w = Some (s', w') \<and> wk_inv H L ex s' w' \<and> keeps s s'"
proof -
  obtain qa c i n m where f: "wk_frames w = [Serve qa c i n (Some m)]"
    using l by (auto split: list.splits frame.splits option.splits)
  note v = serving_inv[OF w f]
  have k: "calm s (dispatch_done keep m s)" and i': "node_inv (insert qa H) L (ex(c := ex c + 1)) (dispatch_done keep m s)"
    using calm_fields(8) node_inv_fields(8)[OF v(1)] v(1) by (auto simp: dispatch_done_def)
  have sv: "serves (dispatch_done keep m s) c qa" by (rule serves_keeps[OF v(2) calm_keeps[OF k] v(1) i']) simp
  have "wk_inv H L ex (dispatch_done keep m s) (w\<lparr>wk_frames := [Serve qa c (Suc i) n None]\<rparr>)"
    by (rule serving_invI[OF i' sv v(3) up_keeps[OF v(4) calm_keeps[OF k]] v(5)]) (use v(6,7) in simp_all)
  then show ?thesis using f calm_keeps[OF k] by simp
qed

lemma finish_inv:
  assumes w: "wk_inv H L ex s w" and l: "wk_legal Finish s w"
  shows "\<exists>s' w'. wk_step fopen Finish s w = Some (s', w') \<and> wk_inv H L ex s' w' \<and> keeps s s'"
proof -
  obtain qa c i n where f: "wk_frames w = [Serve qa c i n None]"
    using l by (auto split: list.splits frame.splits option.splits)
  note v = serving_inv[OF w f]
  obtain nq s' where r: "dispatch_finish qa c s = Some (nq, s')" "keeps s s'" "node_inv (H \<union> set_option nq) L ex s'" "set_option nq \<inter> H = {}"
    using dispatch_finish_ok[OF v(1) _ v(2)] unfolding v(8,9) by auto
  show ?thesis using f r(1,2) after_dispatch_inv[OF r(3) up_keeps[OF v(4) r(2)] v(5) r(4)] by simp
qed

lemma running_uses:
  assumes "running (wk_frames w) = Some c"
  shows "0 < wk_uses w c"
proof -
  obtain f fs where "wk_frames w = f # fs" "fr_ctx f = c" using assms by (cases "wk_frames w" rule: running.cases) auto
  then show ?thesis using wk_uses_frame[of f w] by simp
qed

lemma call_inv:
  assumes w: "wk_inv H L ex s w" and l: "wk_legal (Call a) s w"
  shows "\<exists>s' w'. wk_step fopen (Call a) s w = Some (s', w') \<and> wk_inv H L ex s' w' \<and> keeps s s'"
proof -
  obtain c where c: "running (wk_frames w) = Some c" "call_pre c a s" using l by (auto split: option.splits)
  obtain s' where s': "do_call fopen c a s = Some s'" "node_inv (set (wk_held w) \<union> H) (wk_launching w \<union> L) (\<lambda>c. wk_uses w c + ex c) s'" "keeps s s'"
    using do_call_ok[OF wk_invD(1)[OF w] _ wk_invD(2)[OF w] c(2)] running_uses[OF c(1)] by auto
  then show ?thesis using c(1) wk_inv_node[OF w s'(2,3)] by simp
qed

lemma begin_inv:
  assumes w: "wk_inv H L ex s w" and l: "wk_legal (Begin md inst name param) s w"
  shows "\<exists>s' w'. wk_step fopen (Begin md inst name param) s w = Some (s', w') \<and> wk_inv H L ex s' w' \<and> keeps s s'"
proof -
  let ?c = "nd_brk s" and ?ex = "\<lambda>c. wk_uses w c + ex c"
  note inv = wk_invD(1)[OF w]
  obtain x s' where s': "context_new_begin md inst s = Some (?c, s')"
    "node_inv (insert (?c + 1) (set (wk_held w) \<union> H)) (insert (?c + 1) (wk_launching w \<union> L)) (?ex(?c := 1)) s'" "?ex ?c = 0"
    "nd_ctx s' = (nd_ctx s)(?c \<mapsto> x)" "cx_queue x = ?c + 1" "?c + 1 \<notin> set (wk_held w) \<union> H" "keeps s s'"
    using context_new_begin_ok[OF inv, of md inst] l by auto
  let ?w = "w\<lparr>wk_frames := Launch (?c + 1) ?c name param # wk_frames w\<rparr>"
  have sh: "wk_queue w = None" "wk_phase w = Working" using wk_invD(7)[OF w] l by (auto simp: wk_shape_def)
  have e: "wk_held ?w = (?c + 1) # wk_held w" "wk_launching ?w = insert (?c + 1) (wk_launching w)"
    "(\<lambda>d. wk_uses ?w d + ex d) = ?ex(?c := 1)" "wk_shape ?w"
    using sh s'(3) by (auto simp: wk_parts wk_shape_def fun_eq_iff)
  have "frame_ok s' f" if f: "f \<in> set (wk_frames ?w)" for f
  proof (cases "f \<in> set (wk_frames w)")
    case True
    then have "0 < wk_uses w (fr_ctx f)" by (rule wk_uses_frame)
    then have "0 < (?ex(?c := 1)) (fr_ctx f)" by simp
    then show ?thesis by (rule frame_keeps[OF wk_invD(6)[OF w True] s'(7) inv s'(2)])
  next
    case False
    then show ?thesis using f s'(4,5) by (auto simp: frame_ok_def)
  qed
  then have "wk_inv H L ex s' ?w"
    using s'(2,6) wk_invD(3,4,5)[OF w] up_keeps[OF wk_invD(2)[OF w] s'(7)] by (intro wk_invI) (simp_all add: e del: One_nat_def)
  then show ?thesis using s'(1,4,5,7) by simp
qed

lemma launch_result_ok:
  assumes inv: "node_inv H L ex s" and fs: "\<And>c. running fs = Some c \<Longrightarrow> 0 < ex c" and r: "\<And>i. r = Some i \<Longrightarrow> nd_ctx s i \<noteq> None"
  shows "\<exists>s'. launch_result r fs s = Some s' \<and> node_inv H L ex s' \<and> keeps s s'"
proof (cases "r = None \<or> running fs = None")
  case True
  then show ?thesis using inv by (auto simp: launch_result_def split: option.splits)
next
  case False
  then obtain i c y where ic: "r = Some i" "running fs = Some c" "nd_ctx s i = Some y" using r by auto
  then show ?thesis using result_ok[OF inv fs[OF ic(2)], of "id_to_hex (cx_handle y)"] by (auto simp: launch_result_def safe_def)
qed

lemma inited_inv:
  assumes w: "wk_inv H L ex s w" and l: "wk_legal (Inited ok) s w"
  shows "\<exists>s' w'. wk_step fopen (Inited ok) s w = Some (s', w') \<and> wk_inv H L ex s' w' \<and> keeps s s'"
proof -
  obtain qa c name param fs where f: "wk_frames w = Launch qa c name param # fs" "running fs \<noteq> None"
    using l by (auto split: list.splits frame.splits)
  let ?w = "w\<lparr>wk_frames := fs\<rparr>" and ?ex = "\<lambda>c. wk_uses w c + ex c" and ?ex' = "\<lambda>d. wk_uses (w\<lparr>wk_frames := fs\<rparr>) d + ex d"
  note inv = wk_invD(1)[OF w]
  have sh: "wk_queue w = None" "wk_phase w = Working" using wk_invD(7)[OF w] f(1) by (auto simp: wk_shape_def)
  have held: "wk_held w = qa # wk_held ?w" using f(1) sh by (simp add: wk_held_def)
  have nq: "qa \<notin> set (wk_held ?w)" "qa \<notin> H" "qa \<notin> L" using wk_invD(3,4,5)[OF w] by (auto simp: held)
  have fq: "qa \<notin> fr_queue ` set fs" using nq(1) by (simp add: wk_held_def)
  have e: "set (wk_held w) \<union> H - {qa} = set (wk_held ?w) \<union> H" "wk_launching w \<union> L - {qa} = wk_launching ?w \<union> L"
    "?ex(c := ?ex c - 1) = ?ex'" "0 < ?ex c"
    using nq fq f(1) by (auto simp: held wk_launching_def wk_uses_def fun_eq_iff)
  obtain x where x: "nd_ctx s c = Some x" "cx_queue x = qa" using wk_invD(6)[OF w, of "Launch qa c name param"] f(1)
    by (auto simp: frame_ok_def split: option.splits)
  have qH: "cx_queue x \<in> set (wk_held w) \<union> H" using x(2) held by simp
  have run: "0 < ?ex' d" if "running fs = Some d" for d using running_uses[of ?w d] that by simp
  have "\<exists>s'. wk_step fopen (Inited ok) s w = Some (s', ?w) \<and> node_inv (set (wk_held ?w) \<union> H) (wk_launching ?w \<union> L) ?ex' s' \<and> keeps s s'"
  proof (cases ok)
    case True
    obtain r s1 where r: "context_new_ok c name param s = Some (r, s1)" "node_inv (set (wk_held ?w) \<union> H) (wk_launching ?w \<union> L) ?ex' s1"
      "keeps s s1" "r \<noteq> None \<longrightarrow> r = Some c \<and> nd_ctx s1 c \<noteq> None"
      using context_new_ok_ok[OF inv e(4) x(1) qH, of name param, unfolded x(2) e(1-3)] by (elim exE conjE) (rule that)
    have "\<exists>s2. launch_result r fs s1 = Some s2 \<and> node_inv (set (wk_held ?w) \<union> H) (wk_launching ?w \<union> L) ?ex' s2 \<and> keeps s1 s2"
    proof (rule launch_result_ok[OF r(2)])
      show "0 < ?ex' d" if "running fs = Some d" for d by (rule run[OF that])
      show "nd_ctx s1 i \<noteq> None" if "r = Some i" for i using r(4) that by simp
    qed
    then obtain s2 where
      s2: "launch_result r fs s1 = Some s2" "node_inv (set (wk_held ?w) \<union> H) (wk_launching ?w \<union> L) ?ex' s2" "keeps s1 s2"
      by (elim exE conjE)
    show ?thesis using True f(1) r(1) s2 keeps_trans[OF r(3) s2(3)] by simp
  next
    case False
    have "nd_remote s \<noteq> None" using wk_invD(2)[OF w] by (simp add: up_def)
    from context_new_fail_ok[OF inv e(4) x(1) qH this, of name, unfolded x(2) e(1-3)] obtain s1 where "context_new_fail c name s = Some s1"
      "node_inv (set (wk_held ?w) \<union> H) (wk_launching ?w \<union> L) ?ex' s1" "keeps s s1" by (elim exE conjE)
    then show ?thesis using False f(1) by simp
  qed
  then obtain s' where s': "wk_step fopen (Inited ok) s w = Some (s', ?w)"
    "node_inv (set (wk_held ?w) \<union> H) (wk_launching ?w \<union> L) ?ex' s'" "keeps s s'" by blast
  have "frame_ok s' g" if g: "g \<in> set (wk_frames ?w)" for g
    by (rule frame_keeps[OF wk_invD(6)[OF w] s'(3) inv s'(2)]) (use g f(1) wk_uses_frame[OF g] in simp_all)
  moreover have "wk_shape ?w" using sh by (simp add: wk_shape_def)
  moreover have "distinct (wk_held ?w)" "set (wk_held ?w) \<inter> H = {}" using wk_invD(4,5)[OF w] by (simp_all add: held)
  ultimately have "wk_inv H L ex s' ?w"
    using s'(2) wk_invD(3)[OF w] up_keeps[OF wk_invD(2)[OF w] s'(3)] by (intro wk_invI)
  then show ?thesis using s'(1,3) by blast
qed

lemma wk_step_inv:
  assumes "wk_inv H L ex s w" "wk_legal e s w"
  shows "\<exists>s' w'. wk_step fopen e s w = Some (s', w') \<and> wk_inv H L ex s' w' \<and> keeps s s'"
  using assms by (cases e) (blast intro: poll_inv grab_inv round_inv return_inv finish_inv call_inv begin_inv inited_inv)+

section \<open>Threads\<close>

datatype run_event =
    Work nat wk_event
  | Nap nat
  | Wake nat
  | Time u64 "nat option"
  | Hup
  | Socket u32 skynet_message "nat option"
  | Check nat

definition wake :: "nat \<Rightarrow> node_run \<Rightarrow> node_run" where
  "wake i r = r\<lparr>rn_workers := (rn_workers r)[i := (rn_workers r ! i)\<lparr>wk_phase := Working\<rparr>], rn_sleep := rn_sleep r - 1\<rparr>"

text \<open>\<open>wakeup\<close>: the condition variable is signalled when enough workers sleep; \<open>j\<close> is the one that wakes up.\<close>

definition wakeup :: "int \<Rightarrow> nat option \<Rightarrow> node_run \<Rightarrow> node_run" where
  "wakeup busy j r =
     (if rn_sleep r \<ge> int (length (rn_workers r)) - busy then (case j of None \<Rightarrow> r | Some i \<Rightarrow> wake i r) else r)"

definition waiting :: "node_run \<Rightarrow> nat" where
  "waiting r = length (filter (\<lambda>w. wk_phase w = Waiting) (rn_workers r))"

text \<open>The end of the timer thread: no worker sleeps any more.\<close>

definition wake_all :: "node_run \<Rightarrow> node_run" where
  "wake_all r = r\<lparr>rn_quit := True, rn_sleep := rn_sleep r - int (waiting r),
     rn_workers := map (\<lambda>w. if wk_phase w = Waiting then w\<lparr>wk_phase := Working\<rparr> else w) (rn_workers r)\<rparr>"

definition signal_hup :: "node \<Rightarrow> node option" where
  "signal_hup s = do {
     logger \<leftarrow> skynet_handle_findname (nd_hs s) ''logger'';
     if logger \<noteq> 0 then do {
       (_, s') \<leftarrow> skynet_context_push logger
         \<lparr>m_source = 0, m_session = 0, m_data = None, m_sz = push_bit MESSAGE_TYPE_SHIFT (word_of_int PTYPE_SYSTEM)\<rparr> s;
       Some s'
     }
     else Some s
   }"

text \<open>One round of the timer thread: it ends when the last service has gone.\<close>

definition thread_timer :: "u64 \<Rightarrow> nat option \<Rightarrow> node_run \<Rightarrow> node_run option" where
  "thread_timer cp j r = do {
     s' \<leftarrow> node_updatetime cp [] (rn_node r);
     let r' = r\<lparr>rn_node := s'\<rparr>;
     if skynet_context_total s' = 0 then Some (wake_all r') else Some (wakeup (int (length (rn_workers r)) - 1) j r')
   }"

text \<open>A round of the socket thread in which \<open>skynet_socket_poll\<close> has a message for a service.\<close>

definition thread_socket :: "u32 \<Rightarrow> skynet_message \<Rightarrow> nat option \<Rightarrow> node_run \<Rightarrow> node_run option" where
  "thread_socket h m j r = do { (_, s') \<leftarrow> skynet_context_push h m (rn_node r); Some (wakeup 0 j (r\<lparr>rn_node := s'\<rparr>)) }"

text \<open>The monitor thread looks at one worker after the other.\<close>

definition thread_monitor :: "nat \<Rightarrow> node_run \<Rightarrow> node_run option" where
  "thread_monitor i r = do {
     let w = rn_workers r ! i;
     (sm, s') \<leftarrow> skynet_monitor_check (wk_monitor w) (rn_node r);
     Some (r\<lparr>rn_node := s', rn_workers := (rn_workers r)[i := w\<lparr>wk_monitor := sm\<rparr>]\<rparr>)
   }"

text \<open>A worker whose dispatch returned no queue sleeps, unless the node is ending.\<close>

definition worker_sleep :: "nat \<Rightarrow> node_run \<Rightarrow> node_run" where
  "worker_sleep i r =
     (if rn_quit r then r\<lparr>rn_workers := (rn_workers r)[i := (rn_workers r ! i)\<lparr>wk_phase := Working\<rparr>]\<rparr>
      else r\<lparr>rn_workers := (rn_workers r)[i := (rn_workers r ! i)\<lparr>wk_phase := Waiting\<rparr>], rn_sleep := rn_sleep r + 1\<rparr>)"

fun rn_step :: "(byte list \<Rightarrow> nat option) \<Rightarrow> run_event \<Rightarrow> node_run \<Rightarrow> node_run option" where
  "rn_step fopen (Work i e) r = do {
     (s', w') \<leftarrow> wk_step fopen e (rn_node r) (rn_workers r ! i);
     Some (r\<lparr>rn_node := s', rn_workers := (rn_workers r)[i := w']\<rparr>)
   }"
| "rn_step fopen (Nap i) r = Some (worker_sleep i r)"
| "rn_step fopen (Wake i) r = Some (wake i r)"
| "rn_step fopen (Time cp j) r = thread_timer cp j r"
| "rn_step fopen Hup r = do { s' \<leftarrow> signal_hup (rn_node r); Some (r\<lparr>rn_node := s'\<rparr>) }"
| "rn_step fopen (Socket h m j) r = thread_socket h m j r"
| "rn_step fopen (Check i) r = thread_monitor i r"

text \<open>A signal wakes a waiting worker if there is one.\<close>

definition signalled :: "nat option \<Rightarrow> node_run \<Rightarrow> bool" where
  "signalled j r \<longleftrightarrow>
     (case j of None \<Rightarrow> waiting r = 0 | Some i \<Rightarrow> i < length (rn_workers r) \<and> wk_phase (rn_workers r ! i) = Waiting)"

fun rn_legal :: "run_event \<Rightarrow> node_run \<Rightarrow> bool" where
  "rn_legal (Work i e) r \<longleftrightarrow>
     i < length (rn_workers r) \<and> wk_legal e (rn_node r) (rn_workers r ! i) \<and> (e = Poll \<or> e = Grab \<longrightarrow> \<not> rn_quit r)"
| "rn_legal (Nap i) r \<longleftrightarrow> i < length (rn_workers r) \<and> wk_phase (rn_workers r ! i) = Napping"
| "rn_legal (Wake i) r \<longleftrightarrow> i < length (rn_workers r) \<and> wk_phase (rn_workers r ! i) = Waiting"
| "rn_legal (Time cp j) r \<longleftrightarrow>
     (let p = tm_current_point (nd_timer (rn_node r)) in p \<le> cp \<longrightarrow> unat (cp - p) < 2 ^ 31) \<and> signalled j r"
| "rn_legal Hup r \<longleftrightarrow> True"
| "rn_legal (Socket h m j) r \<longleftrightarrow> signalled j r"
| "rn_legal (Check i) r \<longleftrightarrow> i < length (rn_workers r)"

inductive rn_reach :: "(byte list \<Rightarrow> nat option) \<Rightarrow> node_run \<Rightarrow> node_run \<Rightarrow> bool" for fopen r0 where
  start: "rn_reach fopen r0 r0"
| step: "rn_reach fopen r0 r \<Longrightarrow> rn_legal e r \<Longrightarrow> rn_step fopen e r = Some r' \<Longrightarrow> rn_reach fopen r0 r'"

section \<open>The invariant of a run\<close>

definition all_held :: "worker list \<Rightarrow> nat list" where
  "all_held ws = concat (map wk_held ws)"

definition all_launching :: "worker list \<Rightarrow> nat set" where
  "all_launching ws = \<Union> (wk_launching ` set ws)"

definition all_uses :: "worker list \<Rightarrow> nat \<Rightarrow> nat" where
  "all_uses ws c = sum_list (map (\<lambda>w. wk_uses w c) ws)"

definition wk_good :: "node \<Rightarrow> worker \<Rightarrow> bool" where
  "wk_good s w \<longleftrightarrow> (\<forall>f \<in> set (wk_frames w). frame_ok s f) \<and> wk_shape w"

definition ws_inv :: "worker list \<Rightarrow> node \<Rightarrow> bool" where
  "ws_inv ws s \<longleftrightarrow>
     node_inv (set (all_held ws)) (all_launching ws) (all_uses ws) s \<and> up s \<and> distinct (all_held ws) \<and> (\<forall>w \<in> set ws. wk_good s w)"

definition rn_inv :: "node_run \<Rightarrow> bool" where
  "rn_inv r \<longleftrightarrow> ws_inv (rn_workers r) (rn_node r) \<and> rn_sleep r = int (waiting r) \<and> (rn_quit r \<longrightarrow> waiting r = 0)"

lemma launching_held: "wk_launching w \<subseteq> set (wk_held w)"
  by (auto simp: wk_parts)

lemma all_launching_held: "all_launching ws \<subseteq> set (all_held ws)"
  using launching_held by (force simp: all_launching_def all_held_def)

lemma ws_inv_split:
  "ws_inv (A @ w # B) s \<longleftrightarrow>
     wk_inv (set (all_held (A @ B))) (all_launching (A @ B)) (all_uses (A @ B)) s w \<and> distinct (all_held (A @ B)) \<and> (\<forall>v \<in> set (A @ B). wk_good s v)"
proof -
  have h: "set (all_held (A @ w # B)) = set (wk_held w) \<union> set (all_held (A @ B))"
    "all_launching (A @ w # B) = wk_launching w \<union> all_launching (A @ B)"
    "all_uses (A @ w # B) = (\<lambda>c. wk_uses w c + all_uses (A @ B) c)"
    by (auto simp: all_held_def all_launching_def all_uses_def)
  have d: "distinct (all_held (A @ w # B)) \<longleftrightarrow>
      distinct (wk_held w) \<and> distinct (all_held (A @ B)) \<and> set (wk_held w) \<inter> set (all_held (A @ B)) = {}"
    unfolding all_held_def by (auto simp del: set_concat)
  show ?thesis
    unfolding ws_inv_def wk_inv_def h d wk_good_def using all_launching_held[of "A @ B"] by auto
qed

lemma all_uses_pos: "w \<in> set ws \<Longrightarrow> f \<in> set (wk_frames w) \<Longrightarrow> 0 < all_uses ws (fr_ctx f)"
  using wk_uses_frame[of f w] by (induction ws) (auto simp: all_uses_def)

lemma good_keeps:
  assumes "wk_good s w" "keeps s s'" "node_inv H L ex s" "node_inv H' L' ex' s'" "\<And>f. f \<in> set (wk_frames w) \<Longrightarrow> 0 < ex' (fr_ctx f)"
  shows "wk_good s' w"
  using assms(1) frame_keeps[OF _ assms(2-4)] assms(5) by (auto simp: wk_good_def)

text \<open>A step of one worker, or of the node alone, keeps the invariant of all.\<close>

lemma ws_inv_worker:
  assumes a: "ws_inv (A @ w # B) s" and w: "wk_inv (set (all_held (A @ B))) (all_launching (A @ B)) (all_uses (A @ B)) s' w'" and k: "keeps s s'"
  shows "ws_inv (A @ w' # B) s'"
proof -
  note p = a[unfolded ws_inv_split]
  have "wk_good s' v" if v: "v \<in> set (A @ B)" for v
  proof (rule good_keeps[OF _ k wk_invD(1) wk_invD(1)[OF w]])
    show "wk_good s v" using p v by blast
    show "wk_inv (set (all_held (A @ B))) (all_launching (A @ B)) (all_uses (A @ B)) s w" using p by blast
    show "0 < wk_uses w' (fr_ctx f) + all_uses (A @ B) (fr_ctx f)" if "f \<in> set (wk_frames v)" for f
      using all_uses_pos[OF v that] by simp
  qed
  then show ?thesis using p w unfolding ws_inv_split by blast
qed

lemma ws_inv_node:
  assumes a: "ws_inv ws s" and n: "node_inv (set (all_held ws)) (all_launching ws) (all_uses ws) s'" and k: "keeps s s'"
  shows "ws_inv ws s'"
proof -
  have i: "node_inv (set (all_held ws)) (all_launching ws) (all_uses ws) s" using a by (simp add: ws_inv_def)
  have "wk_good s' w" if w: "w \<in> set ws" for w
    by (rule good_keeps[OF _ k i n]) (use a w all_uses_pos[OF w] in \<open>auto simp: ws_inv_def\<close>)
  then show ?thesis using a n up_keeps[OF _ k] by (simp add: ws_inv_def)
qed

lemma ws_inv_cong:
  assumes "map wk_held ws' = map wk_held ws" "map wk_frames ws' = map wk_frames ws" "\<And>w. w \<in> set ws' \<Longrightarrow> wk_shape w"
  shows "ws_inv ws s \<Longrightarrow> ws_inv ws' s"
proof -
  assume i: "ws_inv ws s"
  have "map wk_launching ws' = map wk_launching ws" "\<And>c. map (\<lambda>w. wk_uses w c) ws' = map (\<lambda>w. wk_uses w c) ws"
    using assms(2) unfolding wk_launching_def wk_uses_def by (induction ws' ws rule: list_induct2') auto
  then have e: "all_held ws' = all_held ws" "all_launching ws' = all_launching ws" "all_uses ws' = all_uses ws"
    using assms(1) by (auto simp: all_held_def all_launching_def all_uses_def fun_eq_iff simp flip: set_map)
  have "wk_frames ` set ws' = wk_frames ` set ws" using assms(2) by (metis list.set_map)
  then have "\<forall>w \<in> set ws'. wk_good s w" using i assms(3) unfolding ws_inv_def wk_good_def by (metis image_iff)
  then show ?thesis using i by (simp add: ws_inv_def e)
qed

text \<open>A worker that changes its phase only.\<close>

lemma phase_inv:
  assumes "ws_inv ws s" "i < length ws" "wk_shape (ws ! i)" "wk_queue (ws ! i) = None" "wk_frames (ws ! i) = []"
  shows "ws_inv (ws[i := (ws ! i)\<lparr>wk_phase := p\<rparr>]) s"
proof (rule ws_inv_cong[OF _ _ _ assms(1)])
  let ?w = "(ws ! i)\<lparr>wk_phase := p\<rparr>"
  have "wk_held ?w = wk_held (ws ! i)" by (simp add: wk_held_def)
  then show "map wk_held (ws[i := ?w]) = map wk_held ws" by (simp add: map_update list_update_same_conv assms(2))
  show "map wk_frames (ws[i := ?w]) = map wk_frames ws" by (simp add: map_update list_update_same_conv assms(2))
  fix w assume "w \<in> set (ws[i := ?w])"
  then have "w \<in> set ws \<or> w = ?w" using set_update_subset_insert by fastforce
  then show "wk_shape w" using assms(1,4,5) by (auto simp: ws_inv_def wk_good_def wk_shape_def)
qed

lemma waiting_upd:
  assumes "i < length (rn_workers r)"
  shows "waiting (r\<lparr>rn_workers := (rn_workers r)[i := w]\<rparr>) + of_bool (wk_phase (rn_workers r ! i) = Waiting) = waiting r + of_bool (wk_phase w = Waiting)"
proof -
  let ?ws = "rn_workers r"
  have "?ws = take i ?ws @ ?ws ! i # drop (Suc i) ?ws" by (rule id_take_nth_drop[OF assms])
  then have "waiting r = length (filter (\<lambda>w. wk_phase w = Waiting) (take i ?ws @ ?ws ! i # drop (Suc i) ?ws))" by (simp add: waiting_def)
  moreover have "(?ws)[i := w] = take i ?ws @ w # drop (Suc i) ?ws" by (rule upd_conv_take_nth_drop[OF assms])
  ultimately show ?thesis by (simp add: waiting_def)
qed

lemma wake_inv:
  assumes r: "rn_inv r" and i: "i < length (rn_workers r)" "wk_phase (rn_workers r ! i) = Waiting"
  shows "rn_inv (wake i r)" "waiting r = Suc (waiting (wake i r))"
proof -
  have s: "wk_shape (rn_workers r ! i)" using r i(1) by (auto simp: rn_inv_def ws_inv_def wk_good_def)
  then have e: "wk_queue (rn_workers r ! i) = None" "wk_frames (rn_workers r ! i) = []" using i(2) by (auto simp: wk_shape_def)
  show w: "waiting r = Suc (waiting (wake i r))"
    using waiting_upd[OF i(1), of "(rn_workers r ! i)\<lparr>wk_phase := Working\<rparr>"] i(2) by (simp add: wake_def waiting_def)
  show "rn_inv (wake i r)" using r w phase_inv[OF _ i(1) s e, of _ Working] by (auto simp: rn_inv_def wake_def)
qed

lemma wakeup_inv:
  assumes "rn_inv r" "signalled j r"
  shows "rn_inv (wakeup busy j r)"
  using assms wake_inv(1) by (auto simp: wakeup_def signalled_def split: option.splits)

lemma wake_all_inv:
  assumes "rn_inv r"
  shows "rn_inv (wake_all r)" "waiting (wake_all r) = 0"
proof -
  show z: "waiting (wake_all r) = 0" by (auto simp: waiting_def wake_all_def filter_empty_conv)
  let ?f = "\<lambda>w. if wk_phase w = Waiting then w\<lparr>wk_phase := Working\<rparr> else w"
  have "ws_inv (map ?f (rn_workers r)) (rn_node r)"
  proof (rule ws_inv_cong[of _ "rn_workers r"])
    show "map wk_held (map ?f (rn_workers r)) = map wk_held (rn_workers r)" by (simp add: wk_held_def)
    show "map wk_frames (map ?f (rn_workers r)) = map wk_frames (rn_workers r)" by simp
    show "ws_inv (rn_workers r) (rn_node r)" using assms by (simp add: rn_inv_def)
    show "wk_shape w" if "w \<in> set (map ?f (rn_workers r))" for w
      using that assms by (auto simp: rn_inv_def ws_inv_def wk_good_def wk_shape_def split: if_splits)
  qed
  then show "rn_inv (wake_all r)" using z assms by (auto simp: rn_inv_def wake_all_def)
qed

lemma rn_inv_node:
  assumes "rn_inv r" "node_inv (set (all_held (rn_workers r))) (all_launching (rn_workers r)) (all_uses (rn_workers r)) s'" "keeps (rn_node r) s'"
  shows "rn_inv (r\<lparr>rn_node := s'\<rparr>)"
  using assms ws_inv_node[OF _ assms(2,3)] by (simp add: rn_inv_def waiting_def)

lemma signal_hup_ok:
  assumes inv: "node_inv H L ex s"
  shows "\<exists>s'. signal_hup s = Some s' \<and> node_inv H L ex s' \<and> keeps s s'"
proof -
  obtain h where "skynet_handle_findname (nd_hs s) ''logger'' = Some h" using findname_some[OF inv] by blast
  then show ?thesis
    using inv push_calm[OF inv, of h "\<lparr>m_source = 0, m_session = 0, m_data = None, m_sz = push_bit MESSAGE_TYPE_SHIFT (word_of_int PTYPE_SYSTEM)\<rparr>"]
    by (auto simp: signal_hup_def intro: calm_keeps)
qed

lemma wk_legal_working:
  assumes "wk_shape w" "wk_legal e s w"
  shows "wk_phase w = Working"
proof (cases "wk_frames w = []")
  case True
  then show ?thesis using assms(2) by (cases e) auto
next
  case False
  then show ?thesis using assms(1) by (simp add: wk_shape_def)
qed

lemma wk_step_phase:
  assumes "wk_step fopen e s w = Some (s', w')" "wk_phase w \<noteq> Waiting"
  shows "wk_phase w' \<noteq> Waiting"
proof (cases e)
  case Round
  obtain qa c i n where f: "wk_frames w = [Serve qa c i n None]"
    using assms(1) Round by (auto split: list.split_asm frame.split_asm option.split_asm)
  obtain q t r where "mq_heap s qa = Some q" "dispatch_round qa c (wk_weight w) i n s = Some (r, t)"
    using assms(1) Round f by (auto simp: bind_eq_Some_conv)
  then show ?thesis
    using assms Round f by (cases r) (auto simp: after_dispatch_def wk_trigger_def split: option.split_asm if_split_asm)
qed (use assms in \<open>auto simp: after_dispatch_def wk_trigger_def bind_eq_Some_conv split: option.split_asm list.split_asm frame.split_asm if_split_asm\<close>)

lemma work_inv:
  assumes r: "rn_inv r" and l: "rn_legal (Work i e) r"
  shows "\<exists>r'. rn_step fopen (Work i e) r = Some r' \<and> rn_inv r'"
proof -
  let ?ws = "rn_workers r"
  let ?A = "take i ?ws" and ?B = "drop (Suc i) ?ws" and ?w = "?ws ! i"
  have i: "i < length ?ws" and lw: "wk_legal e (rn_node r) ?w" using l by auto
  have ws: "?ws = ?A @ ?w # ?B" by (rule id_take_nth_drop[OF i])
  have a: "ws_inv (?A @ ?w # ?B) (rn_node r)" using r ws by (simp add: rn_inv_def)
  obtain s' w' where s': "wk_step fopen e (rn_node r) ?w = Some (s', w')"
    "wk_inv (set (all_held (?A @ ?B))) (all_launching (?A @ ?B)) (all_uses (?A @ ?B)) s' w'" "keeps (rn_node r) s'"
    using wk_step_inv[OF _ lw] a unfolding ws_inv_split by blast
  have "ws_inv (?ws[i := w']) s'" using ws_inv_worker[OF a s'(2,3)] upd_conv_take_nth_drop[OF i] by simp
  moreover have p: "wk_phase ?w \<noteq> Waiting"
  proof -
    have "wk_shape ?w" using r i by (auto simp: rn_inv_def ws_inv_def wk_good_def)
    with wk_legal_working[OF this lw] show ?thesis by simp
  qed
  moreover have "wk_phase w' \<noteq> Waiting" by (rule wk_step_phase[OF s'(1) p])
  ultimately show ?thesis
    using s'(1) r waiting_upd[OF i, of w'] by (auto simp: rn_inv_def waiting_def)
qed

lemma rn_step_inv:
  assumes r: "rn_inv r" and l: "rn_legal e r"
  shows "\<exists>r'. rn_step fopen e r = Some r' \<and> rn_inv r'"
proof (cases e)
  case (Work i ev)
  then show ?thesis using work_inv[OF r, of i ev] l by blast
next
  case (Nap i)
  then have i: "i < length (rn_workers r)" "wk_phase (rn_workers r ! i) = Napping" using l by simp_all
  have s: "wk_shape (rn_workers r ! i)" using r i(1) by (auto simp: rn_inv_def ws_inv_def wk_good_def)
  then have e: "wk_queue (rn_workers r ! i) = None" "wk_frames (rn_workers r ! i) = []" using i(2) by (auto simp: wk_shape_def)
  have ws: "ws_inv (rn_workers r) (rn_node r)" using r by (simp add: rn_inv_def)
  show ?thesis
    using r phase_inv[OF ws i(1) s e] waiting_upd[OF i(1), of "(rn_workers r ! i)\<lparr>wk_phase := Working\<rparr>"]
      waiting_upd[OF i(1), of "(rn_workers r ! i)\<lparr>wk_phase := Waiting\<rparr>"] i(2)
    by (simp add: Nap worker_sleep_def rn_inv_def waiting_def del: length_0_conv)
next
  case (Wake i)
  then show ?thesis using wake_inv(1)[OF r, of i] l by simp
next
  case (Time cp j)
  let ?ws = "rn_workers r"
  have i: "node_inv (set (all_held ?ws)) (all_launching ?ws) (all_uses ?ws) (rn_node r)" "timed (rn_node r)"
    using r by (auto simp: rn_inv_def ws_inv_def up_def)
  obtain s' where s': "node_updatetime cp [] (rn_node r) = Some s'" "node_inv (set (all_held ?ws)) (all_launching ?ws) (all_uses ?ws) s'"
    "keeps (rn_node r) s'" using updatetime_ok[OF i, of cp] l Time by (auto simp: Let_def)
  note r' = rn_inv_node[OF r s'(2,3)]
  have "signalled j (r\<lparr>rn_node := s'\<rparr>)" using l Time by (simp add: signalled_def waiting_def split: option.splits)
  then show ?thesis using Time s'(1) wake_all_inv(1)[OF r'] wakeup_inv[OF r'] by (simp add: thread_timer_def Let_def)
next
  case Hup
  let ?ws = "rn_workers r"
  have i: "node_inv (set (all_held ?ws)) (all_launching ?ws) (all_uses ?ws) (rn_node r)" using r by (auto simp: rn_inv_def ws_inv_def)
  obtain s' where s': "signal_hup (rn_node r) = Some s'" "node_inv (set (all_held ?ws)) (all_launching ?ws) (all_uses ?ws) s'"
    "keeps (rn_node r) s'" using signal_hup_ok[OF i] by blast
  show ?thesis using Hup s'(1) rn_inv_node[OF r s'(2,3)] by simp
next
  case (Socket h m j)
  let ?ws = "rn_workers r"
  have i: "node_inv (set (all_held ?ws)) (all_launching ?ws) (all_uses ?ws) (rn_node r)" using r by (auto simp: rn_inv_def ws_inv_def)
  obtain v s' where s': "skynet_context_push h m (rn_node r) = Some (v, s')" "node_inv (set (all_held ?ws)) (all_launching ?ws) (all_uses ?ws) s'"
    "calm (rn_node r) s'" using push_calm[OF i] by blast
  have "signalled j (r\<lparr>rn_node := s'\<rparr>)" using l Socket by (simp add: signalled_def waiting_def split: option.splits)
  then show ?thesis using Socket s'(1) wakeup_inv[OF rn_inv_node[OF r s'(2) calm_keeps[OF s'(3)]]] by (simp add: thread_socket_def)
next
  case (Check i)
  let ?ws = "rn_workers r"
  have n: "node_inv (set (all_held ?ws)) (all_launching ?ws) (all_uses ?ws) (rn_node r)" using r by (auto simp: rn_inv_def ws_inv_def)
  obtain sm s' where s': "skynet_monitor_check (wk_monitor (?ws ! i)) (rn_node r) = Some (sm, s')"
    "node_inv (set (all_held ?ws)) (all_launching ?ws) (all_uses ?ws) s'" "keeps (rn_node r) s'"
    using monitor_check_ok[OF n, of "wk_monitor (?ws ! i)"] by (auto simp: safe_def)
  let ?w = "(?ws ! i)\<lparr>wk_monitor := sm\<rparr>"
  have il: "i < length ?ws" using l Check by simp
  note r' = rn_inv_node[OF r s'(2,3)]
  have "ws_inv (?ws[i := ?w]) s'"
  proof (rule ws_inv_cong[of _ ?ws])
    show "ws_inv ?ws s'" using r' by (simp add: rn_inv_def)
    show "map wk_held (?ws[i := ?w]) = map wk_held ?ws" by (simp add: map_update list_update_same_conv il wk_held_def)
    show "map wk_frames (?ws[i := ?w]) = map wk_frames ?ws" by (simp add: map_update list_update_same_conv il)
    show "wk_shape w" if "w \<in> set (?ws[i := ?w])" for w
      using that r il set_update_subset_insert[of ?ws i ?w] by (fastforce simp: rn_inv_def ws_inv_def wk_good_def wk_shape_def)
  qed
  then show ?thesis using Check s'(1) r' waiting_upd[OF il, of ?w] by (simp add: thread_monitor_def rn_inv_def waiting_def del: length_0_conv)
qed

lemma rn_reach_inv: "rn_reach fopen r0 r \<Longrightarrow> rn_inv r0 \<Longrightarrow> rn_inv r"
proof (induction rule: rn_reach.induct)
  case (step r e r')
  then show ?case using rn_step_inv[OF step.IH[OF step.prems] step.hyps(2), of fopen] by auto
qed

end
