(* ===== verification/Node_Boot.thy ===== *)
theory Node_Boot
  imports Node_Run
begin

text \<open>
  Starting a node: the initialisation of its parts and the first services of \<open>skynet_start\<close> in
  \<open>skynet-src/skynet_start.c\<close>, up to the threads. Finding a module, creating an instance and what its
  \<open>init\<close> does are parameters.
\<close>

section \<open>Starting\<close>

text \<open>The static variables before anything has run.\<close>

definition node_statics :: node where
  "node_statics = \<lparr>mq_heap = (\<lambda>_. None), g_head = None, g_tail = None, nd_ctx = (\<lambda>_. None),
     nd_hs = skynet_handle_init 0, nd_total = 0, nd_monitor_exit = 0, nd_harbor = - 1, nd_remote = None, nd_logger = 0,
     nd_env = (\<lambda>_. None), nd_timer = timer_create_timer, nd_data = (\<lambda>_. None), nd_brk = 0, nd_out = []\<rparr>"

definition node_init :: "u32 \<Rightarrow> u32 \<Rightarrow> u32 \<Rightarrow> u64 \<Rightarrow> node" where
  "node_init harbor sec cs cp =
     skynet_mq_init (skynet_harbor_init harbor node_statics\<lparr>nd_hs := skynet_handle_init harbor, nd_timer := skynet_timer_init sec cs cp\<rparr>)"

text \<open>\<open>bootstrap\<close>: the command line has a module name and one word of arguments. The result says whether it started.\<close>

definition bootstrap ::
    "(byte list \<Rightarrow> nat option) \<Rightarrow> (nat \<Rightarrow> nat option) \<Rightarrow> (nat \<Rightarrow> byte list option \<Rightarrow> node \<Rightarrow> (int \<times> node) option) \<Rightarrow>
     byte list \<Rightarrow> node \<Rightarrow> (bool \<times> node) option" where
  "bootstrap query create init cmdline s = do {
     (name, r1) \<leftarrow> scan_token cmdline;
     (args, _) \<leftarrow> scan_token r1;
     (ctx, s1) \<leftarrow> skynet_context_new query create init name (Some args) s;
     if ctx = None then do {
       s2 \<leftarrow> skynet_error None (str ''Bootstrap error : '' @ cmdline @ [10]) s1;
       Some (False, s2)
     }
     else Some (True, s1)
   }"

text \<open>\<open>skynet_start\<close> up to the threads; \<open>False\<close> is \<open>exit(1)\<close>.\<close>

definition skynet_start ::
    "(byte list \<Rightarrow> nat option) \<Rightarrow> (nat \<Rightarrow> nat option) \<Rightarrow> (nat \<Rightarrow> byte list option \<Rightarrow> node \<Rightarrow> (int \<times> node) option) \<Rightarrow>
     u32 \<Rightarrow> u32 \<Rightarrow> u32 \<Rightarrow> u64 \<Rightarrow> byte list \<Rightarrow> byte list option \<Rightarrow> byte list \<Rightarrow> (bool \<times> node) option" where
  "skynet_start query create init harbor sec cs cp logservice logger boot = do {
     (ctx, s1) \<leftarrow> skynet_context_new query create init logservice logger (node_init harbor sec cs cp);
     if ctx = None then Some (False, s1) else bootstrap query create init boot s1
   }"

section \<open>A started node\<close>

definition ready :: "node \<Rightarrow> bool" where
  "ready s \<longleftrightarrow> node_inv {} {} (\<lambda>_. 0) s \<and> up s"

lemma ready_run: "ready s \<Longrightarrow> rn_inv (start_run n s)"
proof -
  assume s: "ready s"
  have w: "wk_held (new_worker i) = []" "wk_launching (new_worker i) = {}" "wk_uses (new_worker i) c = 0" "wk_good s (new_worker i)"
    "wk_phase (new_worker i) = Working" for i c
    by (simp_all add: wk_parts new_worker_def wk_good_def wk_shape_def)
  have "all_held (map new_worker [0..<n]) = []" "all_launching (map new_worker [0..<n]) = {}" "all_uses (map new_worker [0..<n]) = (\<lambda>_. 0)"
    by (auto simp: all_held_def all_launching_def all_uses_def w comp_def fun_eq_iff)
  then show ?thesis using s by (auto simp: rn_inv_def ws_inv_def start_run_def ready_def w waiting_def filter_empty_conv)
qed

lemma node_init_fields:
  "nd_ctx (node_init harbor sec cs cp) = (\<lambda>_. None)" "nd_hs (node_init harbor sec cs cp) = skynet_handle_init harbor"
  "nd_remote (node_init harbor sec cs cp) = None" "nd_harbor (node_init harbor sec cs cp) = push_bit 24 harbor"
  "mq_heap (node_init harbor sec cs cp) = (\<lambda>_. None)" "nd_timer (node_init harbor sec cs cp) = skynet_timer_init sec cs cp"
  "g_head (node_init harbor sec cs cp) = None" "g_tail (node_init harbor sec cs cp) = None"
  by (simp_all add: node_init_def node_statics_def skynet_mq_init_def skynet_harbor_init_def HANDLE_REMOTE_SHIFT_def)

lemma push24_not_ones: "push_bit 24 h \<noteq> (- 1 :: u32)"
proof
  assume "push_bit 24 h = (- 1 :: u32)"
  then have "bit (push_bit 24 h) 0 = bit (- 1 :: u32) 0" by simp
  then show False by (simp add: bit_simps)
qed

lemma drop_push24: "drop_bit 24 (push_bit 24 (h AND 0xff)) = (h AND 0xff :: u32)"
proof -
  have m: "(0xff :: u32) = mask 8" by (simp add: mask_eq_exp_minus_1)
  show ?thesis unfolding m by (rule bit_word_eqI) (auto simp: bit_simps)
qed

lemma node_init_inv:
  assumes "harbor AND 0xff \<noteq> 0"
  shows "node_inv {} {} (\<lambda>_. 0) (node_init harbor sec cs cp)" "timed (node_init harbor sec cs cp)"
proof -
  let ?s = "node_init harbor sec cs cp"
  have sg: "mq_sig ?s = (\<lambda>_. None)" by (simp add: mq_sig_def node_init_fields fun_eq_iff)
  have r: "refs (\<lambda>_. 0) ?s = (\<lambda>_. 0)" by (simp add: refs_def node_init_fields fun_eq_iff)
  have "core_inv {} (\<lambda>_. 0) ?s" by (rule core_invI) (simp_all add: node_init_fields r push24_not_ones)
  moreover have "fresh ?s" by (simp add: fresh_def node_init_fields sg)
  moreover have "handles_ok ?s"
    using assms drop_push24[of harbor] by (simp add: handles_ok_def node_init_fields sg skynet_handle_init_def HANDLE_REMOTE_SHIFT_def)
  moreover have "qinv {} ?s"
    by (rule qinvI[of _ _ "[]"])
      (simp add: sched_inv_def gq_rep_def mq_ok_def sched_view_inv_def mq_view_def held_once_def flags_ok_def hold_of_def node_init_fields)
  ultimately show "node_inv {} {} (\<lambda>_. 0) ?s" by (simp add: node_inv_def)
  show "timed ?s" unfolding timed_def node_init_fields using settled_init by blast
qed

text \<open>A whole launch on a node that nobody else uses, for an \<open>init\<close> that keeps the invariant.\<close>

lemma context_new_run:
  assumes inv: "node_inv {} {} (\<lambda>_. 0) s" and room: "handle_new s" and q: "query name = Some md" "create md = Some inst"
    and init: "\<And>s1 x. node_inv {nd_brk s + 1} {nd_brk s + 1} ((\<lambda>_. 0)(nd_brk s := 1)) s1 \<Longrightarrow> nd_ctx s1 (nd_brk s) = Some x \<Longrightarrow> keeps s s1 \<Longrightarrow>
      nd_remote s1 = nd_remote s \<Longrightarrow>
      \<exists>s2. init (nd_brk s) param s1 = Some (0, s2) \<and> node_inv {nd_brk s + 1} {nd_brk s + 1} ((\<lambda>_. 0)(nd_brk s := 1)) s2 \<and> keeps s1 s2 \<and> P s2"
    and P: "\<And>t u. P t \<Longrightarrow> keeps t u \<Longrightarrow> P u"
  shows "\<exists>r s'. skynet_context_new query create init name param s = Some (r, s') \<and> node_inv {} {} (\<lambda>_. 0) s' \<and> keeps s s' \<and> P s'"
proof -
  let ?c = "nd_brk s" and ?ex = "(\<lambda>_. 0)(nd_brk s := 1 :: nat)"
  obtain x s1 where s1: "context_new_begin md inst s = Some (?c, s1)" "node_inv {?c + 1} {?c + 1} ?ex s1"
    "nd_ctx s1 = (nd_ctx s)(?c \<mapsto> x)" "cx_queue x = ?c + 1" "nd_remote s1 = nd_remote s" "keeps s s1"
    using context_new_begin_ok[OF inv room, of md inst] by auto
  have x1: "nd_ctx s1 ?c = Some x" using s1(3) by simp
  obtain s2 where s2: "init ?c param s1 = Some (0, s2)" "node_inv {?c + 1} {?c + 1} ?ex s2" "keeps s1 s2" "P s2"
    using init[OF s1(2) x1 s1(6,5)] by blast
  obtain y where y: "nd_ctx s2 ?c = Some y" using ex_ctx[OF s2(2), of ?c] by auto
  have "?c < nd_brk s1" using node_invD(2)[OF s1(2)] x1 unfolding fresh_def by (metis linorder_not_less option.distinct(1))
  then have yq: "cx_queue y = ?c + 1" using s2(3) y x1 s1(4) unfolding keeps_def by auto
  have e: "?ex(?c := ?ex ?c - 1) = (\<lambda>_. 0)" by auto
  obtain r s3 where s3: "context_new_ok ?c name param s2 = Some (r, s3)" "node_inv {} {} (\<lambda>_. 0) s3" "keeps s2 s3"
    using context_new_ok_ok[OF s2(2) _ y, of name param] unfolding yq e by auto
  have "skynet_context_new query create init name param s = Some (r, s3)" using q s1(1) s2(1) s3(1) by (simp add: skynet_context_new_def)
  moreover have "keeps s s3" using keeps_trans[OF s1(6) keeps_trans[OF s2(3) s3(3)]] .
  ultimately show ?thesis using s3(2) P[OF s2(4) s3(3)] by blast
qed

text \<open>A node with one service, which starts the harbor.\<close>

definition harbor_init :: "nat \<Rightarrow> byte list option \<Rightarrow> node \<Rightarrow> (int \<times> node) option" where
  "harbor_init c param s = do { s' \<leftarrow> skynet_harbor_start c s; Some (0, s') }"

definition harbor_node :: "u32 \<Rightarrow> node" where
  "harbor_node harbor =
     (case skynet_context_new (\<lambda>_. Some 1) (\<lambda>_. Some 1) harbor_init (str ''harbor'') None (node_init harbor 0 0 0) of
        Some (_, s) \<Rightarrow> s
      | None \<Rightarrow> node_statics)"

lemma handle_new_init: "handle_new (node_init harbor sec cs cp)"
  by (simp add: handle_new_def hs_full_def node_init_fields skynet_handle_init_def DEFAULT_SLOT_SIZE_def mq_sig_def split: option.splits)

lemma harbor_start_keeps:
  assumes "skynet_harbor_start c s = Some s'"
  shows "keeps s s'"
proof -
  obtain x where x: "nd_ctx s c = Some x" and
    s': "s' = (ctx_set c (x\<lparr>cx_ref := cx_ref x + 1\<rparr>) s)\<lparr>nd_total := nd_total s - 1, nd_remote := Some c\<rparr>"
    using assms by (auto simp: skynet_harbor_start_def skynet_context_reserve_def skynet_context_grab_def bind_eq_Some_conv)
  have "keeps s (ctx_set c (x\<lparr>cx_ref := cx_ref x + 1\<rparr>) s)" by (rule keeps_set[OF x]) simp_all
  then show ?thesis unfolding s' by (simp add: keeps_def timed_def mq_sig_def)
qed

lemma harbor_node_ready:
  assumes "harbor AND 0xff \<noteq> 0"
  shows "ready (harbor_node harbor)"
proof -
  let ?s = "node_init harbor 0 0 0"
  note i = node_init_inv[OF assms, of 0 0 0]
  have "\<exists>r s'. skynet_context_new (\<lambda>_. Some 1) (\<lambda>_. Some 1) harbor_init (str ''harbor'') None ?s = Some (r, s') \<and>
      node_inv {} {} (\<lambda>_. 0) s' \<and> keeps ?s s' \<and> nd_remote s' \<noteq> None"
  proof (rule context_new_run[OF i(1) handle_new_init])
    fix s1 x
    assume s1: "node_inv {nd_brk ?s + 1} {nd_brk ?s + 1} ((\<lambda>_. 0)(nd_brk ?s := 1)) s1" "nd_ctx s1 (nd_brk ?s) = Some x" "nd_remote s1 = nd_remote ?s"
    have "nd_remote s1 = None" using s1(3) by (simp add: node_init_fields)
    from harbor_start_ok[OF s1(1) this s1(2)] harbor_start_keeps
    show "\<exists>s2. harbor_init (nd_brk ?s) None s1 = Some (0, s2) \<and> node_inv {nd_brk ?s + 1} {nd_brk ?s + 1} ((\<lambda>_. 0)(nd_brk ?s := 1)) s2 \<and>
        keeps s1 s2 \<and> nd_remote s2 \<noteq> None"
      by (auto simp: harbor_init_def)
  qed (auto simp: keeps_def)
  then obtain r s' where s': "skynet_context_new (\<lambda>_. Some 1) (\<lambda>_. Some 1) harbor_init (str ''harbor'') None ?s = Some (r, s')"
    "node_inv {} {} (\<lambda>_. 0) s'" "keeps ?s s'" "nd_remote s' \<noteq> None" by blast
  have "harbor_node harbor = s'" using s'(1) by (simp add: harbor_node_def)
  moreover have "timed s'" using s'(3) i(2) by (simp add: keeps_def)
  ultimately show ?thesis using s'(2,4) by (simp add: ready_def up_def)
qed

end
