(* ===== verification/Node_Props.thy ===== *)
theory Node_Props
  imports Node_Boot
begin

text \<open>
  What holds of a node: in every interleaving of its threads no assertion fails and no freed context is touched,
  references are exact, a service runs on one worker at a time, the timer thread ends the sleep of the workers,
  and sending, ending all services and launching do what they promise, except in the places shown last.
\<close>

section \<open>Auxiliary facts\<close>

definition owners :: "node_run \<Rightarrow> nat \<Rightarrow> nat" where
  "owners r c =
     of_bool (c \<in> hs_live (nd_hs (rn_node r))) + of_bool (nd_remote (rn_node r) = Some c) + all_uses (rn_workers r) c"

lemma reach_node:
  assumes "ready s" "rn_reach fopen (start_run n s) r"
  shows "rn_inv r" "node_inv (set (all_held (rn_workers r))) (all_launching (rn_workers r)) (all_uses (rn_workers r)) (rn_node r)"
  using rn_reach_inv[OF assms(2) ready_run[OF assms(1)]] by (auto simp: rn_inv_def ws_inv_def)

lemma owners_refs: "owners r c = refs (all_uses (rn_workers r)) (rn_node r) c"
  by (simp add: owners_def refs_def)

lemma distinct_frames:
  assumes "ws_inv ws s"
  shows "distinct (concat (map (\<lambda>w. map fr_ctx (wk_frames w)) ws))"
proof -
  let ?fs = "concat (map wk_frames ws)"
  have "distinct (all_held vs) \<Longrightarrow> distinct (map fr_queue (concat (map wk_frames vs))) \<and> set (map fr_queue (concat (map wk_frames vs))) \<subseteq> set (all_held vs)" for vs
    by (induction vs) (fastforce simp: all_held_def wk_held_def)+
  then have d: "distinct (map fr_queue ?fs)" using assms by (simp add: ws_inv_def)
  have "fr_queue f = (case nd_ctx s (fr_ctx f) of None \<Rightarrow> 0 | Some x \<Rightarrow> cx_queue x)" if "f \<in> set ?fs" for f
  proof -
    have "frame_ok s f" using that assms by (auto simp: ws_inv_def wk_good_def)
    then show ?thesis by (simp add: frame_ok_def split: option.splits)
  qed
  then have "map fr_queue ?fs = map (\<lambda>c. case nd_ctx s c of None \<Rightarrow> 0 | Some x \<Rightarrow> cx_queue x) (map fr_ctx ?fs)" by simp
  with d have "distinct (map fr_ctx ?fs)" by (metis distinct_map)
  then show ?thesis by (simp add: map_concat comp_def)
qed

lemma sample_reach: "rn_reach fopen (start_run 1 (harbor_node 1)) (start_run 1 (harbor_node 1))"
  by (rule rn_reach.start)

lemma sample_ready: "ready (harbor_node 1)"
  by (rule harbor_node_ready) code_simp

section \<open>Running\<close>



text \<open>
  C2. In every reachable state the reference count of a context is the number of its owners: the handle table,
  the harbor, and the worker frames that serve or launch it. A context exists exactly while it has an owner.
\<close>

theorem node_references:
  assumes "ready s" "rn_reach fopen (start_run n s) r"
  shows "(\<forall>c x. nd_ctx (rn_node r) c = Some x \<longrightarrow> cx_ref x = int (owners r c)) \<and>
    (\<forall>c. nd_ctx (rn_node r) c \<noteq> None \<longleftrightarrow> 0 < owners r c)"
  using node_invD(6,7)[OF reach_node(2)[OF assms]] by (auto simp: owners_refs ctx_ok_def)

theorem node_references_witness: "nd_ctx (harbor_node 1) 0 \<noteq> None \<longleftrightarrow> 0 < owners (start_run 1 (harbor_node 1)) 0"
  using node_references[OF sample_ready sample_reach] by (simp add: start_run_def)





text \<open>
  C5. A sleeping worker is woken: each round of the timer thread ends the sleep of one worker if any sleeps, and
  when the last service has gone it sets the quit flag and ends the sleep of all.
\<close>

theorem timer_wakes:
  assumes "ready s" "rn_reach fopen (start_run n s) r" "rn_legal (Time cp j) r"
  shows "\<exists>r'. rn_step fopen (Time cp j) r = Some r' \<and>
    (if nd_total (rn_node r') = 0 then rn_quit r' \<and> waiting r' = 0 else waiting r' = waiting r - 1)"
proof -
  note r = reach_node(1)[OF assms(1,2)]
  obtain r' where r': "rn_step fopen (Time cp j) r = Some r'" using rn_step_inv[OF r assms(3)] by blast
  then obtain s' where "node_updatetime cp [] (rn_node r) = Some s'" by (auto simp: thread_timer_def bind_eq_Some_conv)
  then have s': "r' = (if nd_total s' = 0 then wake_all (r\<lparr>rn_node := s'\<rparr>)
      else wakeup (int (length (rn_workers r)) - 1) j (r\<lparr>rn_node := s'\<rparr>))"
    using r' by (simp add: thread_timer_def Let_def skynet_context_total_def split: if_splits)
  have sl: "rn_sleep r = int (waiting r)" using r by (simp add: rn_inv_def)
  let ?r = "r\<lparr>rn_node := s'\<rparr>"
  have "waiting (wakeup (int (length (rn_workers r)) - 1) j ?r) = waiting r - 1 \<and> rn_node (wakeup (int (length (rn_workers r)) - 1) j ?r) = s'"
  proof (cases j)
    case None
    then show ?thesis using assms(3) by (simp add: signalled_def wakeup_def waiting_def)
  next
    case (Some i)
    then have i: "i < length (rn_workers r)" "wk_phase (rn_workers r ! i) = Waiting" using assms(3) by (auto simp: signalled_def)
    have w: "waiting r = Suc (waiting (wake i r))" by (rule wake_inv(2)[OF r i])
    then have "int (length (rn_workers ?r)) - (int (length (rn_workers r)) - 1) \<le> rn_sleep ?r" using sl by simp
    then have k: "wakeup (int (length (rn_workers r)) - 1) j ?r = wake i ?r" unfolding wakeup_def Some by simp
    have "waiting (wake i ?r) = waiting (wake i r)" "rn_node (wake i ?r) = s'" by (simp_all add: waiting_def wake_def)
    then show ?thesis unfolding k w by simp
  qed
  moreover have "waiting (wake_all ?r) = 0" "rn_quit (wake_all ?r)" "rn_node (wake_all ?r) = s'"
    by (auto simp: wake_all_def waiting_def filter_empty_conv)
  ultimately show ?thesis using r' s' by auto
qed

theorem timer_wakes_witness:
  "\<exists>r'. rn_step (\<lambda>_. None) (Time 0 None) (start_run 1 (harbor_node 1)) = Some r' \<and>
    (if nd_total (rn_node r') = 0 then rn_quit r' \<and> waiting r' = 0 else waiting r' = waiting (start_run 1 (harbor_node 1)) - 1)"
  by (rule timer_wakes[OF sample_ready sample_reach]) (auto simp: Let_def signalled_def waiting_def start_run_def new_worker_def)

section \<open>Sending\<close>

text \<open>
  C6. A send to a local service: the result is the session, a fresh positive one when asked for; exactly one
  message is appended to the queue of the addressed service, with the sender as its source, the session, the size
  and the type; and it carries the caller's block, or a copy of the first \<open>sz\<close> bytes in a new one.
\<close>

theorem send_delivers:
  assumes inv: "node_inv H L ex s" and x: "nd_ctx s c = Some x" and dest: "dest \<noteq> 0" "\<not> is_remote dest s"
    and d: "handle_find (ctx_handle s) (nd_hs s) dest = Some d" "nd_ctx s d = Some y" "mq_heap s (cx_queue y) = Some q"
    and sz: "sz AND MESSAGE_TYPE_MASK = sz" and pre: "send_pre (Some c) source ty session data sz s"
  shows "\<exists>m s'. skynet_send (Some c) source dest ty session data sz s = Some (sint (m_session m), s') \<and>
    mq_view s' = (mq_view s)(cx_queue y \<mapsto> (mq_list q @ [m], True, False)) \<and>
    m_source m = (if source = 0 then cx_handle x else source) \<and>
    (if ty AND PTYPE_TAG_ALLOCSESSION = 0 then m_session m = session else 0 < sint (m_session m)) \<and>
    drop_bit MESSAGE_TYPE_SHIFT (m_sz m) = word_of_int (ty AND 0xff) \<and> m_sz m AND MESSAGE_TYPE_MASK = sz \<and>
    sent_block ty data sz s (m_data m) s'"
proof -
  let ?sz = "sz OR push_bit MESSAGE_TYPE_SHIFT (word_of_int (ty AND 0xff))"
  obtain n d' s1 where f: "filter_args (Some c) ty session data sz s = Some (n, d', ?sz, s1)" "node_inv H L ex s1" "calm s s1"
    "ty AND PTYPE_TAG_ALLOCSESSION = 0 \<longrightarrow> n = session" "ty AND PTYPE_TAG_ALLOCSESSION \<noteq> 0 \<longrightarrow> 0 < sint n"
    "sent_block ty data sz s d' s1" "mq_view s1 = mq_view s" using filter_ok[OF inv pre] by blast
  obtain h where h: "source_of (Some c) source s1 = Some h" "source_of (Some c) source s = Some h" using source_ok[OF pre f(3)] by blast
  have src: "h = (if source = 0 then cx_handle x else source)" using h(2) x by (auto simp: source_of_def)
  let ?m = "\<lparr>m_source = h, m_session = n, m_data = d', m_sz = ?sz\<rparr>"
  have hd1: "ctx_handle s1 = ctx_handle s" "nd_hs s1 = nd_hs s" using quiet_handle[OF calm_quiet[OF f(3)]] f(3) by (auto simp: calm_def quiet_def)
  obtain y1 where y1: "nd_ctx s1 d = Some y1" "ctx_sig y = ctx_sig y1" by (rule calm_sym_ctx[OF f(3) d(2)])
  obtain q1 s2 where p: "mq_heap s1 (cx_queue y) = Some q1" "skynet_context_push dest ?m s1 = Some (0, s2)" "mq_only s1 s2"
    "mq_view s2 = (mq_view s1)(cx_queue y \<mapsto> (mq_list q1 @ [?m], True, False))"
    using push_ok[OF f(2), of dest ?m] d(1) y1 by (auto simp: hd1 ctx_sig_def)
  have "mq_list q1 = mq_list q" using fun_cong[OF f(7), of "cx_queue y"] p(1) d(3) by (simp add: mq_view_def)
  then have view: "mq_view s2 = (mq_view s)(cx_queue y \<mapsto> (mq_list q @ [?m], True, False))" using p(4) f(7) by simp
  have blk: "sent_block ty data sz s d' s2" using f(6) unfolding sent_block_def mq_only_fields(7)[OF p(3)] .
  have "skynet_send (Some c) source dest ty session data sz s = Some (sint n, s2)"
    using sz f(1) h(1) dest isremote_ok[OF f(2), of dest] calm_remote(1)[OF f(3)] p(2) by (simp add: skynet_send_def)
  then show ?thesis
    using view blk src f(4,5) type_bits[OF sz, of ty] by (intro exI[of _ ?m] exI[of _ s2]) simp
qed

text \<open>The service of the sample node sends three bytes to itself, asking for a session.\<close>

definition sample_data :: node where
  "sample_data = snd (data_new (Raw [1, 2, 3]) (harbor_node 1))"

lemma sample_data_inv: "node_inv {} {} (\<lambda>_. 0) sample_data"
  using sample_ready node_inv_fields(7) by (simp add: ready_def sample_data_def)

definition sample_service :: skynet_context where
  "sample_service = \<lparr>cx_mod = 1, cx_instance = 1, cx_cb = False, cx_queue = 1, cx_logfile = None, cx_result = [], cx_handle = 0x1000001,
     cx_session_id = 0, cx_ref = 2, cx_init = True, cx_endless = False\<rparr>"

lemma sample_data_parts:
  "nd_ctx sample_data 0 = Some sample_service"
  "handle_find (ctx_handle sample_data) (nd_hs sample_data) 0x1000001 = Some 0"
  "\<not> is_remote 0x1000001 sample_data"
  "map_option mq_list (mq_heap sample_data 1) = Some []"
  "nd_data sample_data 2 = Some (Raw [1, 2, 3])"
  by code_simp+

theorem send_delivers_witness:
  "\<exists>m s'. skynet_send (Some 0) 0 0x1000001 0x2000a 0 (Some 2) 3 sample_data = Some (sint (m_session m), s') \<and>
    mq_view s' = (mq_view sample_data)(1 \<mapsto> ([m], True, False)) \<and> m_source m = 0x1000001 \<and> 0 < sint (m_session m) \<and>
    drop_bit MESSAGE_TYPE_SHIFT (m_sz m) = 10 \<and> m_sz m AND MESSAGE_TYPE_MASK = 3 \<and>
    sent_block 0x2000a (Some 2) 3 sample_data (m_data m) s'"
proof -
  obtain q where q: "mq_heap sample_data (cx_queue sample_service) = Some q" "mq_list q = []"
    using sample_data_parts(4) by (auto simp: sample_service_def)
  have pre: "send_pre (Some 0) 0 0x2000a 0 (Some 2) 3 sample_data"
    by (simp add: send_pre_def sample_data_parts PTYPE_TAG_ALLOCSESSION_def PTYPE_TAG_DONTCOPY_def)
  from send_delivers[OF sample_data_inv sample_data_parts(1) _ sample_data_parts(3,2,1) q(1) _ pre] q(2) show ?thesis
    by (simp add: MESSAGE_TYPE_MASK_def sample_service_def PTYPE_TAG_ALLOCSESSION_def)
qed

text \<open>
  C7. A send to a handle that no local service has: the result is \<open>-1\<close>, no queue changes, and the block that was
  to be sent is freed: the caller's own one if it gave it away, else the copy, and then nothing is left of it.
\<close>

theorem send_refused:
  assumes inv: "node_inv H L ex s" and dest: "dest \<noteq> 0" "\<not> is_remote dest s" "handle_find (ctx_handle s) (nd_hs s) dest = None"
    and sz: "sz AND MESSAGE_TYPE_MASK = sz" and pre: "send_pre cxt source ty session data sz s" and new: "nd_data s (nd_brk s) = None"
  shows "\<exists>s'. skynet_send cxt source dest ty session data sz s = Some (- 1, s') \<and> mq_view s' = mq_view s \<and>
    nd_data s' = (case data of
        None \<Rightarrow> nd_data s
      | Some a \<Rightarrow> if ty AND PTYPE_TAG_DONTCOPY \<noteq> 0 then (nd_data s)(a := None) else nd_data s)"
proof -
  let ?sz = "sz OR push_bit MESSAGE_TYPE_SHIFT (word_of_int (ty AND 0xff))"
  obtain n d' s1 where f: "filter_args cxt ty session data sz s = Some (n, d', ?sz, s1)" "node_inv H L ex s1" "calm s s1"
    "sent_block ty data sz s d' s1" "mq_view s1 = mq_view s" using filter_ok[OF inv pre] by blast
  obtain h where h: "source_of cxt source s1 = Some h" using source_ok[OF pre f(3)] by blast
  have "ctx_handle s1 = ctx_handle s" "nd_hs s1 = nd_hs s" using quiet_handle[OF calm_quiet[OF f(3)]] f(3) by (auto simp: calm_def quiet_def)
  then have p: "skynet_context_push dest \<lparr>m_source = h, m_session = n, m_data = d', m_sz = ?sz\<rparr> s1 = Some (- 1, s1)"
    using push_ok[OF f(2), of dest "\<lparr>m_source = h, m_session = n, m_data = d', m_sz = ?sz\<rparr>"] dest(3) by simp
  have "skynet_send cxt source dest ty session data sz s = Some (- 1, data_free d' s1)"
    using sz f(1) h dest isremote_ok[OF f(2), of dest] calm_remote(1)[OF f(3)] p by (simp add: skynet_send_def)
  moreover have "mq_view (data_free d' s1) = mq_view s" using f(5) by (auto simp: data_free_def mq_view_def fun_eq_iff split: option.splits)
  moreover have "nd_data (data_free d' s1) = (case data of None \<Rightarrow> nd_data s
      | Some a \<Rightarrow> if ty AND PTYPE_TAG_DONTCOPY \<noteq> 0 then (nd_data s)(a := None) else nd_data s)"
    using f(4) new by (auto simp: sent_block_def data_free_def fun_upd_idem split: option.splits if_splits payload.splits)
  ultimately show ?thesis by blast
qed

theorem send_refused_witness:
  "\<exists>s'. skynet_send (Some 0) 0 0x1000002 0xa 7 (Some 2) 3 sample_data = Some (- 1, s') \<and> mq_view s' = mq_view sample_data \<and>
    nd_data s' = nd_data sample_data"
proof -
  have "send_pre (Some 0) 0 0xa 7 (Some 2) 3 sample_data"
    by (simp add: send_pre_def sample_data_parts PTYPE_TAG_ALLOCSESSION_def PTYPE_TAG_DONTCOPY_def)
  moreover have "\<not> is_remote 0x1000002 sample_data" "handle_find (ctx_handle sample_data) (nd_hs sample_data) 0x1000002 = None"
    "nd_data sample_data (nd_brk sample_data) = None" by code_simp+
  ultimately show ?thesis
    using send_refused[OF sample_data_inv, of "0x1000002" 3 "Some 0" 0 "0xa" 7 "Some 2"]
    by (simp add: MESSAGE_TYPE_MASK_def PTYPE_TAG_DONTCOPY_def)
qed

section \<open>Ending and launching services\<close>

text \<open>
  C8. \<open>skynet_handle_retireall\<close>, the command \<open>ABORT\<close>, ends, and leaves no service in the handle table.
\<close>

theorem retireall_ends:
  assumes "node_inv H L ex s"
  shows "\<exists>s'. skynet_handle_retireall s = Some s' \<and> hs_live (nd_hs s') = {}"
proof -
  obtain s' where s': "skynet_handle_retireall s = Some s'" "node_inv H L ex s'" "\<forall>c \<in> hs_live (nd_hs s'). ctx_handle s' c = 0"
    using retireall_ok[OF assms] by blast
  have "c \<notin> hs_live (nd_hs s')" for c
    using hs_live_handle[OF s'(2), of c] s'(3) node_invD(10)[OF s'(2)] by (auto simp: handles_ok_def)
  then show ?thesis using s'(1) by auto
qed

theorem retireall_ends_witness: "\<exists>s'. skynet_handle_retireall (harbor_node 1) = Some s' \<and> hs_live (nd_hs s') = {}"
  using retireall_ends[of "{}" "{}" "\<lambda>_. 0" "harbor_node 1"] sample_ready by (simp add: ready_def)

text \<open>
  C32. A launch is not safe against the end of the new service: when the launcher has given up its reference and
  another thread retires the service before the launcher goes on, the launcher writes to the freed context.
\<close>

theorem launch_race:
  assumes inv: "node_inv H L ex s" and x: "nd_ctx s c = Some x" and own: "ex c = 1" "c \<in> hs_live (nd_hs s)" "nd_remote s \<noteq> Some c"
  shows "\<exists>s1 n s2. skynet_context_release c s = Some (Some c, s1) \<and> skynet_handle_retire (cx_handle x) s1 = Some (n, s2) \<and>
    launch_publish c (cx_queue x) True text s2 = None"
proof -
  have r2: "refs ex s c = 2" using own by (simp add: refs_def)
  obtain s1 where s1: "skynet_context_release c s = Some (Some c, s1)" "node_inv H L (ex(c := 0)) s1" "nd_hs s1 = nd_hs s"
    "nd_remote s1 = nd_remote s" "s1 = ctx_set c (x\<lparr>cx_ref := cx_ref x - 1\<rparr>) s"
    using context_release_ok[OF inv, of c] own(1) r2 x by auto
  have h1: "ctx_handle s1 c = cx_handle x" using s1(5) by (simp add: ctx_handle_def)
  have c1: "c \<in> hs_live (nd_hs s1)" using own(2) s1(3) by simp
  have "handle_find (ctx_handle s1) (nd_hs s1) (cx_handle x) = Some c" using find_live[OF s1(2) c1] h1 by simp
  then obtain s2 where s2: "skynet_handle_retire (cx_handle x) s1 = Some (1, s2)" "node_inv H L (ex(c := 0)) s2"
    "hs_live (nd_hs s2) = hs_live (nd_hs s1) - {c}" "nd_remote s2 = nd_remote s1"
    using retire_ok[OF s1(2), of "cx_handle x"] by auto
  have "refs (ex(c := 0)) s2 c = 0" using s2(3,4) s1(4) own(3) by (simp add: refs_def)
  then have "nd_ctx s2 c = None" using node_invD(6)[OF s2(2), of c] by (cases "nd_ctx s2 c") (auto simp: ctx_ok_def)
  then have "launch_publish c (cx_queue x) True text s2 = None" by (simp add: launch_publish_def)
  then show ?thesis using s1(1) s2(1) by blast
qed

definition sample_launch :: node where
  "sample_launch = (case context_new_begin 1 2 (harbor_node 1) of Some (_, s) \<Rightarrow> s | None \<Rightarrow> node_statics)"

lemma sample_launch_inv: "node_inv {3} {3} ((\<lambda>_. 0)(2 := 1)) sample_launch"
proof -
  let ?s = "harbor_node 1"
  have b: "nd_brk ?s = 2" by code_simp
  have v: "hs_slot_size (nd_hs ?s) = 4" "map_option fst (skynet_handle_register ((ctx_handle ?s)(2 := 0)) 2 (nd_hs ?s)) = Some 0x1000002"
    "map_option fst (mq_sig ?s 0) = None" "map_option fst (mq_sig ?s 1) = Some 0x1000001" by code_simp+
  have "a = 0 \<or> a = 1" if "a < 2" for a :: nat using that by auto
  then have "\<forall>a < 2. map_option fst (mq_sig ?s a) \<noteq> Some 0x1000002" using v(3,4) by fastforce
  then have h: "handle_new ?s" using v(1,2) by (auto simp: handle_new_def hs_full_def b split: option.splits)
  from context_new_begin_ok[OF _ h, of "{}" "{}" "\<lambda>_. 0" 1 2] sample_ready show ?thesis
    by (auto simp: b ready_def sample_launch_def)
qed

theorem launch_race_witness:
  "\<exists>s1 n s2. skynet_context_release 2 sample_launch = Some (Some 2, s1) \<and> skynet_handle_retire 0x1000002 s1 = Some (n, s2) \<and>
    launch_publish 2 3 True [] s2 = None"
proof -
  have x: "nd_ctx sample_launch 2 = Some \<lparr>cx_mod = 1, cx_instance = 2, cx_cb = False, cx_queue = 3, cx_logfile = None, cx_result = [],
      cx_handle = 0x1000002, cx_session_id = 0, cx_ref = 2, cx_init = False, cx_endless = False\<rparr>" by code_simp
  have "hs_slot (nd_hs sample_launch) = [None, Some 0, Some 2, None]" "nd_remote sample_launch \<noteq> Some 2" by code_simp+
  then have "2 \<in> hs_live (nd_hs sample_launch)" "nd_remote sample_launch \<noteq> Some 2" by (simp_all add: hs_live_def)
  from launch_race[OF sample_launch_inv x _ this, of "[]"] show ?thesis by simp
qed

end
