(* ===== verification/Spec2Isabelle.thy ===== *)
theory Spec2Isabelle
  imports Scheduler Handle Timer Gate_Stream Connection_Manager Redis_Client DB_Objects Physic Sha1 Crypt_Codec Des Node_Props
begin

text \<open>
  Verification library of the Owlies game server. Paths below are relative to \<open>src/server/\<close>; \<open>skynet-src\<close>,
  \<open>service-src\<close> and \<open>lualib-src\<close> stand for the directories of that name in \<open>3rd/skynet/\<close>.

  \<^bold>\<open>The program.\<close> The server is a node of the skynet actor runtime with services of its own. A \<^emph>\<open>service\<close> is a context
  with a handle, a message queue and a callback. Worker threads take queues from one global queue, run the callback
  on the messages of the queue and put the queue back; a timer thread turns expired timers into messages and wakes
  sleeping workers; a socket thread brings in network events and a monitor thread looks for callbacks that do not
  return. Clients connect to the \<^emph>\<open>gate\<close> service, which cuts their byte streams into packets and forwards these. Lua
  services decode the packets with the message envelope, keep accounts in Redis through a C binding and the
  database objects, and use the C library for hashes, ciphers and codecs.

  \<^bold>\<open>Conventions\<close> are in the text of \<open>Skynet_Prelude\<close>: machine words for fixed-width integers, \<open>None\<close> for a failed
  assertion, a wild access or a loop that does not end, an inner \<open>None\<close> for a null pointer, and sums for errors the code
  reports. Structures of the source are records with the same fields, and objects that the code shares by address are
  kept in maps from addresses, so that a use after free is a fault of the model.

  \<^bold>\<open>Theories and sources.\<close>
  \<^item> \<open>Skynet_Prelude\<close>, \<open>Bytes\<close>, \<open>Cstring\<close>: types, byte order, the functions of the C library that are used on text.
  \<^item> \<open>Fifo\<close>, \<open>Registry\<close> and part of \<open>Timer\<close>: the interfaces, as locales. \<open>fifo_queue\<close> is interpreted on the ring buffers
    (\<open>mq\<close>), \<open>registry\<close> on the handle table (\<open>ht\<close>), \<open>slot_map\<close> on the connection ids (\<open>hid\<close>) and \<open>timer_service\<close> on the
    timing wheel (\<open>wheel\<close>).
  \<^item> \<open>Message_Queue\<close> (\<open>skynet-src/skynet_mq.c\<close>): \<open>message_queue\<close> is the ring buffer of a service, \<open>mq_globals\<close> the heap of
    queues with the linked global queue.
  \<^item> \<open>Scheduler\<close> (the calls of \<open>skynet_server.c\<close> on the queues): a step relation in which threads interleave at every
    queue operation.
  \<^item> \<open>Handle\<close> (\<open>skynet-src/skynet_handle.c\<close>): \<open>handle_storage\<close> with the open-addressed slots and the sorted names.
  \<^item> \<open>Timer\<close> (\<open>skynet-src/skynet_timer.c\<close>): the wheel of one near and four far levels, and the clock.
  \<^item> \<open>Node\<close>, \<open>Node_Commands\<close> (\<open>skynet_server.c\<close>, \<open>skynet_error.c\<close>, \<open>skynet_harbor.c\<close>, \<open>skynet_env.c\<close>, \<open>skynet_log.c\<close>,
    \<open>skynet_monitor.c\<close>): \<open>node\<close> extends the queues' state by the contexts, the table, the timer, the environment and
    what the node gives to the outside; sending, launching, dispatching, retiring and all text commands.
  \<^item> \<open>Node_Queues\<close>, \<open>Node_Inv\<close>, \<open>Node_Services\<close>, \<open>Node_Calls\<close>: the invariant of the node and that each operation returns and
    keeps it.
  \<^item> \<open>Node_Run\<close>, \<open>Node_Boot\<close> (\<open>skynet_start.c\<close>): the threads as a step relation with the stack of frames of each worker, and
    the start of a node. \<open>Node_Props\<close>: what follows for every run.
  \<^item> \<open>Databuffer\<close> (\<open>service-src/databuffer.h\<close>), \<open>Hashid\<close> (\<open>service-src/hashid.h\<close>), \<open>Gate\<close>, \<open>Gate_Stream\<close>
    (\<open>service-src/service_gate.c\<close>): the receive buffers, the connection ids and the gate. The calls a handler makes of
    the node are the list of actions it returns.
  \<^item> \<open>Connection_Manager\<close> (\<open>Src/LuaInterface/lua_connectionManager.c\<close>), \<open>Redis_Client\<close> (\<open>Src/Redis/hiredis.c\<close>),
    \<open>DB_Objects\<close> (\<open>Src/DBObject/\<close>), \<open>Physic\<close> (\<open>Src/LuaInterface/lua_physic.c\<close>): the game's own C modules.
  \<^item> \<open>Sha1\<close> (\<open>lualib-src/lsha1.c\<close>), \<open>Crypt\<close>, \<open>Crypt_Codec\<close>, \<open>Des\<close> (\<open>lualib-src/lua-crypt.c\<close>): hash and keyed hash,
    Diffie-Hellman, hexadecimal and base64 text, the block cipher.

  \<^bold>\<open>What is shown.\<close>
  \<^item> The runtime: in every interleaving of workers, timer, socket and monitor, with services that make any calls, no
    assertion fails and no freed context or queue is touched, except where a launch races with a retirement, which is
    shown to be a use after free; reference counts are exact; a service runs on one worker at a time; no queue with
    messages is forgotten; the timer thread ends the sleep of the workers; sent messages arrive and refused ones are
    given back; retiring all services ends.
  \<^item> Its data structures: ring buffers are queues, the linked global queue is a list, the handle table is a registry
    through rehashing, the wheel is a calendar through level moves and wrap-around of the clock.
  \<^item> The gate: packets come out as they were sent however the stream is split, and every reachable gate handles every
    socket event safely; two headers of malicious clients that break the framing are shown as such.
  \<^item> The game's modules: what they give for well-formed input, and the inputs for which they read or write outside their
    blocks or lose data.
  \<^item> The cryptography: the hash is SHA-1 of FIPS 180-4 and the keyed hash HMAC of FIPS 198-1; the exchange gives both sides
    the same secret; decryption and decoding give back what was encrypted and encoded, except that hexadecimal text of an
    odd number of bytes is refused.

  \<^bold>\<open>Bounds.\<close> No definition uses fuel. Loops are structural or have a termination proof; loops that may run forever are
  partial functions into \<open>option\<close>, and for each a lemma shows the condition under which it returns. \<open>lsha1\<close> is
  shown right for strings shorter than \<open>2 ^ 29\<close> bytes, beyond which the bit count is shown to be wrong
  (\<open>update_counts_long\<close>); strings that are indexed by an \<open>int\<close> are shorter than \<open>2 ^ 31\<close> bytes. The timer is shown right
  for advances of the clock below \<open>2 ^ 31\<close> ticks.

  \<^bold>\<open>Not modelled.\<close> The callbacks of services and the modules loaded by \<open>skynet_module.c\<close> are open: any sequence of calls.
  \<open>socket_server.c\<close>, \<open>skynet_socket.c\<close>, \<open>skynet_daemon.c\<close>, \<open>skynet_main.c\<close> and \<open>malloc_hook.c\<close> are wrappers of system calls,
  threads and the allocator; \<open>service_harbor.c\<close> and \<open>service_logger.c\<close> are services on top of sockets and files, and
  the node is shown safe for every service in their place. \<open>service_snlua.c\<close> and the remaining files of \<open>lualib-src\<close> work on
  the stack of the Lua machine (\<open>3rd/lua\<close>), whose semantics is not part of the model; so do the Lua scripts. The
  libraries under \<open>3rd/skynet/3rd\<close>, \<open>3rd/lua-cjson\<close> and \<open>installs\<close> are third-party packages; the Redis client library is a
  parameter of \<open>Redis_Client\<close>. Acquire and release of spin locks are not steps of their own: every locked section is
  one step. The headers of \<open>Src/Game\<close> declare classes without code, and the directories \<open>database\<close> and \<open>sprotodump\<close>
  beside \<open>server\<close> hold samples and tools outside the server.
\<close>

end
